(* ===== verification/Prelude.thy ===== *)
theory Prelude
  imports Main "HOL-Library.Word"
begin

unbundle bit_operations_syntax

text \<open>
  The vocabulary every component shares: the machine integer types of the C++ source at
  their width, the big-endian byte order of the memory components (\<open>src/src/mem\<close>) and the
  generic facts about words, lists and updates that the component proofs use.
\<close>

section \<open>Machine integers\<close>

type_synonym u8 = "8 word"
type_synonym u16 = "16 word"
type_synonym u32 = "32 word"
type_synonym u64 = "64 word"

text \<open>\<open>core::Tick\<close> of \<open>src/src/core/time.hpp\<close>.\<close>

type_synonym tick = u64

named_theorems dispatch \<comment> \<open>the opcode families a decoded instruction runs through\<close>

section \<open>Words\<close>

lemma unat_of_nat_u32: "i < 4294967296 \<Longrightarrow> unat (of_nat i :: u32) = i"
  by (simp add: unat_of_nat take_bit_nat_eq_self)

lemma unat_add_of_nat:
  fixes p :: u32
  assumes "unat p + i < 4294967296"
  shows "unat (p + of_nat i) = unat p + i"
proof -
  have "i < 4294967296" using assms by simp
  then show ?thesis
    using assms by (simp add: unat_word_ariths unat_of_nat_u32)
qed

lemma add_of_nat_inj:
  fixes p :: u32
  assumes "p + of_nat i = p + of_nat j" "i < 256" "j < 256"
  shows "i = j"
proof -
  have "(of_nat i :: u32) = of_nat j" using assms(1) by simp
  then have "unat (of_nat i :: u32) = unat (of_nat j :: u32)" by simp
  then show ?thesis using assms(2,3) by (simp add: unat_of_nat_u32)
qed

lemma unat_u8_less: "unat (n :: u8) < 256"
  using unsigned_less [of n] by simp

lemma unat_u32_less: "unat (p :: u32) < 4294967296"
  using unsigned_less [of p] by simp

lemma unat_ucast_u64 [simp]: "unat (ucast (x :: u32) :: u64) = unat x"
  using unat_u32_less [of x] by (simp add: unsigned_ucast_eq take_bit_nat_eq_self)

lemma ucast_u8_inj: "(ucast (x :: u8) :: u32) = ucast y \<longleftrightarrow> x = y"
proof
  assume "(ucast x :: u32) = ucast y"
  then have "unat (ucast x :: u32) = unat (ucast y :: u32)" by simp
  then show "x = y"
    using unat_u8_less [of x] unat_u8_less [of y]
    by (simp add: unsigned_ucast_eq take_bit_nat_eq_self word_unat_eq_iff)
qed simp

lemma unat_diff_add_of_nat:
  fixes p :: u32
  assumes "i < 256"
  shows "unat (p + of_nat i - p) = i"
  using assms by (simp add: unat_of_nat_u32)

lemma div_mod_no_carry:
  fixes a :: nat
  assumes "a mod l + i < l"
  shows "(a + i) div l = a div l" and "(a + i) mod l = a mod l + i"
proof -
  define q r where "q = a div l" and "r = a mod l"
  have e: "a + i = (r + i) + l * q" and b: "r + i < l"
    using assms by (simp_all add: q_def r_def)
  have "(a + i) div l = q" and "(a + i) mod l = r + i"
    unfolding e using b by simp_all
  then show "(a + i) div l = a div l" and "(a + i) mod l = a mod l + i"
    by (simp_all only: q_def r_def)
qed

lemma block_no_overflow:
  fixes a :: nat
  assumes "a < n" "n mod l = 0" "a mod l + i < l"
  shows "a + i < n"
proof -
  obtain k where k: "n = l * k"
    using assms(2) by (auto simp: mod_eq_0_iff_dvd dvd_def)
  define q r where "q = a div l" and "r = a mod l"
  have a: "a = l * q + r" by (simp add: q_def r_def)
  have "q < k"
    using assms(1) k by (simp add: q_def less_mult_imp_div_less mult.commute)
  then have "l * Suc q \<le> n" unfolding k by (intro mult_le_mono2) simp
  moreover have "r + i < l" using assms(3) by (simp only: r_def)
  then have "a + i < l * Suc q" unfolding a by simp
  ultimately show ?thesis by simp
qed

lemma list_all_update:
  "list_all P xs \<Longrightarrow> (i < length xs \<Longrightarrow> P x) \<Longrightarrow> list_all P (xs[i := x])"
  by (cases "i < length xs") (auto simp: list_all_length nth_list_update)

lemma and_ones_u32 [simp]: "(x :: u32) AND 0xFFFFFFFF = x"
proof -
  have "(0xFFFFFFFF :: u32) = - 1" by simp
  then show ?thesis by (simp only: and.right_neutral)
qed

lemma ones_and_u32 [simp]: "0xFFFFFFFF AND (x :: u32) = x"
  using and_ones_u32 [of x] by (simp only: and.commute)

lemma neg_pow_u32 [simp]: "(- 4294967296 :: u32) = 0"
  by simp

text \<open>Splitting an address into its aligned word and its lane.\<close>

lemma low2_cases:
  fixes a :: u32
  obtains "a AND 3 = 0" | "a AND 3 = 1" | "a AND 3 = 2" | "a AND 3 = 3"
proof -
  have "unat (a AND 3) \<le> unat (3 :: u32)"
    by (rule word_le_nat_alt [THEN iffD1]) (rule word_and_le1)
  then have "unat (a AND 3) = 0 \<or> unat (a AND 3) = 1 \<or> unat (a AND 3) = 2 \<or> unat (a AND 3) = 3"
    by auto
  then have "a AND 3 = 0 \<or> a AND 3 = 1 \<or> a AND 3 = 2 \<or> a AND 3 = 3"
    unfolding word_unat_eq_iff by simp
  then show ?thesis using that by blast
qed

lemma word_lane_split: "(a :: u32) = (a AND NOT 3) OR (a AND 3)"
  by (rule bit_word_eqI) (auto simp: bit_simps)

lemma aligned_lane:
  fixes w :: u32
  assumes "w AND 3 = 0" "c < 4"
  shows "(w + of_nat c) AND 3 = of_nat c" and "(w + of_nat c) AND NOT 3 = w"
proof -
  have c3: "(of_nat c :: u32) AND 3 = of_nat c"
    using assms(2) by (auto simp: less_Suc_eq numeral_eq_Suc)
  have "w AND of_nat c = w AND (of_nat c AND 3)" by (simp only: c3)
  also have "\<dots> = (w AND 3) AND of_nat c" by (simp only: ac_simps)
  finally have "w AND of_nat c = 0" using assms(1) by simp
  then have s: "w + of_nat c = w OR of_nat c"
    by (rule disjunctive_add_eq_or)
  show "(w + of_nat c) AND 3 = of_nat c"
    using assms(1) c3 by (simp add: s bit.conj_disj_distrib2)
  have "w AND NOT 3 = w"
    using assms(1) word_lane_split [of w] by simp
  moreover have "(of_nat c :: u32) AND NOT 3 = 0"
    using assms(2) by (auto simp: less_Suc_eq numeral_eq_Suc)
  ultimately show "(w + of_nat c) AND NOT 3 = w"
    by (simp add: s bit.conj_disj_distrib2)
qed

lemmas aligned_lanes = aligned_lane aligned_lane(2) [simplified]

lemma lt4_cases:
  assumes "(c :: nat) < 4"
  obtains "c = 0" | "c = 1" | "c = 2" | "c = 3"
  using assms by linarith

section \<open>Big-endian byte assembly\<close>

text \<open>
  The loops of \<open>TinyCache::read\<close>, \<open>TinyCache::write\<close>, \<open>CommittedMemory::read\<close> and
  \<open>CommittedMemory::write\<close>: byte \<open>i\<close> of a \<open>size\<close>-byte access sits
  \<open>8 * (size - 1 - i)\<close> bits up. For sizes above 4 the source shifts a 32-bit value by 32 or
  more, which C++ leaves undefined; the bus admits sizes 1, 2 and 4 only, and every theorem
  about a value says so.
\<close>

definition be_assemble :: "(nat \<Rightarrow> u8) \<Rightarrow> nat \<Rightarrow> u32" where
  "be_assemble get n =
     fold (\<lambda>i out. out OR push_bit (8 * (n - 1 - i)) (ucast (get i))) [0..<n] 0"

definition be_byte :: "nat \<Rightarrow> u32 \<Rightarrow> nat \<Rightarrow> u8" where
  "be_byte n v i = ucast (drop_bit (8 * (n - 1 - i)) v AND 0xFF)"

definition valid_size :: "u8 \<Rightarrow> bool" where
  "valid_size n \<longleftrightarrow> n = 1 \<or> n = 2 \<or> n = 4"

lemma valid_size_cases:
  assumes "valid_size n"
  obtains "n = 1" | "n = 2" | "n = 4"
  using assms by (auto simp: valid_size_def)

lemma be_assemble_cong:
  assumes "\<And>i. i < n \<Longrightarrow> f i = g i"
  shows "be_assemble f n = be_assemble g n"
  unfolding be_assemble_def by (rule fold_cong) (auto simp: assms)

lemma be_assemble_1: "be_assemble f 1 = ucast (f 0)"
  by (simp add: be_assemble_def)

lemma be_assemble_2: "be_assemble f 2 = push_bit 8 (ucast (f 0)) OR ucast (f 1)"
  by (simp add: be_assemble_def upt_rec)

lemma be_assemble_4:
  "be_assemble f 4 = push_bit 24 (ucast (f 0)) OR push_bit 16 (ucast (f 1)) OR
     push_bit 8 (ucast (f 2)) OR ucast (f 3)"
  by (simp add: be_assemble_def upt_rec numeral_2_eq_2 numeral_3_eq_3 or.assoc)

lemma byte_mask: "(0xFF :: u32) = mask 8"
  by (simp add: mask_eq_exp_minus_1)

lemma be_round_trip_1: "be_assemble (be_byte 1 v) 1 = v AND mask 8"
  unfolding be_assemble_1 be_byte_def byte_mask
  by (rule bit_word_eqI) (auto simp: bit_simps)

lemma be_round_trip_2: "be_assemble (be_byte 2 v) 2 = v AND mask 16"
  unfolding be_assemble_2 be_byte_def byte_mask
  by (rule bit_word_eqI) (auto simp: bit_simps)

lemma be_round_trip_4: "be_assemble (be_byte 4 v) 4 = v"
proof (rule bit_word_eqI)
  fix k :: nat
  assume "k < LENGTH(32)"
  then consider "k < 8" | "8 \<le> k" "k < 16" | "16 \<le> k" "k < 24" | "24 \<le> k" "k < 32"
    by fastforce
  then show "bit (be_assemble (be_byte 4 v) 4) k = bit v k"
    unfolding be_assemble_4 be_byte_def byte_mask by cases (auto simp: bit_simps)
qed

text \<open>Writing a value byte by byte and assembling the bytes gives its low \<open>8 * n\<close> bits.\<close>

lemma be_round_trip:
  assumes "valid_size n"
  shows "be_assemble (be_byte (unat n) v) (unat n) = v AND mask (8 * unat n)"
proof -
  have "v AND mask 32 = v"
    by (rule bit_word_eqI) (auto simp: bit_simps)
  then show ?thesis
    using assms
    by (auto elim!: valid_size_cases simp: be_round_trip_1 [simplified] be_round_trip_2 be_round_trip_4)
qed

end
