(* ===== verification/Memory.thy ===== *)
theory Memory
  imports Prelude
begin

text \<open>
  \<open>src/src/mem/memory.hpp\<close> and \<open>memory.cpp\<close>: the per-CPU store buffer, the direct-mapped
  cache, the committed memory and the address predicates. The interface the two byte-addressed
  stores share is the locale \<open>byte_store\<close>; both are interpretations of it.
\<close>

section \<open>Address predicates\<close>

definition to_phys :: "u32 \<Rightarrow> u32" where
  "to_phys vaddr = vaddr AND 0x1FFFFFFF"

definition is_uncached_alias :: "u32 \<Rightarrow> bool" where
  "is_uncached_alias vaddr \<longleftrightarrow> vaddr AND 0x20000000 \<noteq> 0"

definition is_mmio :: "u32 \<Rightarrow> bool" where
  "is_mmio phys \<longleftrightarrow> (phys \<ge> 0x05C00000 \<and> phys \<le> 0x05CFFFFF) \<or>
     (phys \<ge> 0x05D00000 \<and> phys \<le> 0x05DFFFFF) \<or> (phys \<ge> 0x05F00000 \<and> phys \<le> 0x05FFFFFF)"

section \<open>Store buffer\<close>

record store_entry =
  store_id :: u64
  se_phys :: u32
  se_size :: u8
  se_value :: u32

record store_buffer =
  entries :: "store_entry list"

definition empty_store_buffer :: store_buffer where
  "empty_store_buffer = \<lparr>entries = []\<rparr>"

definition sb_push :: "store_buffer \<Rightarrow> store_entry \<Rightarrow> store_buffer" where
  "sb_push b entry = b\<lparr>entries := entries b @ [entry]\<rparr>"

text \<open>The search runs from the back of the deque: the youngest exact match wins.\<close>

definition sb_forward :: "store_buffer \<Rightarrow> u32 \<Rightarrow> u8 \<Rightarrow> u32 option" where
  "sb_forward b phys sz =
     map_option se_value (find (\<lambda>e. se_phys e = phys \<and> se_size e = sz) (rev (entries b)))"

fun erase_first :: "u64 \<Rightarrow> store_entry list \<Rightarrow> store_entry list" where
  "erase_first sid [] = []"
| "erase_first sid (e # es) = (if store_id e = sid then es else e # erase_first sid es)"

text \<open>\<open>retire\<close> returns whether an entry was found and erases the first one.\<close>

definition sb_retire :: "store_buffer \<Rightarrow> u64 \<Rightarrow> bool \<times> store_buffer" where
  "sb_retire b sid =
     (if find (\<lambda>e. store_id e = sid) (entries b) = None then (False, b)
      else (True, b\<lparr>entries := erase_first sid (entries b)\<rparr>))"

definition sb_size :: "store_buffer \<Rightarrow> nat" where
  "sb_size b = length (entries b)"

section \<open>Direct-mapped cache\<close>

record cache_line =
  cl_valid :: bool
  cl_tag :: u32
  cl_bytes :: "u8 list"

record tiny_cache =
  line_size :: nat
  cache_lines :: "cache_line list"

definition new_cache :: "nat \<Rightarrow> nat \<Rightarrow> tiny_cache" where
  "new_cache lsize lcount =
     \<lparr>line_size = lsize,
      cache_lines = replicate lcount \<lparr>cl_valid = False, cl_tag = 0, cl_bytes = replicate lsize 0\<rparr>\<rparr>"

definition cache_line_base :: "tiny_cache \<Rightarrow> u32 \<Rightarrow> u32" where
  "cache_line_base c phys = phys div of_nat (line_size c)"

definition cache_index :: "tiny_cache \<Rightarrow> u32 \<Rightarrow> nat" where
  "cache_index c lbase = unat lbase mod length (cache_lines c)"

definition cache_offset :: "tiny_cache \<Rightarrow> u32 \<Rightarrow> nat" where
  "cache_offset c phys = unat (phys mod of_nat (line_size c))"

text \<open>The two early returns of \<open>read\<close> and \<open>write\<close>: tag mismatch and line crossing.\<close>

definition cache_hit :: "tiny_cache \<Rightarrow> u32 \<Rightarrow> u8 \<Rightarrow> bool" where
  "cache_hit c phys sz =
     (let lbase = cache_line_base c phys; line = cache_lines c ! cache_index c lbase
      in \<not> (\<not> cl_valid line \<or> cl_tag line \<noteq> lbase) \<and>
         \<not> (cache_offset c phys + unat sz > line_size c))"

text \<open>\<open>read\<close> returns false or fills \<open>out\<close>: here \<open>None\<close> or \<open>Some out\<close>.\<close>

definition cache_read :: "tiny_cache \<Rightarrow> u32 \<Rightarrow> u8 \<Rightarrow> u32 option" where
  "cache_read c phys sz =
     (if \<not> cache_hit c phys sz then None
      else let line = cache_lines c ! cache_index c (cache_line_base c phys);
               offset = cache_offset c phys
           in Some (be_assemble (\<lambda>i. cl_bytes line ! (offset + i)) (unat sz)))"

definition store_bytes :: "u8 list \<Rightarrow> nat \<Rightarrow> nat \<Rightarrow> u32 \<Rightarrow> u8 list" where
  "store_bytes bs offset n v = fold (\<lambda>i bs. bs[offset + i := be_byte n v i]) [0..<n] bs"

definition cache_write :: "tiny_cache \<Rightarrow> u32 \<Rightarrow> u8 \<Rightarrow> u32 \<Rightarrow> tiny_cache" where
  "cache_write c phys sz v =
     (if \<not> cache_hit c phys sz then c
      else let index = cache_index c (cache_line_base c phys); line = cache_lines c ! index
           in c\<lparr>cache_lines := (cache_lines c)[index :=
                line\<lparr>cl_bytes := store_bytes (cl_bytes line) (cache_offset c phys) (unat sz) v\<rparr>]\<rparr>)"

definition fill_line :: "tiny_cache \<Rightarrow> u32 \<Rightarrow> u8 list \<Rightarrow> tiny_cache" where
  "fill_line c lbase line_data =
     (if length line_data \<noteq> line_size c then c
      else c\<lparr>cache_lines := (cache_lines c)[cache_index c lbase :=
             \<lparr>cl_valid = True, cl_tag = lbase, cl_bytes = line_data\<rparr>]\<rparr>)"

section \<open>Committed memory\<close>

text \<open>
  \<open>bytes_\<close> is a vector of fixed length: its length and its contents by index. Indices past
  \<open>mem_size\<close> are never read: every access is guarded by \<open>access_in_range\<close>.
\<close>

record committed_memory =
  mem_size :: nat
  mem_bytes :: "nat \<Rightarrow> u8"

definition new_memory :: "nat \<Rightarrow> committed_memory" where
  "new_memory size_bytes = \<lparr>mem_size = size_bytes, mem_bytes = (\<lambda>_. 0)\<rparr>"

definition default_memory_size :: nat where
  "default_memory_size = 32 * 1024 * 1024"

definition access_in_range :: "nat \<Rightarrow> u32 \<Rightarrow> nat \<Rightarrow> bool" where
  "access_in_range storage_size phys n \<longleftrightarrow> unat phys + n \<le> storage_size"

definition mem_read :: "committed_memory \<Rightarrow> u32 \<Rightarrow> u8 \<Rightarrow> u32" where
  "mem_read m phys sz =
     (if \<not> access_in_range (mem_size m) phys (unat sz) then 0
      else be_assemble (\<lambda>i. mem_bytes m (unat (phys + of_nat i))) (unat sz))"

definition mem_write :: "committed_memory \<Rightarrow> u32 \<Rightarrow> u8 \<Rightarrow> u32 \<Rightarrow> committed_memory" where
  "mem_write m phys sz v =
     (if \<not> access_in_range (mem_size m) phys (unat sz) then m
      else m\<lparr>mem_bytes := fold (\<lambda>i bs. bs(unat (phys + of_nat i) := be_byte (unat sz) v i))
               [0..<unat sz] (mem_bytes m)\<rparr>)"

definition read_block :: "committed_memory \<Rightarrow> u32 \<Rightarrow> nat \<Rightarrow> u8 list" where
  "read_block m phys n =
     (if \<not> access_in_range (mem_size m) phys n then replicate n 0
      else map (\<lambda>i. mem_bytes m (unat (phys + of_nat i))) [0..<n])"

section \<open>The interface of a byte-addressed store\<close>

text \<open>
  Contract: an access that hits is the big-endian reading of its bytes, a write changes exactly
  the bytes it covers, and a miss changes nothing. \<open>byte\<close> is the abstraction function.
\<close>

locale byte_store =
  fixes inv :: "'s \<Rightarrow> bool"
    and hit :: "'s \<Rightarrow> u32 \<Rightarrow> u8 \<Rightarrow> bool"
    and byte :: "'s \<Rightarrow> u32 \<Rightarrow> u8"
    and rd :: "'s \<Rightarrow> u32 \<Rightarrow> u8 \<Rightarrow> u32"
    and wr :: "'s \<Rightarrow> u32 \<Rightarrow> u8 \<Rightarrow> u32 \<Rightarrow> 's"
  assumes inv_wr: "inv s \<Longrightarrow> inv (wr s p n v)"
    and wr_miss: "\<not> hit s p n \<Longrightarrow> wr s p n v = s"
    and hit_wr: "inv s \<Longrightarrow> hit (wr s p n v) q k = hit s q k"
    and hit_byte: "inv s \<Longrightarrow> hit s p n \<Longrightarrow> i < unat n \<Longrightarrow> hit s (p + of_nat i) 1"
    and rd_bytes: "inv s \<Longrightarrow> hit s p n \<Longrightarrow>
      rd s p n = be_assemble (\<lambda>i. byte s (p + of_nat i)) (unat n)"
    and wr_byte: "inv s \<Longrightarrow> hit s p n \<Longrightarrow> hit s q 1 \<Longrightarrow> byte (wr s p n v) q =
      (if unat (q - p) < unat n then be_byte (unat n) v (unat (q - p)) else byte s q)"
begin

lemma wr_byte_at:
  assumes "inv s" "hit s p n" "i < unat n"
  shows "byte (wr s p n v) (p + of_nat i) = be_byte (unat n) v i"
  using assms unat_u8_less [of n]
  by (simp add: wr_byte hit_byte unat_of_nat_u32)

lemma read_own_write:
  assumes "inv s" "hit s p n" "valid_size n"
  shows "rd (wr s p n v) p n = v AND mask (8 * unat n)"
proof -
  have "rd (wr s p n v) p n = be_assemble (be_byte (unat n) v) (unat n)"
    using assms by (simp add: rd_bytes inv_wr hit_wr wr_byte_at cong: be_assemble_cong)
  then show ?thesis using assms(3) by (simp add: be_round_trip)
qed

lemma read_disjoint:
  assumes "inv s" "hit s q k" "\<And>i. i < unat k \<Longrightarrow> unat n \<le> unat (q + of_nat i - p)"
  shows "rd (wr s p n v) q k = rd s q k"
proof (cases "hit s p n")
  case True
  have "byte (wr s p n v) (q + of_nat i) = byte s (q + of_nat i)" if "i < unat k" for i
    using assms(3) [OF that] assms(1,2) True that by (simp add: wr_byte hit_byte)
  then show ?thesis
    using assms by (simp add: rd_bytes inv_wr hit_wr cong: be_assemble_cong)
qed (simp add: wr_miss)

lemma read_lane:
  assumes "inv s" "hit s p n" "i < unat n"
  shows "rd (wr s p n v) (p + of_nat i) 1 = drop_bit (8 * (unat n - 1 - i)) v AND mask 8"
proof -
  have "rd (wr s p n v) (p + of_nat i) 1 = ucast (be_byte (unat n) v i)"
    using assms by (simp add: rd_bytes inv_wr hit_wr hit_byte be_assemble_def wr_byte_at)
  also have "\<dots> = drop_bit (8 * (unat n - 1 - i)) v AND mask 8"
    unfolding be_byte_def byte_mask by (rule bit_word_eqI) (auto simp: bit_simps)
  finally show ?thesis .
qed

end

section \<open>Committed memory keeps the contract\<close>

lemma fold_fun_upd:
  assumes "\<And>i. i < n \<Longrightarrow> f i = x \<longleftrightarrow> i = k"
  shows "fold (\<lambda>i bs. bs(f i := g i)) [0..<n] bs x = (if k < n then g k else bs x)"
  using assms by (induction n) (auto simp: less_Suc_eq)

lemma fold_list_update_length [simp]:
  "length (fold (\<lambda>i bs. bs[f i := g i]) is bs) = length bs"
  by (induction "is" arbitrary: bs) auto

lemma store_bytes_nth:
  assumes "offset + k \<le> length bs" "j < length bs"
  shows "fold (\<lambda>i bs. bs[offset + i := be_byte n v i]) [0..<k] bs ! j =
    (if offset \<le> j \<and> j < offset + k then be_byte n v (j - offset) else bs ! j)"
  using assms by (induction k) (auto simp: nth_list_update)

definition mem_hit :: "committed_memory \<Rightarrow> u32 \<Rightarrow> u8 \<Rightarrow> bool" where
  "mem_hit m phys sz = access_in_range (mem_size m) phys (unat sz)"

definition mem_byte :: "committed_memory \<Rightarrow> u32 \<Rightarrow> u8" where
  "mem_byte m phys = mem_bytes m (unat phys)"

definition mem_wf :: "committed_memory \<Rightarrow> bool" where
  "mem_wf m \<longleftrightarrow> mem_size m \<le> 4294967296"

lemma mem_size_write [simp]: "mem_size (mem_write m p n v) = mem_size m"
  by (simp add: mem_write_def)

lemma mem_write_byte:
  assumes "mem_hit m p n"
  shows "mem_byte (mem_write m p n v) q =
    (if unat (q - p) < unat n then be_byte (unat n) v (unat (q - p)) else mem_byte m q)"
proof -
  have "unat (p + of_nat i) = unat q \<longleftrightarrow> i = unat (q - p)" if "i < unat n" for i
  proof -
    have "i < 256" using that unat_u8_less [of n] by simp
    then show ?thesis
      by (auto simp: unat_of_nat_u32 simp flip: word_unat_eq_iff)
  qed
  then show ?thesis
    using assms
    by (simp add: mem_byte_def mem_write_def mem_hit_def fold_fun_upd)
qed

interpretation memory: byte_store mem_wf mem_hit mem_byte mem_read mem_write
proof unfold_locales
  fix s p n i assume "mem_wf s" "mem_hit s p n" "i < unat n"
  then show "mem_hit s (p + of_nat i) 1"
    by (simp add: mem_hit_def access_in_range_def mem_wf_def unat_add_of_nat)
next
  fix s p n q v assume "mem_hit s p n"
  then show "mem_byte (mem_write s p n v) q =
      (if unat (q - p) < unat n then be_byte (unat n) v (unat (q - p)) else mem_byte s q)"
    by (rule mem_write_byte)
qed (simp_all add: mem_wf_def mem_hit_def mem_read_def mem_byte_def mem_write_def)

section \<open>The cache keeps the contract\<close>

definition cache_wf :: "tiny_cache \<Rightarrow> bool" where
  "cache_wf c \<longleftrightarrow> 0 < line_size c \<and> line_size c < 4294967296 \<and>
     4294967296 mod line_size c = 0 \<and> cache_lines c \<noteq> [] \<and>
     list_all (\<lambda>l. length (cl_bytes l) = line_size c) (cache_lines c)"

definition cache_byte :: "tiny_cache \<Rightarrow> u32 \<Rightarrow> u8" where
  "cache_byte c phys =
     cl_bytes (cache_lines c ! cache_index c (cache_line_base c phys)) ! cache_offset c phys"

definition cache_read_value :: "tiny_cache \<Rightarrow> u32 \<Rightarrow> u8 \<Rightarrow> u32" where
  "cache_read_value c phys sz = the (cache_read c phys sz)"

lemma line_size_write [simp]: "line_size (cache_write c p n v) = line_size c"
  by (simp add: cache_write_def Let_def)

lemma length_lines_write [simp]:
  "length (cache_lines (cache_write c p n v)) = length (cache_lines c)"
  by (simp add: cache_write_def Let_def)

lemma cache_geometry_write [simp]:
  "cache_line_base (cache_write c p n v) = cache_line_base c"
  "cache_offset (cache_write c p n v) = cache_offset c"
  "cache_index (cache_write c p n v) = cache_index c"
  by (simp_all add: cache_line_base_def cache_offset_def cache_index_def fun_eq_iff)

lemma cache_index_less: "cache_wf c \<Longrightarrow> cache_index c b < length (cache_lines c)"
  by (simp add: cache_wf_def cache_index_def)

lemma cache_line_length:
  "cache_wf c \<Longrightarrow> i < length (cache_lines c) \<Longrightarrow> length (cl_bytes (cache_lines c ! i)) = line_size c"
  by (simp add: cache_wf_def list_all_length)

lemma store_bytes_length [simp]: "length (store_bytes bs offset n v) = length bs"
  by (simp add: store_bytes_def)

lemma cache_wf_write:
  assumes "cache_wf c"
  shows "cache_wf (cache_write c p n v)"
proof -
  have "list_all (\<lambda>l. length (cl_bytes l) = line_size c) (cache_lines (cache_write c p n v))"
    using assms cache_line_length [OF assms]
    by (auto simp: cache_write_def Let_def cache_wf_def intro!: list_all_update)
  moreover have "cache_lines (cache_write c p n v) \<noteq> []"
    using assms by (simp add: cache_write_def cache_wf_def Let_def)
  ultimately show ?thesis
    using assms by (simp add: cache_wf_def)
qed

lemma cache_lines_write_nth:
  assumes "cache_wf c" "cache_hit c p n"
  shows "cache_lines (cache_write c p n v) ! i =
    (if i = cache_index c (cache_line_base c p)
     then (cache_lines c ! i)\<lparr>cl_bytes :=
       store_bytes (cl_bytes (cache_lines c ! i)) (cache_offset c p) (unat n) v\<rparr>
     else cache_lines c ! i)"
  using assms cache_index_less [OF assms(1)]
  by (auto simp: cache_write_def Let_def)

lemma cache_tags_write:
  assumes "cache_wf c"
  shows "cl_valid (cache_lines (cache_write c p n v) ! i) = cl_valid (cache_lines c ! i)"
    and "cl_tag (cache_lines (cache_write c p n v) ! i) = cl_tag (cache_lines c ! i)"
proof -
  have *: "cl_valid (cache_lines (cache_write c p n v) ! i) = cl_valid (cache_lines c ! i) \<and>
      cl_tag (cache_lines (cache_write c p n v) ! i) = cl_tag (cache_lines c ! i)"
  proof (cases "cache_hit c p n")
    case True
    show ?thesis unfolding cache_lines_write_nth [OF assms True] by simp
  qed (simp add: cache_write_def)
  then show "cl_valid (cache_lines (cache_write c p n v) ! i) = cl_valid (cache_lines c ! i)"
    and "cl_tag (cache_lines (cache_write c p n v) ! i) = cl_tag (cache_lines c ! i)"
    by simp_all
qed

lemma cache_hit_write: "cache_wf c \<Longrightarrow> cache_hit (cache_write c p n v) q k = cache_hit c q k"
  by (simp add: cache_hit_def Let_def cache_tags_write)

lemma cache_geometry:
  assumes "cache_wf c"
  shows "unat (cache_line_base c p) = unat p div line_size c"
    and "cache_offset c p = unat p mod line_size c"
  using assms
  by (simp_all add: cache_wf_def cache_line_base_def cache_offset_def unat_div unat_mod unat_of_nat_u32)

text \<open>An access that does not cross its line does not wrap around the address space either.\<close>

lemma line_no_wrap:
  assumes "cache_wf c" "cache_offset c p + i < line_size c"
  shows "unat (p + of_nat i) = unat p + i"
proof (rule unat_add_of_nat, rule block_no_overflow)
  show "unat p < 4294967296" by (rule unat_u32_less)
  show "4294967296 mod line_size c = 0" using assms(1) by (simp add: cache_wf_def)
  show "unat p mod line_size c + i < line_size c"
    using assms by (simp add: cache_geometry)
qed

lemma cache_walk:
  assumes "cache_wf c" "cache_offset c p + i < line_size c"
  shows "cache_line_base c (p + of_nat i) = cache_line_base c p"
    and "cache_offset c (p + of_nat i) = cache_offset c p + i"
proof -
  have b: "unat p mod line_size c + i < line_size c"
    using assms by (simp add: cache_geometry)
  show "cache_line_base c (p + of_nat i) = cache_line_base c p"
    by (rule word_unat_eq_iff [THEN iffD2])
       (simp only: cache_geometry(1) [OF assms(1)] line_no_wrap [OF assms] div_mod_no_carry(1) [OF b])
  show "cache_offset c (p + of_nat i) = cache_offset c p + i"
    by (simp only: cache_geometry(2) [OF assms(1)] line_no_wrap [OF assms] div_mod_no_carry(2) [OF b])
qed

lemma cache_index_write [simp]: "cache_index (cache_write c p n v) b = cache_index c b"
  by simp

lemma cache_hit_conv:
  "cache_hit c p n \<longleftrightarrow>
     cl_valid (cache_lines c ! cache_index c (cache_line_base c p)) \<and>
     cl_tag (cache_lines c ! cache_index c (cache_line_base c p)) = cache_line_base c p \<and>
     cache_offset c p + unat n \<le> line_size c"
  by (auto simp: cache_hit_def Let_def)

lemma cache_hit_byte:
  assumes "cache_wf c" "cache_hit c p n" "i < unat n"
  shows "cache_hit c (p + of_nat i) 1"
  using assms by (simp add: cache_hit_conv cache_walk)

lemma cache_read_bytes:
  assumes "cache_wf c" "cache_hit c p n"
  shows "cache_read_value c p n = be_assemble (\<lambda>i. cache_byte c (p + of_nat i)) (unat n)"
proof -
  have "cache_byte c (p + of_nat i) =
      cl_bytes (cache_lines c ! cache_index c (cache_line_base c p)) ! (cache_offset c p + i)"
    if "i < unat n" for i
    using assms that by (simp add: cache_byte_def cache_walk cache_hit_conv)
  then show ?thesis
    using assms(2)
    by (simp add: cache_read_value_def cache_read_def Let_def cong: be_assemble_cong)
qed

lemma cache_address_split:
  "cache_wf c \<Longrightarrow> unat q = line_size c * unat (cache_line_base c q) + cache_offset c q"
  by (simp only: cache_geometry mult_div_mod_eq)

lemma cache_address_inj:
  assumes "cache_wf c" "cache_line_base c q = cache_line_base c p" "cache_offset c q = cache_offset c p"
  shows "q = p"
  by (rule word_unat_eq_iff [THEN iffD2])
     (simp only: cache_address_split [OF assms(1), of q] cache_address_split [OF assms(1), of p] assms(2,3))

text \<open>Two addresses of one line differ by the difference of their offsets.\<close>

lemma same_line_distance:
  assumes "cache_wf c" "cache_line_base c q = cache_line_base c p" "cache_offset c q < line_size c"
    and "cache_offset c p \<le> cache_offset c q"
  shows "unat (q - p) = cache_offset c q - cache_offset c p"
proof -
  define d where "d = cache_offset c q - cache_offset c p"
  have o: "cache_offset c q = cache_offset c p + d" using assms(4) by (simp add: d_def)
  then have b: "cache_offset c p + d < line_size c" using assms(3) by simp
  have "q = p + of_nat d"
    by (rule cache_address_inj [OF assms(1)]) (simp_all only: cache_walk [OF assms(1) b] assms(2) o)
  moreover have "d < 4294967296"
    using assms(1) b by (simp add: cache_wf_def)
  ultimately have "unat (q - p) = d"
    by (simp add: unat_of_nat_u32)
  then show ?thesis by (simp only: d_def)
qed

lemma near_same_line:
  assumes "cache_wf c" "cache_offset c p + n \<le> line_size c" "unat (q - p) < n"
  shows "cache_line_base c q = cache_line_base c p"
    and "cache_offset c q = cache_offset c p + unat (q - p)"
  using cache_walk [OF assms(1), of p "unat (q - p)"] assms(2,3) by simp_all

lemma cache_write_byte:
  assumes "cache_wf c" "cache_hit c p n" "cache_hit c q 1"
  shows "cache_byte (cache_write c p n v) q =
    (if unat (q - p) < unat n then be_byte (unat n) v (unat (q - p)) else cache_byte c q)"
proof (cases "cache_index c (cache_line_base c q) = cache_index c (cache_line_base c p)")
  case True
  let ?l = "cache_lines c ! cache_index c (cache_line_base c p)"
  have lb: "cache_line_base c q = cache_line_base c p"
    using assms(2,3) True by (simp add: cache_hit_conv)
  have len: "length (cl_bytes ?l) = line_size c"
    using assms(1) by (simp add: cache_line_length cache_index_less)
  have b: "cache_offset c p + unat n \<le> line_size c" "cache_offset c q < line_size c"
    using assms by (simp_all add: cache_hit_conv)
  have "cache_byte (cache_write c p n v) q =
      store_bytes (cl_bytes ?l) (cache_offset c p) (unat n) v ! cache_offset c q"
    using assms(1,2) by (simp add: cache_byte_def cache_lines_write_nth lb)
  also have "\<dots> = (if cache_offset c p \<le> cache_offset c q \<and> cache_offset c q < cache_offset c p + unat n
      then be_byte (unat n) v (cache_offset c q - cache_offset c p) else cl_bytes ?l ! cache_offset c q)"
    unfolding store_bytes_def by (rule store_bytes_nth) (simp_all add: b len)
  also have "\<dots> = (if unat (q - p) < unat n then be_byte (unat n) v (unat (q - p)) else cache_byte c q)"
  proof (cases "unat (q - p) < unat n")
    case True
    then show ?thesis using near_same_line(2) [OF assms(1) b(1) True] by simp
  next
    case False
    then have "\<not> (cache_offset c p \<le> cache_offset c q \<and> cache_offset c q < cache_offset c p + unat n)"
      using same_line_distance [OF assms(1) lb b(2)] by auto
    with False show ?thesis by (simp only: if_False cache_byte_def lb)
  qed
  finally show ?thesis .
next
  case False
  have "\<not> unat (q - p) < unat n"
  proof
    assume "unat (q - p) < unat n"
    then have "cache_line_base c q = cache_line_base c p"
      using assms(2) by (intro near_same_line(1) [OF assms(1)]) (simp_all add: cache_hit_conv)
    with False show False by simp
  qed
  moreover have "cache_byte (cache_write c p n v) q = cache_byte c q"
    unfolding cache_byte_def cache_geometry_write cache_lines_write_nth [OF assms(1,2)]
    by (simp only: False if_False)
  ultimately show ?thesis by (simp only: if_False)
qed

interpretation cache: byte_store cache_wf cache_hit cache_byte cache_read_value cache_write
  by unfold_locales
     (auto simp: cache_wf_write cache_hit_write cache_hit_byte cache_read_bytes cache_write_byte,
      simp add: cache_write_def)

section \<open>Fills and coherence\<close>

lemma cache_wf_new:
  "0 < l \<Longrightarrow> l < 4294967296 \<Longrightarrow> 4294967296 mod l = 0 \<Longrightarrow> 0 < k \<Longrightarrow> cache_wf (new_cache l k)"
  by (simp add: cache_wf_def new_cache_def list_all_length)

lemma line_size_fill [simp]: "line_size (fill_line c b d) = line_size c"
  by (simp add: fill_line_def)

lemma cache_wf_fill: "cache_wf c \<Longrightarrow> cache_wf (fill_line c b d)"
  by (auto simp: cache_wf_def fill_line_def intro!: list_all_update)

lemma cache_geometry_fill [simp]:
  "cache_line_base (fill_line c b d) = cache_line_base c"
  "cache_offset (fill_line c b d) = cache_offset c"
  "cache_index (fill_line c b d) = cache_index c"
  by (simp_all add: cache_line_base_def cache_offset_def cache_index_def fill_line_def fun_eq_iff)

lemma fill_line_nth:
  assumes "cache_wf c" "length d = line_size c"
  shows "cache_lines (fill_line c b d) ! cache_index c b = \<lparr>cl_valid = True, cl_tag = b, cl_bytes = d\<rparr>"
  using assms by (simp add: fill_line_def cache_index_less)

lemma cache_hit_fill:
  assumes "cache_wf c" "length d = line_size c"
  shows "cache_hit (fill_line c (cache_line_base c p) d) p n \<longleftrightarrow>
    cache_offset c p + unat n \<le> line_size c"
  by (simp add: cache_hit_conv fill_line_nth [OF assms])

lemma length_read_block [simp]: "length (read_block m p n) = n"
  by (simp add: read_block_def)

lemma line_start:
  assumes "cache_wf c"
  shows "unat (cache_line_base c p * of_nat (line_size c)) = unat p - cache_offset c p"
    and "p = cache_line_base c p * of_nat (line_size c) + of_nat (cache_offset c p)"
proof -
  have l: "unat (of_nat (line_size c) :: u32) = line_size c"
    using assms by (simp add: cache_wf_def unat_of_nat_u32)
  have s: "unat p = line_size c * unat (cache_line_base c p) + cache_offset c p"
    using assms by (rule cache_address_split)
  then have "unat (cache_line_base c p) * line_size c < 4294967296"
    using unat_u32_less [of p] by (simp add: mult.commute)
  then have m: "unat (cache_line_base c p * of_nat (line_size c)) = unat (cache_line_base c p) * line_size c"
    by (simp add: unat_word_ariths l)
  then show "unat (cache_line_base c p * of_nat (line_size c)) = unat p - cache_offset c p"
    using s by (simp add: mult.commute)
  show "p = cache_line_base c p * of_nat (line_size c) + of_nat (cache_offset c p)"
    using unat_u32_less [of p] s m
    by (intro word_unat_eq_iff [THEN iffD2]) (simp add: unat_add_of_nat mult.commute)
qed

text \<open>
  A line filled from committed memory reads like committed memory, until one of them is written.
\<close>

lemma cache_fill_coherent:
  assumes "cache_wf c"
    and "access_in_range (mem_size m) (cache_line_base c p * of_nat (line_size c)) (line_size c)"
    and "cache_offset c p + unat n \<le> line_size c"
  shows "cache_read (fill_line c (cache_line_base c p)
      (read_block m (cache_line_base c p * of_nat (line_size c)) (line_size c))) p n = Some (mem_read m p n)"
proof -
  let ?s = "cache_line_base c p * of_nat (line_size c)"
  let ?d = "read_block m ?s (line_size c)"
  have "cache_offset c p \<le> unat p"
    using cache_address_split [OF assms(1), of p] by simp
  then have r: "access_in_range (mem_size m) p (unat n)"
    using assms(2,3) by (simp add: access_in_range_def line_start(1) [OF assms(1)])
  have "?d ! (cache_offset c p + i) = mem_bytes m (unat (p + of_nat i))" if "i < unat n" for i
  proof -
    have "?s + of_nat (cache_offset c p + i) = p + of_nat i"
      using line_start(2) [OF assms(1), of p] by (simp add: add.assoc [symmetric])
    moreover have "?d ! (cache_offset c p + i) = mem_bytes m (unat (?s + of_nat (cache_offset c p + i)))"
      using assms(2,3) that by (simp add: read_block_def)
    ultimately show ?thesis by (simp only:)
  qed
  then show ?thesis
    using r assms(3)
    by (simp add: cache_read_def cache_hit_fill [OF assms(1)] fill_line_nth [OF assms(1)] Let_def
          mem_read_def cong: be_assemble_cong)
qed

section \<open>Store buffer\<close>

lemma sb_forward_empty [simp]: "sb_forward empty_store_buffer p n = None"
  by (simp add: sb_forward_def empty_store_buffer_def)

lemma sb_forward_push:
  "sb_forward (sb_push b e) p n =
     (if se_phys e = p \<and> se_size e = n then Some (se_value e) else sb_forward b p n)"
  by (simp add: sb_forward_def sb_push_def)

lemma find_None_append: "find P (xs @ ys) = (case find P xs of None \<Rightarrow> find P ys | Some x \<Rightarrow> Some x)"
  by (induction xs) auto

lemma erase_first_absent: "sid \<notin> store_id ` set es \<Longrightarrow> erase_first sid es = es"
  by (induction es) auto

lemma erase_first_last: "store_id e \<notin> store_id ` set es \<Longrightarrow> erase_first (store_id e) (es @ [e]) = es"
  by (induction es) auto

lemma length_erase_first:
  "length (erase_first sid es) = length es - (if sid \<in> store_id ` set es then 1 else 0)"
  by (induction es) (auto simp: Suc_diff_Suc dest: length_pos_if_in_set)

lemma sb_retire_push:
  assumes "store_id e \<notin> store_id ` set (entries b)"
  shows "sb_retire (sb_push b e) (store_id e) = (True, b)"
  using assms by (auto simp: sb_retire_def sb_push_def find_None_iff erase_first_last)

section \<open>Properties\<close>

text \<open>
  (C31) Committed memory is a big-endian byte store. After an in-range write of a legal size, the
  same access reads back the written value cut to its width; every byte of the written
  range reads as its own big-endian lane; and every access whose bytes lie outside the written
  range reads what it read before.
\<close>

theorem committed_memory_read_write:
  assumes "mem_size m \<le> 4294967296" "access_in_range (mem_size m) p (unat n)" "valid_size n"
  shows "mem_read (mem_write m p n v) p n = v AND mask (8 * unat n) \<and>
    (\<forall>i < unat n. mem_read (mem_write m p n v) (p + of_nat i) 1 =
       drop_bit (8 * (unat n - 1 - i)) v AND mask 8) \<and>
    (\<forall>q k. access_in_range (mem_size m) q (unat k) \<and>
       (\<forall>j < unat k. unat n \<le> unat (q + of_nat j - p)) \<longrightarrow>
       mem_read (mem_write m p n v) q k = mem_read m q k)"
proof (intro conjI allI impI)
  have a: "mem_wf m" "mem_hit m p n" using assms by (simp_all add: mem_wf_def mem_hit_def)
  show "mem_read (mem_write m p n v) p n = v AND mask (8 * unat n)"
    using a assms(3) by (rule memory.read_own_write)
  show "mem_read (mem_write m p n v) (p + of_nat i) 1 = drop_bit (8 * (unat n - 1 - i)) v AND mask 8"
    if "i < unat n" for i using a that by (rule memory.read_lane)
  show "mem_read (mem_write m p n v) q k = mem_read m q k"
    if "access_in_range (mem_size m) q (unat k) \<and> (\<forall>j < unat k. unat n \<le> unat (q + of_nat j - p))"
    for q k using a(1) that by (intro memory.read_disjoint) (auto simp: mem_hit_def)
qed

lemma committed_memory_read_write_witness:
  "mem_read (mem_write (new_memory 64) 4 4 0x11223344) 4 4 = 0x11223344 \<and>
   mem_read (mem_write (new_memory 64) 4 4 0x11223344) 5 1 = 0x22"
proof -
  have h: "mem_size (new_memory 64) \<le> 4294967296" "access_in_range (mem_size (new_memory 64)) 4 (unat (4 :: u8))"
    "valid_size 4"
    by (simp_all add: new_memory_def access_in_range_def valid_size_def)
  note t = committed_memory_read_write [OF h, of "0x11223344"]
  have "mem_read (mem_write (new_memory 64) 4 4 0x11223344) (4 + of_nat 1) 1 =
      drop_bit (8 * (unat (4 :: u8) - 1 - 1)) 0x11223344 AND mask 8"
    using t [THEN conjunct2, THEN conjunct1, rule_format, of 1] by simp
  then show ?thesis using t by (simp add: mask_eq_exp_minus_1)
qed

text \<open>
  An access that leaves the storage is inert: it writes nothing and reads 0, and a block
  read of it is all zeros. The range check also rejects a range whose end wraps.
\<close>

theorem committed_memory_out_of_range:
  assumes "\<not> access_in_range (mem_size m) p (unat n)"
  shows "mem_write m p n v = m \<and> mem_read m p n = 0 \<and> read_block m p (unat n) = replicate (unat n) 0"
  using assms by (simp add: mem_write_def mem_read_def read_block_def)

lemma committed_memory_out_of_range_witness:
  "mem_write (new_memory 64) 62 4 7 = new_memory 64 \<and> mem_read (new_memory 64) 62 4 = 0"
  using committed_memory_out_of_range [of "new_memory 64" 62 4 7]
  by (simp add: new_memory_def access_in_range_def)

text \<open>
  (C30) Coherence of a fill: a cache line filled with the block the arbiter reads for it
  serves exactly the values committed memory holds, for every access inside the line.
\<close>

theorem cache_fill_serves_memory:
  assumes "cache_wf c"
    and "access_in_range (mem_size m) (cache_line_base c p * of_nat (line_size c)) (line_size c)"
    and "cache_offset c p + unat n \<le> line_size c"
  shows "cache_read (fill_line c (cache_line_base c p)
      (read_block m (cache_line_base c p * of_nat (line_size c)) (line_size c))) p n = Some (mem_read m p n)"
  using assms by (rule cache_fill_coherent)

lemma cache_fill_serves_memory_witness:
  "cache_read (fill_line (new_cache 16 4) 1 (read_block (mem_write (new_memory 64) 20 4 0xAABBCCDD) 16 16)) 22 2
     = Some (mem_read (mem_write (new_memory 64) 20 4 0xAABBCCDD) 22 2)"
proof -
  have "cache_wf (new_cache 16 4)" by (rule cache_wf_new) simp_all
  from cache_fill_serves_memory [OF this, of "mem_write (new_memory 64) 20 4 0xAABBCCDD" 22 2]
  show ?thesis
    by (simp add: cache_line_base_def cache_offset_def access_in_range_def new_cache_def new_memory_def)
qed

text \<open>
  The cache is a big-endian store too: after a write that hits, the same access hits and
  returns the written value cut to its width; an access to other bytes that hit before still
  hits and returns its old value; a write that misses allocates nothing.
\<close>

theorem cache_write_read:
  assumes "cache_wf c" "cache_hit c p n" "valid_size n"
  shows "cache_read (cache_write c p n v) p n = Some (v AND mask (8 * unat n)) \<and>
    (\<forall>q k. cache_hit c q k \<and> (\<forall>j < unat k. unat n \<le> unat (q + of_nat j - p)) \<longrightarrow>
       cache_read (cache_write c p n v) q k = cache_read c q k) \<and>
    (\<forall>q k. \<not> cache_hit c q k \<longrightarrow> cache_write c q k v = c \<and> cache_read c q k = None)"
proof (intro conjI allI impI)
  have e: "cache_read c' q k = Some (cache_read_value c' q k)" if "cache_hit c' q k" for c' q k
    using that by (simp add: cache_read_value_def cache_read_def Let_def)
  show "cache_read (cache_write c p n v) p n = Some (v AND mask (8 * unat n))"
    using assms by (simp add: e cache_hit_write cache.read_own_write)
  show "cache_read (cache_write c p n v) q k = cache_read c q k"
    if "cache_hit c q k \<and> (\<forall>j < unat k. unat n \<le> unat (q + of_nat j - p))" for q k
    using assms that by (simp add: e cache_hit_write cache.read_disjoint)
qed (simp_all add: cache_write_def cache_read_def)

lemma cache_write_read_witness:
  "cache_read (cache_write (fill_line (new_cache 16 4) 1 (replicate 16 0)) 22 2 0xABCD) 22 2 = Some 0xABCD"
proof -
  have w: "cache_wf (fill_line (new_cache 16 4) 1 (replicate 16 0))"
    by (rule cache_wf_fill, rule cache_wf_new) simp_all
  have h: "cache_hit (fill_line (new_cache 16 4) 1 (replicate 16 0)) 22 2"
    by (simp add: cache_hit_conv cache_line_base_def cache_index_def cache_offset_def fill_line_def new_cache_def)
  from cache_write_read [OF w h, of "0xABCD"] show ?thesis
    by (simp add: valid_size_def mask_eq_exp_minus_1)
qed

text \<open>
  Store-to-load forwarding returns the value of the youngest buffered store to exactly that
  address and size, and retiring a freshly pushed store by its own identifier restores the
  buffer: a store leaves no trace once its commit has come back.
\<close>

theorem store_buffer_forward_retire:
  assumes "store_id e \<notin> store_id ` set (entries b)"
  shows "sb_forward (sb_push b e) (se_phys e) (se_size e) = Some (se_value e) \<and>
    (\<forall>p n. (p, n) \<noteq> (se_phys e, se_size e) \<longrightarrow> sb_forward (sb_push b e) p n = sb_forward b p n) \<and>
    sb_retire (sb_push b e) (store_id e) = (True, b)"
  using assms by (auto simp: sb_forward_push sb_retire_push)

lemma store_buffer_forward_retire_witness:
  "sb_forward (sb_push empty_store_buffer \<lparr>store_id = 1, se_phys = 8, se_size = 4, se_value = 9\<rparr>) 8 4 = Some 9"
  using store_buffer_forward_retire
    [of "\<lparr>store_id = 1, se_phys = 8, se_size = 4, se_value = 9\<rparr>" empty_store_buffer]
  by (simp add: empty_store_buffer_def)

end
