(* ===== verification/Devices.thy ===== *)
theory Devices
  imports Memory
begin

text \<open>
  \<open>src/src/dev/devices.hpp\<close> and \<open>devices.cpp\<close>: the MMIO register file behind the arbiter.
  The hub is one record; \<open>device_read\<close> and \<open>device_write\<close> are \<open>DeviceHub::read\<close> and
  \<open>DeviceHub::write\<close>. Plain registers are an interpretation of \<open>byte_store\<close>; the SCU, SMPC and
  VDP1 registers get their own functional facts and one invariant of the whole hub.
\<close>

section \<open>Registers\<close>

abbreviation kDisplayStatusAddr :: u32 where "kDisplayStatusAddr \<equiv> 0x05F00010"
abbreviation kScuImsAddr :: u32 where "kScuImsAddr \<equiv> 0x05FE00A0"
abbreviation kScuIstAddr :: u32 where "kScuIstAddr \<equiv> 0x05FE00A4"
abbreviation kScuIstClearAddr :: u32 where "kScuIstClearAddr \<equiv> 0x05FE00A8"
abbreviation kScuIstSourceSetAddr :: u32 where "kScuIstSourceSetAddr \<equiv> 0x05FE00AC"
abbreviation kScuIstSourceClearAddr :: u32 where "kScuIstSourceClearAddr \<equiv> 0x05FE00B0"
abbreviation kScuDma0SrcAddr :: u32 where "kScuDma0SrcAddr \<equiv> 0x05FE0020"
abbreviation kScuDma0SizeAddr :: u32 where "kScuDma0SizeAddr \<equiv> 0x05FE0028"
abbreviation kScuDma0CtrlAddr :: u32 where "kScuDma0CtrlAddr \<equiv> 0x05FE002C"
abbreviation kSmpcStatusAddr :: u32 where "kSmpcStatusAddr \<equiv> 0x05D00080"
abbreviation kSmpcCommandAddr :: u32 where "kSmpcCommandAddr \<equiv> 0x05D00084"
abbreviation kSmpcCommandResultAddr :: u32 where "kSmpcCommandResultAddr \<equiv> 0x05D00088"
abbreviation kVdp2TvmdAddr :: u32 where "kVdp2TvmdAddr \<equiv> 0x05F80000"
abbreviation kVdp2TvstatAddr :: u32 where "kVdp2TvstatAddr \<equiv> 0x05F80004"
abbreviation kScspMcierAddr :: u32 where "kScspMcierAddr \<equiv> 0x05C00000"
abbreviation kVdp1ScuIrqBridgeAddr :: u32 where "kVdp1ScuIrqBridgeAddr \<equiv> 0x05D0008C"
abbreviation kVdp1EventTriggerAddr :: u32 where "kVdp1EventTriggerAddr \<equiv> 0x05D00090"
abbreviation kVdp1EventStatusAddr :: u32 where "kVdp1EventStatusAddr \<equiv> 0x05D00094"
abbreviation kVdp1CommandAddr :: u32 where "kVdp1CommandAddr \<equiv> 0x05D00098"
abbreviation kVdp1CommandStatusAddr :: u32 where "kVdp1CommandStatusAddr \<equiv> 0x05D0009C"
abbreviation kVdp1CommandCompleteAddr :: u32 where "kVdp1CommandCompleteAddr \<equiv> 0x05D000A0"
abbreviation kVdp1ScuIrqMask :: u32 where "kVdp1ScuIrqMask \<equiv> 0x20"

record mmio_register_spec =
  reset_value :: u32
  writable_mask :: u32

abbreviation reg_spec :: "u32 \<Rightarrow> u32 \<Rightarrow> mmio_register_spec option" where
  "reg_spec r m \<equiv> Some \<lparr>reset_value = r, writable_mask = m\<rparr>"

definition register_spec :: "u32 \<Rightarrow> mmio_register_spec option" where
  "register_spec word_addr =
    (if word_addr = kDisplayStatusAddr then reg_spec 0x1 0x00000000
     else if word_addr = kScuImsAddr then reg_spec 0x0 0x0000FFFF
     else if word_addr = kScuIstAddr then reg_spec 0x0 0x00000000
     else if word_addr = kScuIstClearAddr then reg_spec 0x0 0x0000FFFF
     else if word_addr = kScuIstSourceSetAddr then reg_spec 0x0 0x0000FFFF
     else if word_addr = kScuIstSourceClearAddr then reg_spec 0x0 0x0000FFFF
     else if word_addr = kScuDma0SrcAddr then reg_spec 0x00000000 0xFFFFFFFF
     else if word_addr = kScuDma0SizeAddr then reg_spec 0x00000000 0x000FFFFF
     else if word_addr = kScuDma0CtrlAddr then reg_spec 0x00000000 0x00000017
     else if word_addr = kSmpcStatusAddr then reg_spec 0x1 0x00000000
     else if word_addr = kSmpcCommandAddr then reg_spec 0x0 0x000000FF
     else if word_addr = kSmpcCommandResultAddr then reg_spec 0x0 0x00000000
     else if word_addr = kVdp2TvmdAddr then reg_spec 0x00000000 0x0000FFFF
     else if word_addr = kVdp2TvstatAddr then reg_spec 0x00000008 0x00000000
     else if word_addr = kScspMcierAddr then reg_spec 0x00000000 0x000007FF
     else if word_addr = kVdp1ScuIrqBridgeAddr then reg_spec 0x00000000 0x00000001
     else if word_addr = kVdp1EventTriggerAddr then reg_spec 0x00000000 0x00000001
     else if word_addr = kVdp1EventStatusAddr then reg_spec 0x00000000 0x00000000
     else if word_addr = kVdp1CommandAddr then reg_spec 0x00000000 0x000000FF
     else if word_addr = kVdp1CommandStatusAddr then reg_spec 0x00000000 0x00000000
     else if word_addr = kVdp1CommandCompleteAddr then reg_spec 0x00000000 0x00000001
     else None)"

definition lane_shift :: "u32 \<Rightarrow> u8 \<Rightarrow> nat" where
  "lane_shift addr sz =
    (if sz = 1 then unat ((3 - (addr AND 0x3)) * 8)
     else if sz = 2 then unat ((2 - (addr AND 0x2)) * 8)
     else 0)"

definition size_mask :: "u8 \<Rightarrow> u32" where
  "size_mask sz = (if sz = 1 then 0xFF else if sz = 2 then 0xFFFF else 0xFFFFFFFF)"

definition materialize_register_value :: "mmio_register_spec option \<Rightarrow> u32 \<Rightarrow> u32" where
  "materialize_register_value spec persisted =
    (case spec of None \<Rightarrow> persisted
     | Some reg \<Rightarrow> (reset_value reg AND NOT (writable_mask reg)) OR (persisted AND writable_mask reg))"

definition read_persisted_or_zero :: "(u32 \<rightharpoonup> u32) \<Rightarrow> u32 \<Rightarrow> u32" where
  "read_persisted_or_zero regs word_addr = (case regs word_addr of None \<Rightarrow> 0 | Some v \<Rightarrow> v)"

section \<open>The hub\<close>

record mmio_write_log =
  wl_t :: u64
  wl_cpu :: int
  wl_addr :: u32
  wl_value :: u32

record device_hub =
  writes :: "mmio_write_log list"
  mmio_regs :: "u32 \<rightharpoonup> u32"
  scu_interrupt_pending :: u32
  scu_interrupt_source_pending :: u32
  smpc_last_command :: u32
  smpc_command_result :: u32
  vdp1_irq_level :: u32
  vdp1_event_counter :: u32
  vdp1_last_command :: u32
  vdp1_completed_counter :: u32
  vdp1_command_pending :: bool

definition new_device_hub :: device_hub where
  "new_device_hub = \<lparr>writes = [], mmio_regs = Map.empty, scu_interrupt_pending = 0,
     scu_interrupt_source_pending = 0, smpc_last_command = 0, smpc_command_result = 0,
     vdp1_irq_level = 0, vdp1_event_counter = 0, vdp1_last_command = 0,
     vdp1_completed_counter = 0, vdp1_command_pending = False\<rparr>"

text \<open>The 32-bit value behind a word address, before the lane is cut out.\<close>

definition register_value :: "device_hub \<Rightarrow> u32 \<Rightarrow> u32" where
  "register_value h word_addr =
    (if word_addr = kScuIstAddr then
       (let ims = materialize_register_value (register_spec kScuImsAddr)
                    (read_persisted_or_zero (mmio_regs h) kScuImsAddr)
        in (scu_interrupt_pending h OR scu_interrupt_source_pending h) AND NOT ims)
     else if word_addr = kScuIstSourceSetAddr then scu_interrupt_source_pending h AND 0x0000FFFF
     else if word_addr = kSmpcCommandAddr then smpc_last_command h AND 0xFF
     else if word_addr = kSmpcCommandResultAddr then smpc_command_result h
     else if word_addr = kVdp1ScuIrqBridgeAddr then vdp1_irq_level h AND 0x1
     else if word_addr = kVdp1EventStatusAddr then
       (vdp1_event_counter h AND 0xFF) OR push_bit 8 (vdp1_irq_level h AND 0x1)
     else if word_addr = kVdp1CommandAddr then vdp1_last_command h AND 0xFF
     else if word_addr = kVdp1CommandStatusAddr then
       (let busy = (if vdp1_command_pending h then 1 else 0);
            completed = push_bit 8 (vdp1_completed_counter h AND 0xFF)
        in (busy OR completed) OR push_bit 16 (vdp1_last_command h AND 0xFF))
     else materialize_register_value (register_spec word_addr)
            (read_persisted_or_zero (mmio_regs h) word_addr))"

definition device_read :: "device_hub \<Rightarrow> u64 \<Rightarrow> int \<Rightarrow> u32 \<Rightarrow> u8 \<Rightarrow> u32" where
  "device_read h t cpu addr sz =
    (let word_addr = addr AND NOT 0x3
     in drop_bit (lane_shift addr sz) (register_value h word_addr) AND size_mask sz)"

definition signal_vdp1_completion :: "device_hub \<Rightarrow> device_hub" where
  "signal_vdp1_completion h =
     h\<lparr>vdp1_event_counter := vdp1_event_counter h + 1,
       vdp1_completed_counter := vdp1_completed_counter h + 1,
       vdp1_irq_level := 1,
       scu_interrupt_source_pending := scu_interrupt_source_pending h OR kVdp1ScuIrqMask,
       vdp1_command_pending := False\<rparr>"

text \<open>Everything \<open>write\<close> does after the log entry, on the bits shifted to their lane.\<close>

definition register_write :: "device_hub \<Rightarrow> u32 \<Rightarrow> u32 \<Rightarrow> u32 \<Rightarrow> device_hub" where
  "register_write h word_addr lane_mask write_bits =
    (if word_addr = kScuIstAddr then
       h\<lparr>scu_interrupt_pending := scu_interrupt_pending h OR (write_bits AND 0x0000FFFF)\<rparr>
     else if word_addr = kScuIstClearAddr then
       (let masked_bits = write_bits AND 0x0000FFFF
        in h\<lparr>scu_interrupt_pending := scu_interrupt_pending h AND NOT masked_bits,
             scu_interrupt_source_pending := scu_interrupt_source_pending h AND NOT masked_bits\<rparr>)
     else if word_addr = kScuIstSourceSetAddr then
       h\<lparr>scu_interrupt_source_pending := scu_interrupt_source_pending h OR (write_bits AND 0x0000FFFF)\<rparr>
     else if word_addr = kScuIstSourceClearAddr then
       h\<lparr>scu_interrupt_source_pending := scu_interrupt_source_pending h AND NOT (write_bits AND 0x0000FFFF)\<rparr>
     else if word_addr = kSmpcCommandAddr then
       (let command_byte = write_bits AND 0x000000FF
        in h\<lparr>smpc_last_command := command_byte, smpc_command_result := 0xA5000000 OR command_byte\<rparr>)
     else if word_addr = kVdp1ScuIrqBridgeAddr then
       (let level = write_bits AND 0x1; h1 = h\<lparr>vdp1_irq_level := level\<rparr>
        in if level AND 0x1 \<noteq> 0
           then h1\<lparr>scu_interrupt_source_pending := scu_interrupt_source_pending h OR kVdp1ScuIrqMask\<rparr>
           else h1\<lparr>scu_interrupt_source_pending := scu_interrupt_source_pending h AND NOT kVdp1ScuIrqMask\<rparr>)
     else if word_addr = kVdp1CommandAddr then
       (let command = write_bits AND 0xFF
        in h\<lparr>vdp1_last_command := command, vdp1_command_pending := (command \<noteq> 0)\<rparr>)
     else if word_addr = kVdp1EventTriggerAddr then
       (if write_bits AND 0x1 \<noteq> 0 then signal_vdp1_completion h else h)
     else if word_addr = kVdp1CommandCompleteAddr then
       (if write_bits AND 0x1 \<noteq> 0 \<and> vdp1_command_pending h then signal_vdp1_completion h else h)
     else
       (let persisted = read_persisted_or_zero (mmio_regs h) word_addr;
            wmask = (case register_spec word_addr of None \<Rightarrow> 0xFFFFFFFF | Some s \<Rightarrow> writable_mask s);
            masked_write = lane_mask AND wmask
        in if masked_write = 0 then h
           else h\<lparr>mmio_regs := (mmio_regs h)(word_addr \<mapsto>
                  (persisted AND NOT masked_write) OR (write_bits AND masked_write))\<rparr>))"

definition device_write :: "device_hub \<Rightarrow> u64 \<Rightarrow> int \<Rightarrow> u32 \<Rightarrow> u8 \<Rightarrow> u32 \<Rightarrow> device_hub" where
  "device_write h t cpu addr sz v =
    (let h1 = h\<lparr>writes := writes h @ [\<lparr>wl_t = t, wl_cpu = cpu, wl_addr = addr, wl_value = v\<rparr>]\<rparr>;
         word_addr = addr AND NOT 0x3;
         shift = lane_shift addr sz;
         lane_mask = push_bit shift (size_mask sz);
         write_bits = push_bit shift v AND lane_mask
     in register_write h1 word_addr lane_mask write_bits)"

section \<open>Plain registers are a big-endian byte store\<close>

text \<open>A word address whose bits are all plain storage: unlisted, or listed with a full mask.\<close>

definition plain_register :: "u32 \<Rightarrow> bool" where
  "plain_register w \<longleftrightarrow> register_spec w = None \<or> w = kScuDma0SrcAddr"

definition mmio_hit :: "device_hub \<Rightarrow> u32 \<Rightarrow> u8 \<Rightarrow> bool" where
  "mmio_hit h addr sz \<longleftrightarrow> valid_size sz \<and> addr mod ucast sz = 0 \<and> plain_register (addr AND NOT 0x3)"

lemma plain_not_special:
  assumes "plain_register w"
  shows "w \<noteq> kScuIstAddr" "w \<noteq> kScuIstClearAddr" "w \<noteq> kScuIstSourceSetAddr"
    "w \<noteq> kScuIstSourceClearAddr" "w \<noteq> kSmpcCommandAddr" "w \<noteq> kSmpcCommandResultAddr"
    "w \<noteq> kVdp1ScuIrqBridgeAddr" "w \<noteq> kVdp1EventStatusAddr" "w \<noteq> kVdp1CommandAddr"
    "w \<noteq> kVdp1EventTriggerAddr" "w \<noteq> kVdp1CommandCompleteAddr" "w \<noteq> kVdp1CommandStatusAddr"
  using assms by (auto simp: plain_register_def register_spec_def)

lemma plain_spec:
  "plain_register w \<Longrightarrow> register_spec w = None \<or> register_spec w = reg_spec 0 0xFFFFFFFF"
  by (auto simp: plain_register_def register_spec_def)

lemma plain_value:
  "plain_register w \<Longrightarrow> register_value h w = read_persisted_or_zero (mmio_regs h) w"
  using plain_spec [of w] by (auto simp: register_value_def plain_not_special materialize_register_value_def)

lemma plain_write:
  "plain_register w \<Longrightarrow> mask_l \<noteq> 0 \<Longrightarrow> register_write h w mask_l bits =
     h\<lparr>mmio_regs := (mmio_regs h)(w \<mapsto>
       (read_persisted_or_zero (mmio_regs h) w AND NOT mask_l) OR (bits AND mask_l))\<rparr>"
  using plain_spec [of w] by (auto simp: register_write_def plain_not_special Let_def)

lemma lane_inside:
  fixes v old :: u32
  assumes "s \<le> k" "k + 8 \<le> s + m" "k + 8 \<le> 32"
  shows "drop_bit k ((old AND NOT (push_bit s (mask m))) OR (push_bit s v AND push_bit s (mask m))) AND mask 8
    = drop_bit (k - s) v AND mask 8"
  using assms by (intro bit_word_eqI) (auto simp: bit_simps)

lemma lane_outside:
  fixes v old :: u32
  assumes "k + 8 \<le> s \<or> s + m \<le> k" "k + 8 \<le> 32"
  shows "drop_bit k ((old AND NOT (push_bit s (mask m))) OR (push_bit s v AND push_bit s (mask m))) AND mask 8
    = drop_bit k old AND mask 8"
  using assms by (intro bit_word_eqI) (auto simp: bit_simps)

text \<open>The byte lanes of a register word, most significant first.\<close>

definition lane_byte :: "u32 \<Rightarrow> nat \<Rightarrow> u8" where
  "lane_byte v c = ucast (drop_bit (8 * (3 - c)) v AND mask 8)"

definition mmio_byte :: "device_hub \<Rightarrow> u32 \<Rightarrow> u8" where
  "mmio_byte h addr = lane_byte (register_value h (addr AND NOT 3)) (unat (addr AND 3))"

lemma size_mask_conv: "valid_size n \<Longrightarrow> size_mask n = mask (8 * unat n)"
  by (auto simp: valid_size_def size_mask_def mask_eq_exp_minus_1)

lemma aligned_cases:
  fixes p :: u32
  assumes "valid_size n" "p mod ucast n = 0"
  obtains w c where "w AND 3 = 0" "p = w + of_nat c" "c + unat n \<le> 4" "lane_shift p n = 8 * (4 - c - unat n)"
proof -
  note out = that
  let ?w = "p AND NOT 3"
  have w: "?w AND 3 = 0" by (simp add: and.assoc)
  have "?w AND (p AND 3) = 0" by (simp add: and.assoc and.left_commute)
  then have sp: "p = ?w + (p AND 3)"
    using word_lane_split [of p] by (simp only: disjunctive_add_eq_or)
  have m: "p mod 2 = p AND 1" "p mod 4 = p AND 3"
    using take_bit_eq_mod [of 1 p] take_bit_eq_mod [of 2 p] by (simp_all add: take_bit_eq_mask mask_eq_exp_minus_1)
  have h: "p AND 1 = (p AND 3) AND 1" "p AND 2 = (p AND 3) AND 2" by (simp_all add: and.assoc)
  have goal: thesis if "p AND 3 = of_nat c" "c + unat n \<le> 4" "lane_shift p n = 8 * (4 - c - unat n)" for c
    by (rule out [OF w]) (use sp that in simp_all)
  note d = lane_shift_def h
  show thesis
    using assms(1)
  proof (cases rule: valid_size_cases)
    case 1
    consider "p AND 3 = 0" | "p AND 3 = 1" | "p AND 3 = 2" | "p AND 3 = 3" by (rule low2_cases)
    then show thesis
      by cases (rule goal [of 0] goal [of 1] goal [of 2] goal [of 3]; simp add: 1 d)+
  next
    case 2
    consider "p AND 3 = 0" | "p AND 3 = 2"
      using assms(2) by (rule_tac low2_cases [of p]) (simp_all add: 2 m h)
    then show thesis
      by cases (rule goal [of 0] goal [of 2]; simp add: 2 d)+
  next
    case 3
    then have "p AND 3 = 0" using assms(2) by (simp add: m)
    then show thesis by (intro goal [of 0]) (simp_all add: 3 d)
  qed
qed

text \<open>A plain access as the arbiter issues it: aligned, of a legal size.\<close>

definition plain_store :: "u64 \<Rightarrow> int \<Rightarrow> device_hub \<Rightarrow> u32 \<Rightarrow> u8 \<Rightarrow> u32 \<Rightarrow> device_hub" where
  "plain_store t cpu h p n v = (if mmio_hit h p n then device_write h t cpu p n v else h)"

lemma mmio_hit_cases:
  assumes "mmio_hit h p n"
  obtains w c where "w AND 3 = 0" "p = w + of_nat c" "c + unat n \<le> 4" "0 < unat n"
    "lane_shift p n = 8 * (4 - c - unat n)" "plain_register w" "p AND NOT 3 = w"
    "size_mask n = mask (8 * unat n)"
proof -
  have v: "valid_size n" and m: "p mod ucast n = 0" and r: "plain_register (p AND NOT 3)"
    using assms by (simp_all add: mmio_hit_def)
  have n: "0 < unat n" using v by (auto simp: valid_size_def)
  from v m obtain w c where wc: "w AND 3 = 0" "p = w + of_nat c" "c + unat n \<le> 4"
    "lane_shift p n = 8 * (4 - c - unat n)" by (rule aligned_cases)
  then have "p AND NOT 3 = w" using n by (simp only: aligned_lane)
  then show thesis using that wc r n size_mask_conv [OF v] by simp
qed

lemma mmio_hit_byte:
  assumes "mmio_hit h p n" "i < unat n"
  shows "mmio_hit h (p + of_nat i) 1"
proof -
  obtain w c where wc: "w AND 3 = 0" "p = w + of_nat c" "c + unat n \<le> 4" "plain_register w"
    using assms(1) by (rule mmio_hit_cases)
  then have "p + of_nat i = w + of_nat (c + i)" "c + i < 4" using assms(2) by simp_all
  then show ?thesis
    using wc(1,4) by (simp add: mmio_hit_def valid_size_def aligned_lanes del: of_nat_add)
qed

lemma mmio_byte_at:
  assumes "w AND 3 = 0" "c < 4"
  shows "mmio_byte h (w + of_nat c) = lane_byte (register_value h w) c"
  using assms by (simp add: mmio_byte_def aligned_lanes unat_of_nat_u32)

lemma plain_store_value:
  assumes "mmio_hit h p n" "w = p AND NOT 3"
  shows "mmio_regs (plain_store t cpu h p n v) = (mmio_regs h)(w \<mapsto>
     (register_value h w AND NOT (push_bit (lane_shift p n) (size_mask n))) OR
     (push_bit (lane_shift p n) v AND push_bit (lane_shift p n) (size_mask n)))"
proof -
  obtain c where wc: "c + unat n \<le> 4" "0 < unat n" "lane_shift p n = 8 * (4 - c - unat n)"
    "size_mask n = mask (8 * unat n)" "plain_register w"
    using assms(1) by (rule mmio_hit_cases) (use assms(2) in auto)
  have "bit (push_bit (lane_shift p n) (size_mask n)) (lane_shift p n)"
    using wc(1,2) by (simp add: wc(3,4) bit_simps)
  then have nz: "push_bit (lane_shift p n) (size_mask n) \<noteq> 0" by auto
  show ?thesis
    using assms nz wc(5)
    by (simp add: plain_store_def device_write_def Let_def plain_write plain_value and.assoc)
qed

lemma plain_store_register:
  assumes "mmio_hit h p n" "plain_register q"
  shows "register_value (plain_store t cpu h p n v) q =
    (if q = p AND NOT 3
     then (register_value h q AND NOT (push_bit (lane_shift p n) (size_mask n))) OR
       (push_bit (lane_shift p n) v AND push_bit (lane_shift p n) (size_mask n))
     else register_value h q)"
  using plain_store_value [OF assms(1) refl, of t cpu v] assms(2)
  by (simp add: plain_value read_persisted_or_zero_def)

text \<open>A byte inside a lane of a register's word, and one of the same word outside it.\<close>

lemma lane_byte_inside:
  assumes "c + k \<le> 4" "i < k"
  shows "lane_byte ((r AND NOT (push_bit (8 * (4 - c - k)) (mask (8 * k)))) OR
    (push_bit (8 * (4 - c - k)) v AND push_bit (8 * (4 - c - k)) (mask (8 * k)))) (c + i) = be_byte k v i"
proof -
  have b: "8 * (4 - c - k) \<le> 8 * (3 - (c + i))" "8 * (3 - (c + i)) + 8 \<le> 8 * (4 - c - k) + 8 * k"
    "8 * (3 - (c + i)) + 8 \<le> 32" and e: "8 * (3 - (c + i)) - 8 * (4 - c - k) = 8 * (k - 1 - i)"
    using assms by simp_all
  show ?thesis unfolding lane_byte_def be_byte_def byte_mask lane_inside [OF b] e ..
qed

lemma lane_byte_outside:
  assumes "c + k \<le> 4" "d < 4" "d < c \<or> c + k \<le> d"
  shows "lane_byte ((r AND NOT (push_bit (8 * (4 - c - k)) (mask (8 * k)))) OR
    (push_bit (8 * (4 - c - k)) v AND push_bit (8 * (4 - c - k)) (mask (8 * k)))) d = lane_byte r d"
proof -
  have "8 * (3 - d) + 8 \<le> 8 * (4 - c - k) \<or> 8 * (4 - c - k) + 8 * k \<le> 8 * (3 - d)" using assms by auto
  moreover have "8 * (3 - d) + 8 \<le> 32" by simp
  ultimately show ?thesis by (simp only: lane_byte_def lane_outside)
qed

text \<open>The offset of a byte from the access says whether the access covers its place in the word.\<close>

lemma covered_place:
  assumes "w AND 3 = 0" "p = w + of_nat c" "c + k \<le> 4" "z AND 3 = 0" "q = z + of_nat d" "d + 1 \<le> (4::nat)"
  shows "unat (q - p :: u32) < k \<longleftrightarrow> z = w \<and> c \<le> d \<and> d < c + k"
    and "z = w \<Longrightarrow> c \<le> d \<Longrightarrow> unat (q - p) = d - c"
proof -
  show at: "unat (q - p) = d - c" if "z = w" "c \<le> d"
  proof -
    have "q - p = of_nat (d - c)" using that assms(2,5) by simp
    then show ?thesis using assms(6) by (simp add: unat_of_nat_u32)
  qed
  have "z = w \<and> d = c + unat (q - p)" if lt: "unat (q - p) < k"
  proof -
    let ?i = "unat (q - p)"
    have q: "q = w + of_nat (c + ?i)" using assms(2) by simp
    have b: "c + ?i < 4" using lt assms(3) by simp
    have "z = w" and "of_nat d = (of_nat (c + ?i) :: u32)"
      using aligned_lane [OF assms(1) b] aligned_lane [OF assms(4), of d] assms(5,6) q by (simp_all del: of_nat_add)
    then have "d = c + ?i" using b assms(6) by (intro add_of_nat_inj [of 0]) simp_all
    with \<open>z = w\<close> show ?thesis ..
  qed
  then show "unat (q - p) < k \<longleftrightarrow> z = w \<and> c \<le> d \<and> d < c + k" using at by fastforce
qed

lemma plain_store_byte:
  assumes "mmio_hit h p n" "mmio_hit h q 1"
  shows "mmio_byte (plain_store t cpu h p n v) q =
    (if unat (q - p) < unat n then be_byte (unat n) v (unat (q - p)) else mmio_byte h q)"
proof -
  obtain w c where wc: "w AND 3 = 0" "p = w + of_nat c" "c + unat n \<le> 4" "0 < unat n"
    "lane_shift p n = 8 * (4 - c - unat n)" "plain_register w" "p AND NOT 3 = w"
    "size_mask n = mask (8 * unat n)"
    using assms(1) by (rule mmio_hit_cases)
  obtain z d where zd: "z AND 3 = 0" "q = z + of_nat d" "d + 1 \<le> 4" "plain_register z"
    using assms(2) by (rule mmio_hit_cases) auto
  note place = covered_place [OF wc(1-3) zd(1-3)]
  have bytes: "mmio_byte h q = lane_byte (register_value h z) d"
    "mmio_byte (plain_store t cpu h p n v) q = lane_byte (register_value (plain_store t cpu h p n v) z) d"
    using zd by (simp_all add: mmio_byte_at)
  note reg = plain_store_register [OF assms(1) zd(4), of t cpu v, unfolded wc(5,7,8)]
  show ?thesis
  proof (cases "unat (q - p) < unat n")
    case True
    then obtain i where i: "z = w" "d = c + i" "i < unat n" "unat (q - p) = i"
      using place by (metis add_diff_cancel_left' le_add_diff_inverse nat_add_left_cancel_less)
    show ?thesis
      unfolding bytes reg using lane_byte_inside [OF wc(3) i(3)] i by simp
  next
    case False
    then have "z = w \<Longrightarrow> d < c \<or> c + unat n \<le> d" using place(1) by linarith
    then show ?thesis
      unfolding bytes reg using False zd(3) lane_byte_outside [OF wc(3), of d] by auto
  qed
qed

lemma read_lanes:
  assumes "mmio_hit h p n"
  shows "device_read h t cpu p n = be_assemble (\<lambda>i. mmio_byte h (p + of_nat i)) (unat n)"
proof -
  obtain w c where wc: "w AND 3 = 0" "p = w + of_nat c" "c + unat n \<le> 4" "0 < unat n"
    "lane_shift p n = 8 * (4 - c - unat n)" "p AND NOT 3 = w" "size_mask n = mask (8 * unat n)"
    using assms by (rule mmio_hit_cases)
  let ?v = "drop_bit (lane_shift p n) (register_value h w)"
  have n: "valid_size n" using assms by (simp add: mmio_hit_def)
  have "mmio_byte h (p + of_nat i) = be_byte (unat n) ?v i" if "i < unat n" for i
  proof -
    have "mmio_byte h (p + of_nat i) = lane_byte (register_value h w) (c + i)"
      using wc(2,3) that mmio_byte_at [OF wc(1), of "c + i" h] by (simp add: add.assoc)
    moreover have "8 * (3 - (c + i)) = 8 * (4 - c - unat n) + 8 * (unat n - 1 - i)"
      using that wc(3) by simp
    ultimately show ?thesis
      by (simp add: lane_byte_def be_byte_def byte_mask wc(5) drop_bit_drop_bit add.commute)
  qed
  then show ?thesis
    using wc(6,7) be_round_trip [OF n, of ?v]
    by (simp add: device_read_def cong: be_assemble_cong)
qed

interpretation mmio: byte_store "\<lambda>_. True" mmio_hit mmio_byte "\<lambda>h. device_read h t cpu" "plain_store t cpu"
  for t cpu
proof unfold_locales
  fix s p n i assume "mmio_hit s p n" "i < unat n"
  then show "mmio_hit s (p + of_nat i) 1" by (rule mmio_hit_byte)
next
  fix s p n q v assume "mmio_hit s p n" "mmio_hit s q 1"
  then show "mmio_byte (plain_store t cpu s p n v) q =
     (if unat (q - p) < unat n then be_byte (unat n) v (unat (q - p)) else mmio_byte s q)"
    by (rule plain_store_byte)
qed (simp_all add: read_lanes, auto simp: plain_store_def mmio_hit_def)

section \<open>Invariant of the hub\<close>

definition run_writes :: "(u64 \<times> int \<times> u32 \<times> u8 \<times> u32) list \<Rightarrow> device_hub \<Rightarrow> device_hub" where
  "run_writes ops h = fold (\<lambda>(t, cpu, addr, sz, v) h. device_write h t cpu addr sz v) ops h"

definition reg_ok :: "u32 \<Rightarrow> u32 \<Rightarrow> bool" where
  "reg_ok w v = (case register_spec w of None \<Rightarrow> True | Some s \<Rightarrow> v AND NOT (writable_mask s) = 0)"

definition hub_ok :: "device_hub \<Rightarrow> bool" where
  "hub_ok h \<longleftrightarrow>
     scu_interrupt_pending h AND 0xFFFF = scu_interrupt_pending h \<and>
     scu_interrupt_source_pending h AND 0xFFFF = scu_interrupt_source_pending h \<and>
     (vdp1_irq_level h = 0 \<or> vdp1_irq_level h = 1) \<and>
     smpc_last_command h AND 0xFF = smpc_last_command h \<and>
     (smpc_command_result h = 0 \<or> smpc_command_result h = 0xA5000000 OR smpc_last_command h) \<and>
     vdp1_event_counter h = vdp1_completed_counter h \<and>
     vdp1_last_command h AND 0xFF = vdp1_last_command h \<and>
     (vdp1_command_pending h \<longrightarrow> vdp1_last_command h \<noteq> 0)"

definition regs_ok :: "device_hub \<Rightarrow> bool" where
  "regs_ok h \<longleftrightarrow> (\<forall>w v. mmio_regs h w = Some v \<longrightarrow> reg_ok w v)"

lemma masked_and: "(x :: u32) AND m = x \<Longrightarrow> (x AND y) AND m = x AND y"
  by (metis and.commute and.left_commute)

lemma masked_or: "(x :: u32) AND m = x \<Longrightarrow> y AND m = y \<Longrightarrow> (x OR y) AND m = x OR y"
  by (simp add: bit.conj_disj_distrib2)

lemma and_and_same: "((x :: u32) AND m) AND m = x AND m"
  by (simp add: and.assoc)

lemma and_1_cases: "(x :: u32) AND 1 = 0 \<or> x AND 1 = 1"
  by (simp add: and_one_eq mod_2_eq_odd)

lemma register_write_writes [simp]: "writes (register_write h w m b) = writes h"
  by (simp add: register_write_def signal_vdp1_completion_def Let_def)

lemma signal_ok: "hub_ok h \<Longrightarrow> hub_ok (signal_vdp1_completion h)"
  by (auto simp: hub_ok_def signal_vdp1_completion_def masked_or)

lemma hub_ok_cong:
  "hub_ok (h\<lparr>writes := ws\<rparr>) = hub_ok h" "hub_ok (h\<lparr>mmio_regs := rs\<rparr>) = hub_ok h"
  by (simp_all add: hub_ok_def)

lemma register_write_ok:
  assumes "hub_ok h"
  shows "hub_ok (register_write h w m b)"
proof -
  have r: "hub_ok (if c then a1 else a2)" if "c \<Longrightarrow> hub_ok a1" "\<not> c \<Longrightarrow> hub_ok a2" for c a1 a2
    using that by simp
  note k = masked_and masked_or and_and_same signal_ok hub_ok_cong
  from and_1_cases [of b] show ?thesis
    unfolding register_write_def Let_def
    by (intro r; insert assms; simp add: k; (auto simp: hub_ok_def k)?)
qed

lemma merge_reg_ok:
  assumes "\<And>v. regs w = Some v \<Longrightarrow> reg_ok w v"
    "wm = (case register_spec w of None \<Rightarrow> 0xFFFFFFFF | Some s \<Rightarrow> writable_mask s)"
  shows "reg_ok w ((read_persisted_or_zero regs w AND NOT (lm AND wm)) OR (b AND (lm AND wm)))"
proof (cases "register_spec w")
  case (Some s)
  then have wm: "wm = writable_mask s" using assms(2) by simp
  have "read_persisted_or_zero regs w AND NOT wm = 0"
    using assms(1) Some wm by (auto simp: read_persisted_or_zero_def reg_ok_def split: option.splits)
  then have "\<not> (bit (read_persisted_or_zero regs w) i \<and> \<not> bit wm i)" if "i < 32" for i
    using that by (auto simp: bit_eq_iff bit_simps)
  then have "((read_persisted_or_zero regs w AND NOT (lm AND wm)) OR (b AND (lm AND wm))) AND NOT wm = 0"
    by (intro bit_word_eqI) (auto simp: bit_simps)
  then show ?thesis using Some wm by (simp add: reg_ok_def)
qed (simp add: reg_ok_def)

lemma register_write_regs_ok:
  assumes "regs_ok h"
  shows "regs_ok (register_write h w lm b)"
proof -
  have "mmio_regs (register_write h w lm b) = mmio_regs h \<or>
    mmio_regs (register_write h w lm b) = (mmio_regs h)(w \<mapsto>
      (read_persisted_or_zero (mmio_regs h) w AND
         NOT (lm AND (case register_spec w of None \<Rightarrow> 0xFFFFFFFF | Some s \<Rightarrow> writable_mask s))) OR
      (b AND (lm AND (case register_spec w of None \<Rightarrow> 0xFFFFFFFF | Some s \<Rightarrow> writable_mask s))))"
    by (simp add: register_write_def signal_vdp1_completion_def Let_def)
  then show ?thesis
    using assms merge_reg_ok [of "mmio_regs h" w _ lm b, OF _ refl]
    by (elim disjE) (simp_all add: regs_ok_def)
qed

lemma device_write_ok: "hub_ok h \<Longrightarrow> hub_ok (device_write h t cpu p n v)"
  by (simp add: device_write_def Let_def register_write_ok hub_ok_cong)

lemma device_write_regs_ok: "regs_ok h \<Longrightarrow> regs_ok (device_write h t cpu p n v)"
  unfolding device_write_def Let_def by (rule register_write_regs_ok) (simp add: regs_ok_def)

lemma device_write_log [simp]:
  "writes (device_write h t cpu p n v) = writes h @ [\<lparr>wl_t = t, wl_cpu = cpu, wl_addr = p, wl_value = v\<rparr>]"
  by (simp add: device_write_def Let_def)

lemma run_writes_simps [simp]:
  "run_writes [] h = h"
  "run_writes ((t, cpu, a, n, v) # ops) h = run_writes ops (device_write h t cpu a n v)"
  by (simp_all add: run_writes_def)

lemma run_writes_ok:
  "hub_ok h \<Longrightarrow> regs_ok h \<Longrightarrow> hub_ok (run_writes ops h) \<and> regs_ok (run_writes ops h)"
  by (induction ops arbitrary: h) (auto simp: device_write_ok device_write_regs_ok)

lemma run_writes_log:
  "writes (run_writes ops h) = writes h @
     map (\<lambda>(t, cpu, a, n, v). \<lparr>wl_t = t, wl_cpu = cpu, wl_addr = a, wl_value = v\<rparr>) ops"
  by (induction ops arbitrary: h) auto

lemma hub_ok_new: "hub_ok new_device_hub" "regs_ok new_device_hub"
  by (simp_all add: hub_ok_def regs_ok_def new_device_hub_def)

section \<open>Properties\<close>

text \<open>
  (C27) Invariant of the device hub. Whatever sequence of writes the arbiter performs, to any
  addresses and of any sizes: both SCU interrupt words stay within 16 bits, the VDP1 interrupt
  level is 0 or 1, the SMPC command stays a byte and its result is 0 or 0xA5000000 combined
  with that command, the VDP1 event and completion counters agree, a pending VDP1 command is
  never 0, no register ever holds a bit outside its writable mask, and every write is logged in
  order, the ignored ones included.
\<close>

theorem hub_invariant:
  "hub_ok (run_writes ops new_device_hub) \<and> regs_ok (run_writes ops new_device_hub) \<and>
   writes (run_writes ops new_device_hub) =
     map (\<lambda>(t, cpu, a, n, v). \<lparr>wl_t = t, wl_cpu = cpu, wl_addr = a, wl_value = v\<rparr>) ops"
  using run_writes_ok [OF hub_ok_new, of ops]
  by (simp add: run_writes_log) (simp add: new_device_hub_def)

text \<open>
  Read-only status registers cannot be overwritten: after any sequence of writes the display
  status, the SMPC status and TVSTAT still read as their reset values, in every aligned lane.
\<close>

theorem read_only_registers:
  "device_read (run_writes ops new_device_hub) t cpu kDisplayStatusAddr 4 = 1 \<and>
   device_read (run_writes ops new_device_hub) t cpu kSmpcStatusAddr 4 = 1 \<and>
   device_read (run_writes ops new_device_hub) t cpu kVdp2TvstatAddr 4 = 8 \<and>
   device_read (run_writes ops new_device_hub) t cpu (kDisplayStatusAddr + 3) 1 = 1 \<and>
   device_read (run_writes ops new_device_hub) t cpu kDisplayStatusAddr 2 = 0"
  by (simp add: device_read_def register_value_def register_spec_def materialize_register_value_def
        lane_shift_def size_mask_def)

text \<open>
  (C29) Plain MMIO registers are a big-endian byte store: an aligned access of a legal size reads
  back what was written, cut to its width; byte \<open>i\<close> of the access reads as its own lane; and an
  aligned access to other bytes, of the same word or of another one, reads its old value.
\<close>

theorem plain_register_lanes:
  assumes "mmio_hit h p n"
  shows "device_read (device_write h t cpu p n v) t' cpu' p n = v AND mask (8 * unat n) \<and>
    (\<forall>i < unat n. device_read (device_write h t cpu p n v) t' cpu' (p + of_nat i) 1 =
       drop_bit (8 * (unat n - 1 - i)) v AND mask 8) \<and>
    (\<forall>q k. mmio_hit h q k \<and> (\<forall>j < unat k. unat n \<le> unat (q + of_nat j - p)) \<longrightarrow>
       device_read (device_write h t cpu p n v) t' cpu' q k = device_read h t' cpu' q k)"
proof (intro conjI allI impI)
  have v: "valid_size n" using assms by (simp add: mmio_hit_def)
  have e: "device_write h t cpu p n v = plain_store t cpu h p n v"
    using assms by (simp add: plain_store_def)
  have r: "device_read k t' cpu' = device_read k t cpu" for k by (simp add: device_read_def fun_eq_iff)
  show "device_read (device_write h t cpu p n v) t' cpu' p n = v AND mask (8 * unat n)"
    unfolding e r using TrueI assms v by (rule mmio.read_own_write)
  show "device_read (device_write h t cpu p n v) t' cpu' (p + of_nat i) 1 =
       drop_bit (8 * (unat n - 1 - i)) v AND mask 8" if "i < unat n" for i
    unfolding e r using TrueI assms that by (rule mmio.read_lane)
  show "device_read (device_write h t cpu p n v) t' cpu' q k = device_read h t' cpu' q k"
    if "mmio_hit h q k \<and> (\<forall>j < unat k. unat n \<le> unat (q + of_nat j - p))" for q k
    unfolding e r using that by (intro mmio.read_disjoint) auto
qed

lemma plain_register_lanes_witness:
  "device_read (device_write new_device_hub 5 0 0x05D00012 2 0xABCD) 6 1 0x05D00012 2 = 0xABCD"
proof -
  have "mmio_hit new_device_hub 0x05D00012 2"
    by (simp add: mmio_hit_def valid_size_def plain_register_def register_spec_def)
  from plain_register_lanes [OF this] show ?thesis by (simp add: mask_eq_exp_minus_1)
qed

text \<open>The registers \<open>write\<close> and \<open>read\<close> have no special case for.\<close>

definition stored_register :: "u32 \<Rightarrow> bool" where
  "stored_register w \<longleftrightarrow> w \<notin> {kScuIstAddr, kScuIstClearAddr, kScuIstSourceSetAddr,
     kScuIstSourceClearAddr, kSmpcCommandAddr, kSmpcCommandResultAddr, kVdp1ScuIrqBridgeAddr,
     kVdp1EventStatusAddr, kVdp1CommandAddr, kVdp1EventTriggerAddr, kVdp1CommandCompleteAddr,
     kVdp1CommandStatusAddr}"

lemma full_word:
  "lane_shift p 4 = 0" "size_mask 4 = 0xFFFFFFFF"
  by (simp_all add: lane_shift_def size_mask_def)

lemma device_write_word:
  "device_write h t cpu w 4 v =
     register_write (h\<lparr>writes := writes h @ [\<lparr>wl_t = t, wl_cpu = cpu, wl_addr = w, wl_value = v\<rparr>]\<rparr>)
       (w AND NOT 3) 0xFFFFFFFF v"
  by (simp add: device_write_def Let_def full_word)

lemma device_read_word: "device_read h t cpu w 4 = register_value h (w AND NOT 3)"
  by (simp add: device_read_def full_word)

lemma stored_value:
  "stored_register w \<Longrightarrow> register_value h w =
     materialize_register_value (register_spec w) (read_persisted_or_zero (mmio_regs h) w)"
  by (simp add: stored_register_def register_value_def)

lemma stored_write:
  "stored_register w \<Longrightarrow> register_spec w = Some s \<Longrightarrow> register_write h w 0xFFFFFFFF v =
     (if writable_mask s = 0 then h
      else h\<lparr>mmio_regs := (mmio_regs h)(w \<mapsto> (read_persisted_or_zero (mmio_regs h) w AND NOT (writable_mask s))
        OR (v AND writable_mask s))\<rparr>)"
  by (simp add: stored_register_def register_write_def Let_def)

lemma persisted_upd [simp]:
  "read_persisted_or_zero (m(w \<mapsto> v)) q = (if q = w then v else read_persisted_or_zero m q)"
  by (simp add: read_persisted_or_zero_def)

lemma materialize_Some [simp]:
  "materialize_register_value (Some s) v = (reset_value s AND NOT (writable_mask s)) OR (v AND writable_mask s)"
  by (simp add: materialize_register_value_def)

lemma aligned_word: "w AND 3 = 0 \<Longrightarrow> w AND NOT 3 = (w :: u32)"
  using word_lane_split [of w] by simp

lemmas word_access = device_write_word device_read_word aligned_word aligned_word [simplified]

text \<open>
  Registers with a writable mask: a word write stores exactly the writable bits, the other
  bits read as the reset value, and no other stored register changes.
\<close>

theorem masked_register_word:
  assumes "stored_register w" "w AND 3 = 0" "register_spec w = Some s"
  shows "device_read (device_write h t cpu w 4 v) t' cpu' w 4 =
      (reset_value s AND NOT (writable_mask s)) OR (v AND writable_mask s) \<and>
    (\<forall>q. q AND 3 = 0 \<and> stored_register q \<and> q \<noteq> w \<longrightarrow>
      device_read (device_write h t cpu w 4 v) t' cpu' q 4 = device_read h t' cpu' q 4)"
proof -
  have m: "((x AND NOT k) OR (v AND k)) AND k = v AND k" for x k :: u32
    by (rule bit_word_eqI) (auto simp: bit_simps)
  show ?thesis
    using assms m
    by (simp add: word_access stored_value stored_write)
qed

lemma masked_register_word_witness:
  "device_read (device_write new_device_hub 0 0 kScuDma0CtrlAddr 4 0xFF) 0 0 kScuDma0CtrlAddr 4 = 0x17"
proof -
  have "stored_register kScuDma0CtrlAddr" "register_spec kScuDma0CtrlAddr = reg_spec 0 0x17"
    by (simp_all add: stored_register_def register_spec_def)
  from masked_register_word [OF this(1) _ this(2)] show ?thesis by simp
qed

text \<open>
  SCU interrupt status. Reading IST gives the pending and source bits with the bits set in
  IMS removed. Writing IST or the source-set register ors the low 16 bits in, writing IST-clear
  removes them from both words, writing source-clear removes them from the source word only,
  and writing IMS changes the mask and neither word.
\<close>

definition scu_raw :: "device_hub \<Rightarrow> u32" where
  "scu_raw h = scu_interrupt_pending h OR scu_interrupt_source_pending h"

theorem scu_interrupt_status:
  "device_read h t cpu kScuIstAddr 4 = scu_raw h AND NOT (device_read h t cpu kScuImsAddr 4) \<and>
   scu_raw (device_write h t cpu kScuIstAddr 4 v) = scu_raw h OR (v AND 0xFFFF) \<and>
   scu_raw (device_write h t cpu kScuIstSourceSetAddr 4 v) = scu_raw h OR (v AND 0xFFFF) \<and>
   scu_raw (device_write h t cpu kScuIstClearAddr 4 v) = scu_raw h AND NOT (v AND 0xFFFF) \<and>
   scu_interrupt_pending (device_write h t cpu kScuIstSourceClearAddr 4 v) = scu_interrupt_pending h \<and>
   scu_interrupt_source_pending (device_write h t cpu kScuIstSourceClearAddr 4 v) =
     scu_interrupt_source_pending h AND NOT (v AND 0xFFFF) \<and>
   scu_raw (device_write h t cpu kScuImsAddr 4 v) = scu_raw h \<and>
   device_read (device_write h t cpu kScuImsAddr 4 v) t cpu kScuIstAddr 4 = scu_raw h AND NOT (v AND 0xFFFF)"
proof -
  have d: "register_value k kScuIstAddr = scu_raw k AND NOT (register_value k kScuImsAddr)" for k
    by (simp add: register_value_def scu_raw_def Let_def)
  have m: "register_value (register_write k kScuImsAddr 0xFFFFFFFF v) kScuImsAddr = v AND 0xFFFF" for k
    by (simp add: stored_value stored_write [of _ "\<lparr>reset_value = 0, writable_mask = 0xFFFF\<rparr>"]
        stored_register_def register_spec_def bit.conj_disj_distrib2 and.assoc)
  have r: "scu_raw (register_write k kScuImsAddr 0xFFFFFFFF v) = scu_raw k" for k
    by (simp add: scu_raw_def register_write_def Let_def)
  have o: "(a AND x) OR (b AND x) = (a OR b) AND x" "(a OR x) OR b = (a OR b) OR x"
      "a OR b OR x = (a OR b) OR x" for a b x :: u32
    by (rule bit_word_eqI, auto simp: bit_simps)+
  show ?thesis
    by (simp add: word_access d m r, simp add: scu_raw_def register_write_def o)
qed

text \<open>
  (C28) VDP1 command handshake. A nonzero command byte sets busy and is reported with the old
  completion count; the completion write then raises the interrupt level, sets the VDP1 bit of
  the SCU source word, counts one event and one completion and clears busy; completing again,
  or completing with no command pending, changes nothing but the write log; and dropping the
  level through the bridge register clears the source bit.
\<close>

theorem vdp1_handshake:
  assumes "c AND 0xFF \<noteq> 0"
  shows "let h1 = device_write h t cpu kVdp1CommandAddr 4 c;
      h2 = device_write h1 t' cpu kVdp1CommandCompleteAddr 4 1
    in device_read h1 t cpu kVdp1CommandStatusAddr 4 =
      1 OR push_bit 8 (vdp1_completed_counter h AND 0xFF) OR push_bit 16 (c AND 0xFF) \<and>
    device_read h2 t cpu kVdp1CommandStatusAddr 4 =
      push_bit 8 ((vdp1_completed_counter h + 1) AND 0xFF) OR push_bit 16 (c AND 0xFF) \<and>
    vdp1_event_counter h2 = vdp1_event_counter h + 1 \<and>
    device_read h2 t cpu kVdp1ScuIrqBridgeAddr 4 = 1 \<and>
    device_read h2 t cpu kScuIstSourceSetAddr 4 AND kVdp1ScuIrqMask = kVdp1ScuIrqMask \<and>
    (device_write h2 t' cpu kVdp1CommandCompleteAddr 4 1)\<lparr>writes := []\<rparr> = h2\<lparr>writes := []\<rparr> \<and>
    device_read (device_write h2 t' cpu kVdp1ScuIrqBridgeAddr 4 0) t cpu kScuIstSourceSetAddr 4
      AND kVdp1ScuIrqMask = 0"
  using assms(1)
  by (simp add: word_access register_write_def register_value_def signal_vdp1_completion_def
      Let_def and.assoc or.assoc bit.conj_disj_distrib2)

lemma vdp1_handshake_witness:
  "device_read (device_write (device_write new_device_hub 0 0 kVdp1CommandAddr 4 7) 1 0 kVdp1CommandCompleteAddr 4 1)
     0 0 kVdp1CommandStatusAddr 4 = 0x70100"
  using vdp1_handshake [of 7 new_device_hub 0 0 1] by (simp add: new_device_hub_def Let_def)

text \<open>
  SMPC commands are latched as their low byte and answered with 0xA5000000 combined with
  it, whatever lane of the register the write addressed: a byte write to a lane above the lowest
  latches command 0.
\<close>

theorem smpc_command_latch:
  "device_read (device_write h t cpu kSmpcCommandAddr 4 v) t cpu kSmpcCommandAddr 4 = v AND 0xFF \<and>
   device_read (device_write h t cpu kSmpcCommandAddr 4 v) t cpu kSmpcCommandResultAddr 4 =
     0xA5000000 OR (v AND 0xFF) \<and>
   device_read (device_write h t cpu (kSmpcCommandAddr + 3) 1 v) t cpu kSmpcCommandAddr 4 = v AND 0xFF \<and>
   device_read (device_write h t cpu kSmpcCommandAddr 1 v) t cpu kSmpcCommandAddr 4 = 0"
  by (simp add: word_access register_write_def register_value_def Let_def and.assoc
      device_write_def lane_shift_def size_mask_def)

end
