(* ===== verification/Trace.thy ===== *)
theory Trace
  imports Memory
begin

text \<open>
  Bus operations (\<open>src/src/bus/bus_op.hpp\<close>) and the trace log (\<open>src/src/core/trace.hpp\<close>,
  \<open>trace.cpp\<close>). The log keeps its events; \<open>event_line\<close> is the text the code renders when an event is
  added, so \<open>trace_lines\<close> is the vector of strings of the source.
\<close>

section \<open>Bus operations\<close>

datatype bus_kind = IFetch | BusRead | BusWrite | MmioRead | MmioWrite | BusBarrier

datatype bus_producer = ProducerAuto | ProducerCpu | ProducerDma

record bus_op =
  cpu_id :: int
  req_time :: tick
  op_sequence :: u64
  kind :: bus_kind
  phys_addr :: u32
  op_size :: u8
  op_data :: u32
  fill_cache_line :: bool
  cache_line_size :: u8
  producer :: bus_producer
  producer_token :: u64

text \<open>The aggregate initialisation \<open>BusOp{cpu, t, seq, kind, phys, size, data}\<close>.\<close>

definition bus_op_of :: "int \<Rightarrow> tick \<Rightarrow> u64 \<Rightarrow> bus_kind \<Rightarrow> u32 \<Rightarrow> u8 \<Rightarrow> u32 \<Rightarrow> bus_op" where
  "bus_op_of cpu t sq k p n v = \<lparr>cpu_id = cpu, req_time = t, op_sequence = sq, kind = k, phys_addr = p,
     op_size = n, op_data = v, fill_cache_line = False, cache_line_size = 0,
     producer = ProducerAuto, producer_token = 0\<rparr>"

primrec kind_name :: "bus_kind \<Rightarrow> string" where
  "kind_name IFetch = ''IFETCH''"
| "kind_name BusRead = ''READ''"
| "kind_name BusWrite = ''WRITE''"
| "kind_name MmioRead = ''MMIO_READ''"
| "kind_name MmioWrite = ''MMIO_WRITE''"
| "kind_name BusBarrier = ''BARRIER''"

definition dma_owned :: "bus_op \<Rightarrow> bool" where
  "dma_owned op \<longleftrightarrow> producer op = ProducerDma \<or> (producer op = ProducerAuto \<and> cpu_id op < 0)"

definition owner_name :: "bus_op \<Rightarrow> string" where
  "owner_name op = (if dma_owned op then ''DMA'' else ''CPU'')"

definition provenance_tag :: "bus_op \<Rightarrow> string" where
  "provenance_tag op = (if dma_owned op then ''DMA'' else ''CPU'')"

definition source_name :: "bus_op \<Rightarrow> string" where
  "source_name op =
    (if dma_owned op then ''DMA''
     else case kind op of IFetch \<Rightarrow> ''IFETCH'' | BusRead \<Rightarrow> ''READ'' | BusWrite \<Rightarrow> ''WRITE''
       | MmioRead \<Rightarrow> ''MMIO'' | MmioWrite \<Rightarrow> ''MMIO'' | BusBarrier \<Rightarrow> ''BARRIER'')"

section \<open>Events\<close>

record cpu_snapshot =
  snap_t :: tick
  snap_cpu :: int
  snap_pc :: u32
  snap_sr :: u32
  snap_r :: "u32 list"

record commit_event =
  t_start :: tick
  t_end :: tick
  ce_op :: bus_op
  ce_stall :: tick
  ce_value :: u32
  ce_cache_hit :: bool

record fault_event =
  fault_t :: tick
  fault_cpu :: int
  fault_pc :: u32
  fault_detail :: u32
  fault_reason :: string

datatype trace_event = CommitLine commit_event | StateLine cpu_snapshot | FaultLine fault_event

section \<open>Rendering\<close>

text \<open>Decimal output of \<open>operator<<\<close> on unsigned and signed integers.\<close>

definition digit_char :: "nat \<Rightarrow> char" where
  "digit_char d = char_of (48 + d)"

fun dec :: "nat \<Rightarrow> string" where
  "dec n = (if n < 10 then [digit_char n] else dec (n div 10) @ [digit_char (n mod 10)])"

declare dec.simps [simp del]

definition dec_word :: "('w :: len) word \<Rightarrow> string" where
  "dec_word w = dec (unat w)"

definition dec_int :: "int \<Rightarrow> string" where
  "dec_int i = (if i < 0 then CHR ''-'' # dec (nat (- i)) else dec (nat i))"

definition bool_text :: "bool \<Rightarrow> string" where
  "bool_text b = (if b then ''true'' else ''false'')"

definition commit_line :: "commit_event \<Rightarrow> string" where
  "commit_line e =
     ''COMMIT {\"t_start\":'' @ dec_word (t_start e) @ '',\"t_end\":'' @ dec_word (t_end e) @
     '',\"stall\":'' @ dec_word (ce_stall e) @ '',\"cpu\":'' @ dec_int (cpu_id (ce_op e)) @
     '',\"kind\":\"'' @ kind_name (kind (ce_op e)) @ ''\",\"phys\":'' @ dec_word (phys_addr (ce_op e)) @
     '',\"size\":'' @ dec_word (op_size (ce_op e)) @ '',\"val\":'' @ dec_word (ce_value e) @
     '',\"src\":\"'' @ source_name (ce_op e) @ ''\",\"owner\":\"'' @ owner_name (ce_op e) @
     ''\",\"tag\":\"'' @ provenance_tag (ce_op e) @ ''\",\"cache_hit\":'' @ bool_text (ce_cache_hit e) @ ''}''"

definition state_line :: "cpu_snapshot \<Rightarrow> string" where
  "state_line s =
     ''STATE {\"t\":'' @ dec_word (snap_t s) @ '',\"cpu\":'' @ dec_int (snap_cpu s) @
     '',\"pc\":'' @ dec_word (snap_pc s) @ '',\"sr\":'' @ dec_word (snap_sr s) @ '',\"r\":['' @
     concat (map (\<lambda>i. (if i \<noteq> 0 then '','' else []) @ dec_word (snap_r s ! i)) [0..<length (snap_r s)]) @
     '']}''"

definition fault_line :: "fault_event \<Rightarrow> string" where
  "fault_line f =
     ''FAULT {\"t\":'' @ dec_word (fault_t f) @ '',\"cpu\":'' @ dec_int (fault_cpu f) @
     '',\"pc\":'' @ dec_word (fault_pc f) @ '',\"detail\":'' @ dec_word (fault_detail f) @
     '',\"reason\":\"'' @ fault_reason f @ ''\"}''"

primrec event_line :: "trace_event \<Rightarrow> string" where
  "event_line (CommitLine e) = commit_line e"
| "event_line (StateLine s) = state_line s"
| "event_line (FaultLine f) = fault_line f"

section \<open>The log\<close>

record trace_log =
  halt_on_fault :: bool
  should_halt :: bool
  events :: "trace_event list"

definition new_trace :: trace_log where
  "new_trace = \<lparr>halt_on_fault = False, should_halt = False, events = []\<rparr>"

definition set_halt_on_fault :: "bool \<Rightarrow> trace_log \<Rightarrow> trace_log" where
  "set_halt_on_fault enabled log =
     (let log' = log\<lparr>halt_on_fault := enabled\<rparr> in if \<not> enabled then log'\<lparr>should_halt := False\<rparr> else log')"

definition add_commit :: "commit_event \<Rightarrow> trace_log \<Rightarrow> trace_log" where
  "add_commit e log = log\<lparr>events := events log @ [CommitLine e]\<rparr>"

definition add_state :: "cpu_snapshot \<Rightarrow> trace_log \<Rightarrow> trace_log" where
  "add_state s log = log\<lparr>events := events log @ [StateLine s]\<rparr>"

definition add_fault :: "fault_event \<Rightarrow> trace_log \<Rightarrow> trace_log" where
  "add_fault f log =
     (let log' = log\<lparr>events := events log @ [FaultLine f]\<rparr>
      in if halt_on_fault log then log'\<lparr>should_halt := True\<rparr> else log')"

definition trace_lines :: "trace_log \<Rightarrow> string list" where
  "trace_lines log = map event_line (events log)"

definition newline :: char where
  "newline = char_of (10 :: nat)"

definition write_jsonl :: "trace_log \<Rightarrow> string" where
  "write_jsonl log = ''TRACE {\"version\":'' @ dec 1 @ ''}'' @ [newline] @
     concat (map (\<lambda>line. line @ [newline]) (trace_lines log))"

end
