(* ===== verification/Selection.thy ===== *)
theory Selection
  imports Prelude "HOL-Library.Multiset"
begin

text \<open>
  The best-so-far loop both arbiters use to choose the next access
  (\<open>Arbiter::pick_winner\<close>, \<open>BusArbiter::pick_next\<close>), and the contract under which its result
  does not depend on the order of the candidates.
\<close>

text \<open>Scan the indices \<open>is\<close>, replacing the current best by every index that beats it.\<close>

definition pick_best :: "('a \<Rightarrow> 'a \<Rightarrow> bool) \<Rightarrow> 'a list \<Rightarrow> nat list \<Rightarrow> nat \<Rightarrow> nat" where
  "pick_best beats xs is b = fold (\<lambda>i best. if beats (xs ! i) (xs ! best) then i else best) is b"

lemma pick_best_simps [simp]:
  "pick_best beats xs [] b = b"
  "pick_best beats xs (i # is) b = pick_best beats xs is (if beats (xs ! i) (xs ! b) then i else b)"
  by (simp_all add: pick_best_def)

lemma pick_best_in: "pick_best beats xs is b \<in> insert b (set is)"
  by (induction "is" arbitrary: b) (auto split: if_splits)

text \<open>Whatever the ties, the best has the greatest weight the comparison respects.\<close>

lemma pick_best_weight:
  fixes weight :: "'a \<Rightarrow> 'w :: linorder"
  assumes "\<And>c b. weight c > weight b \<Longrightarrow> beats c b" "\<And>c b. weight c < weight b \<Longrightarrow> \<not> beats c b"
  shows "\<forall>i \<in> insert b (set is). weight (xs ! i) \<le> weight (xs ! pick_best beats xs is b)"
proof (induction "is" arbitrary: b)
  case (Cons i "is")
  let ?b = "if beats (xs ! i) (xs ! b) then i else b"
  have "weight (xs ! i) \<le> weight (xs ! ?b) \<and> weight (xs ! b) \<le> weight (xs ! ?b)"
    using assms [of "xs ! b" "xs ! i"] assms [of "xs ! i" "xs ! b"] by (auto simp: not_less [symmetric])
  then show ?case using Cons.IH [of ?b] by (auto intro: order_trans)
qed simp

text \<open>
  Contract of a comparison: well-formed candidates of different slots have different keys and
  the smaller key wins. Nothing is asked of two candidates of one slot except that no candidate
  beats itself.
\<close>

locale selection =
  fixes wf :: "'a \<Rightarrow> bool"
    and beats :: "'a \<Rightarrow> 'a \<Rightarrow> bool"
    and slot :: "'a \<Rightarrow> 's"
    and key :: "'a \<Rightarrow> 'k :: linorder"
  assumes beats_key: "wf c \<Longrightarrow> wf b \<Longrightarrow> slot c \<noteq> slot b \<Longrightarrow> beats c b \<longleftrightarrow> key c < key b"
    and key_slot: "wf c \<Longrightarrow> wf b \<Longrightarrow> slot c \<noteq> slot b \<Longrightarrow> key c \<noteq> key b"
    and irrefl: "\<not> beats c c"
begin

lemma best_least:
  assumes "\<And>i. i \<in> insert b (set is) \<Longrightarrow> wf (xs ! i)"
    and "inj_on (\<lambda>i. slot (xs ! i)) (insert b (set is))"
  shows "\<forall>i \<in> insert b (set is). key (xs ! pick_best beats xs is b) \<le> key (xs ! i)"
  using assms
proof (induction "is" arbitrary: b)
  case (Cons i "is")
  let ?b = "if beats (xs ! i) (xs ! b) then i else b"
  have s: "insert ?b (set is) \<subseteq> insert b (set (i # is))" by auto
  have IH: "\<forall>j \<in> insert ?b (set is). key (xs ! pick_best beats xs is ?b) \<le> key (xs ! j)"
    using s Cons.prems by (intro Cons.IH) (auto intro: inj_on_subset)
  have "key (xs ! ?b) \<le> key (xs ! i) \<and> key (xs ! ?b) \<le> key (xs ! b)"
  proof (cases "i = b")
    case False
    then have "slot (xs ! i) \<noteq> slot (xs ! b)"
      using Cons.prems(2) by (auto simp: inj_on_def)
    then show ?thesis using beats_key Cons.prems(1) by auto
  qed simp
  then show ?case using IH by (auto intro: order_trans)
qed simp

lemma best_of_list:
  assumes "\<And>x. x \<in> set xs \<Longrightarrow> wf x" "distinct (map slot xs)" "insert b (set is) = {..< length xs}"
  shows "xs ! pick_best beats xs is b \<in> set xs \<and> (\<forall>x \<in> set xs. key (xs ! pick_best beats xs is b) \<le> key x)"
proof -
  have lt: "i < length xs" if "i \<in> insert b (set is)" for i using that assms(3) by auto
  have "\<forall>i \<in> insert b (set is). key (xs ! pick_best beats xs is b) \<le> key (xs ! i)"
  proof (rule best_least)
    show "wf (xs ! i)" if "i \<in> insert b (set is)" for i
      using lt [OF that] by (intro assms(1) nth_mem)
    show "inj_on (\<lambda>i. slot (xs ! i)) (insert b (set is))"
      using assms(2) unfolding assms(3) by (auto simp: inj_on_def distinct_conv_nth)
  qed
  then have "key (xs ! pick_best beats xs is b) \<le> key (xs ! i)" if "i < length xs" for i
    using that unfolding assms(3) by simp
  moreover have "pick_best beats xs is b < length xs" by (rule lt) (rule pick_best_in)
  ultimately show ?thesis by (auto simp: in_set_conv_nth)
qed

lemma best_unique:
  assumes "\<And>x. x \<in> set xs \<Longrightarrow> wf x" "distinct (map slot xs)"
    and "x \<in> set xs" "y \<in> set xs" "\<forall>z \<in> set xs. key x \<le> key z" "\<forall>z \<in> set xs. key y \<le> key z"
  shows "x = y"
proof (rule ccontr)
  assume "x \<noteq> y"
  then have "slot x \<noteq> slot y" using assms(2-4) by (auto simp: distinct_map inj_on_def)
  then have "key x \<noteq> key y" using assms(1,3,4) by (intro key_slot)
  then show False using assms(3-6) by (auto dest: order_antisym)
qed

text \<open>The candidate chosen is the same for every order of the candidates.\<close>

lemma best_order_independent:
  assumes "\<And>x. x \<in> set xs \<Longrightarrow> wf x" "distinct (map slot xs)" "mset ys = mset xs"
    and "insert b (set is) = {..< length xs}" "insert c (set js) = {..< length ys}"
  shows "xs ! pick_best beats xs is b = ys ! pick_best beats ys js c"
proof -
  have set: "set ys = set xs" using assms(3) by (metis set_mset_mset)
  have "mset (map slot ys) = mset (map slot xs)" using assms(3) by simp
  then have d: "distinct (map slot ys)" using assms(2) mset_eq_imp_distinct_iff by blast
  show ?thesis
    using best_of_list [OF assms(1,2,4)] best_of_list [of ys, OF assms(1) d assms(5)]
    by (intro best_unique [OF assms(1,2)]) (auto simp: set)
qed

end

end
