(* ===== verification/BusArbiter.thy ===== *)
theory BusArbiter
  imports Devices Trace Selection "HOL-Library.Sublist"
begin

text \<open>
  \<open>src/src/bus/bus_arbiter.hpp\<close> and \<open>bus_arbiter.cpp\<close>. The arbiter is one record that owns the
  committed memory, the devices and the trace the source holds by reference; every operation
  returns the arbiter it leaves. The arbitration policy is a parameter, constrained by the locale
  \<open>arbitration_policy\<close> and interpreted on \<open>DefaultArbitrationPolicy\<close>.
\<close>

section \<open>State\<close>

record bus_response =
  rsp_value :: u32
  rsp_stall :: tick
  start_time :: tick
  commit_time :: tick
  line_base :: u32
  line_data :: "u8 list"

record commit_result =
  input_index :: nat
  cr_op :: bus_op
  response :: bus_response

datatype priority_class = CpuRam | CpuMmio | PrioDma

text \<open>The enumerator values order the class.\<close>

primrec priority_code :: "priority_class \<Rightarrow> nat" where
  "priority_code CpuRam = 0"
| "priority_code CpuMmio = 1"
| "priority_code PrioDma = 2"

lemma priority_code_inj [simp]: "priority_code x = priority_code y \<longleftrightarrow> x = y"
  by (cases x; cases y) simp_all

instantiation priority_class :: linorder
begin

definition less_eq_priority_class :: "priority_class \<Rightarrow> priority_class \<Rightarrow> bool" where
  "x \<le> y \<longleftrightarrow> priority_code x \<le> priority_code y"

definition less_priority_class :: "priority_class \<Rightarrow> priority_class \<Rightarrow> bool" where
  "x < y \<longleftrightarrow> priority_code x < priority_code y"

instance
  by standard (auto simp: less_eq_priority_class_def less_priority_class_def)

end

record latency_model =
  lat_ram_read :: tick
  lat_ram_write :: tick
  lat_ifetch :: tick
  lat_mmio_read :: tick
  lat_mmio_write :: tick
  lat_barrier :: tick
  lat_same_address_contention :: tick
  lat_tie_turnaround :: tick

definition default_latency :: latency_model where
  "default_latency = \<lparr>lat_ram_read = 4, lat_ram_write = 3, lat_ifetch = 5, lat_mmio_read = 12, lat_mmio_write = 10,
     lat_barrier = 1, lat_same_address_contention = 2, lat_tie_turnaround = 1\<rparr>"

text \<open>\<open>std::array\<close>s indexed by producer slot or CPU are functions of the index.\<close>

record bus_arbiter =
  arb_memory :: committed_memory
  arb_devices :: device_hub
  arb_trace :: trace_log
  arb_latency :: latency_model
  bus_free_time :: tick
  last_grant_cpu :: int
  has_last_addr :: bool
  last_addr :: u32
  progress_tracking_enabled :: bool
  progress_up_to :: "nat \<Rightarrow> tick"
  producer_last_req_time :: "nat \<Rightarrow> tick"
  producer_seen :: "nat \<Rightarrow> bool"
  producer_last_enqueued_req_time :: "nat \<Rightarrow> tick"
  producer_enqueued_seen :: "nat \<Rightarrow> bool"

abbreviation tick_max :: tick where "tick_max \<equiv> 0xFFFFFFFFFFFFFFFF"

definition new_bus_arbiter :: "committed_memory \<Rightarrow> device_hub \<Rightarrow> trace_log \<Rightarrow> latency_model \<Rightarrow> bus_arbiter" where
  "new_bus_arbiter m d tr lat = \<lparr>arb_memory = m, arb_devices = d, arb_trace = tr, arb_latency = lat,
     bus_free_time = 0, last_grant_cpu = 1, has_last_addr = False, last_addr = 0,
     progress_tracking_enabled = False, progress_up_to = (\<lambda>_. tick_max),
     producer_last_req_time = (\<lambda>_. 0), producer_seen = (\<lambda>_. False),
     producer_last_enqueued_req_time = (\<lambda>_. 0), producer_enqueued_seen = (\<lambda>_. False)\<rparr>"

section \<open>Validation\<close>

definition valid_bus_size :: "u8 \<Rightarrow> bool" where
  "valid_bus_size n \<longleftrightarrow> n = 1 \<or> n = 2 \<or> n = 4"

datatype bus_op_validation_error = NoError | InvalidSize | InvalidAlignment

primrec error_code :: "bus_op_validation_error \<Rightarrow> u32" where
  "error_code NoError = 0"
| "error_code InvalidSize = 1"
| "error_code InvalidAlignment = 2"

definition is_aligned :: "u32 \<Rightarrow> u8 \<Rightarrow> bool" where
  "is_aligned addr n \<longleftrightarrow> (if n = 1 then True else addr mod ucast n = 0)"

definition validate_bus_op :: "bus_op \<Rightarrow> bus_op_validation_error" where
  "validate_bus_op op =
    (if kind op = BusBarrier then NoError
     else if \<not> valid_bus_size (op_size op) then InvalidSize
     else let require_alignment = (kind op = MmioRead \<or> kind op = MmioWrite \<or> kind op = IFetch \<or>
                is_mmio (phys_addr op))
          in if require_alignment \<and> \<not> is_aligned (phys_addr op) (op_size op) then InvalidAlignment
             else NoError)"

definition producer_slot :: "bus_op \<Rightarrow> nat" where
  "producer_slot op =
    (if producer op = ProducerDma \<or> (producer op = ProducerAuto \<and> cpu_id op < 0) then 2
     else if cpu_id op = 1 then 1 else 0)"

type_synonym arbitration_policy_fn = "bus_op \<Rightarrow> priority_class"

definition default_priority_of :: arbitration_policy_fn where
  "default_priority_of op =
    (if cpu_id op < 0 then PrioDma
     else if kind op = MmioRead \<or> kind op = MmioWrite \<or> is_mmio (phys_addr op) then CpuMmio
     else CpuRam)"

definition is_cpu :: "int \<Rightarrow> bool" where
  "is_cpu c \<longleftrightarrow> c = 0 \<or> c = 1"

section \<open>Timing\<close>

definition base_latency :: "bus_arbiter \<Rightarrow> bus_op \<Rightarrow> tick" where
  "base_latency a op =
    (let l = arb_latency a in
     if kind op = BusBarrier then lat_barrier l
     else if kind op = IFetch then lat_ifetch l
     else if kind op = MmioRead \<or> (kind op = BusRead \<and> is_mmio (phys_addr op)) then lat_mmio_read l
     else if kind op = MmioWrite \<or> (kind op = BusWrite \<and> is_mmio (phys_addr op)) then lat_mmio_write l
     else if kind op = BusWrite then lat_ram_write l
     else lat_ram_read l)"

definition contention_extra :: "bus_arbiter \<Rightarrow> bus_op \<Rightarrow> bool \<Rightarrow> tick" where
  "contention_extra a op had_tie =
    (let extra = (if kind op \<noteq> BusBarrier \<and> has_last_addr a \<and> phys_addr op = last_addr a
                  then lat_same_address_contention (arb_latency a) else 0)
     in if had_tie then extra + lat_tie_turnaround (arb_latency a) else extra)"

text \<open>\<open>(op.req_time > bus_free_time_) ? op.req_time : bus_free_time_\<close>\<close>

definition bus_start :: "bus_arbiter \<Rightarrow> bus_op \<Rightarrow> tick" where
  "bus_start a op = (if req_time op > bus_free_time a then req_time op else bus_free_time a)"

section \<open>Faults\<close>

abbreviation kInvalidBusOpValue :: u32 where "kInvalidBusOpValue \<equiv> 0xBAD0BAD0"

definition with_trace :: "(trace_log \<Rightarrow> trace_log) \<Rightarrow> bus_arbiter \<Rightarrow> bus_arbiter" where
  "with_trace f a = a\<lparr>arb_trace := f (arb_trace a)\<rparr>"

definition inert_response :: "tick \<Rightarrow> bus_response" where
  "inert_response start = \<lparr>rsp_value = kInvalidBusOpValue, rsp_stall = 0, start_time = start,
     commit_time = start, line_base = 0, line_data = []\<rparr>"

definition fault_response :: "bus_arbiter \<Rightarrow> bus_op \<Rightarrow> tick \<Rightarrow> string \<Rightarrow> u32 \<Rightarrow> bus_response \<times> bus_arbiter" where
  "fault_response a op start reason detail =
    (inert_response start,
     with_trace (\<lambda>log. add_commit \<lparr>t_start = start, t_end = start, ce_op = op, ce_stall = 0,
           ce_value = kInvalidBusOpValue, ce_cache_hit = False\<rparr>
         (add_fault \<lparr>fault_t = start, fault_cpu = cpu_id op, fault_pc = 0, fault_detail = detail,
           fault_reason = reason\<rparr> log)) a)"

definition validate_enqueue_contract :: "bus_arbiter \<Rightarrow> bus_op \<Rightarrow> bool \<times> bus_arbiter" where
  "validate_enqueue_contract a op =
    (let slot = producer_slot op in
     if producer_enqueued_seen a slot \<and> req_time op < producer_last_enqueued_req_time a slot
     then (False, snd (fault_response a op (bus_start a op) ''ENQUEUE_NON_MONOTONIC_REQ_TIME''
             (ucast (req_time op AND 0xFFFFFFFF))))
     else (True, a\<lparr>producer_enqueued_seen := (producer_enqueued_seen a)(slot := True),
             producer_last_enqueued_req_time := (producer_last_enqueued_req_time a)(slot := req_time op)\<rparr>))"

section \<open>The commit\<close>

text \<open>
  The memory or device access of \<open>execute_commit\<close>, at the finish time: the value, the cache
  line handed back and the state after.
\<close>

definition perform_access :: "bus_arbiter \<Rightarrow> tick \<Rightarrow> bus_op \<Rightarrow> (u32 \<times> u32 \<times> u8 list) \<times> bus_arbiter" where
  "perform_access a finish op =
    (if kind op = BusBarrier then ((op_data op, 0, []), a)
     else if kind op = BusWrite \<or> kind op = MmioWrite then
       ((op_data op, 0, []),
        if is_mmio (phys_addr op) \<or> kind op = MmioWrite
        then a\<lparr>arb_devices := device_write (arb_devices a) finish (cpu_id op) (phys_addr op) (op_size op) (op_data op)\<rparr>
        else a\<lparr>arb_memory := mem_write (arb_memory a) (phys_addr op) (op_size op) (op_data op)\<rparr>)
     else if is_mmio (phys_addr op) \<or> kind op = MmioRead then
       ((device_read (arb_devices a) finish (cpu_id op) (phys_addr op) (op_size op), 0, []), a)
     else
       (let value = mem_read (arb_memory a) (phys_addr op) (op_size op)
        in if fill_cache_line op \<and> cache_line_size op > 0
           then let lsize = ucast (cache_line_size op); lbase = phys_addr op div lsize
                in ((value, lbase, read_block (arb_memory a) (lbase * lsize) (unat lsize)), a)
           else ((value, 0, []), a)))"

text \<open>
  \<open>execute_commit\<close>, as compiled with \<open>NDEBUG\<close>: a debug build stops at the assertion before the
  first fault.
\<close>

definition execute_commit :: "bus_arbiter \<Rightarrow> bus_op \<Rightarrow> bool \<Rightarrow> bus_response \<times> bus_arbiter" where
  "execute_commit a op had_tie =
    (let validation_error = validate_bus_op op; slot = producer_slot op in
     if validation_error \<noteq> NoError then
       fault_response a op (bus_start a op) ''INVALID_BUS_OP''
         (push_bit 28 (error_code validation_error) OR
          ((phys_addr op AND 0xFFFF) OR push_bit 24 (ucast (op_size op))))
     else if producer_seen a slot \<and> req_time op < producer_last_req_time a slot then
       fault_response a op (bus_start a op) ''NON_MONOTONIC_REQ_TIME'' (ucast (req_time op AND 0xFFFFFFFF))
     else
       let a1 = a\<lparr>producer_seen := (producer_seen a)(slot := True),
                  producer_last_req_time := (producer_last_req_time a)(slot := req_time op)\<rparr>;
           start = bus_start a1 op;
           latency = base_latency a1 op + contention_extra a1 op had_tie;
           finish = start + latency;
           stall = finish - req_time op;
           ((value, lbase, ldata), a2) = perform_access a1 finish op;
           a3 = (if kind op \<noteq> BusBarrier then a2\<lparr>last_addr := phys_addr op, has_last_addr := True\<rparr> else a2);
           a4 = (if had_tie \<and> is_cpu (cpu_id op) then a3\<lparr>last_grant_cpu := cpu_id op\<rparr> else a3);
           a5 = with_trace (add_commit \<lparr>t_start = start, t_end = finish, ce_op = op, ce_stall = stall,
                  ce_value = value, ce_cache_hit = False\<rparr>) (a4\<lparr>bus_free_time := finish\<rparr>)
       in (\<lparr>rsp_value = value, rsp_stall = stall, start_time = start, commit_time = finish,
            line_base = lbase, line_data = ldata\<rparr>, a5))"

definition bus_commit :: "bus_arbiter \<Rightarrow> bus_op \<Rightarrow> bus_response \<times> bus_arbiter" where
  "bus_commit a op =
    (if should_halt (arb_trace a) then (inert_response (bus_free_time a), a)
     else let (ok, a1) = validate_enqueue_contract a op
          in if \<not> ok then (inert_response (bus_free_time a1), a1) else execute_commit a1 op False)"

definition bus_commit_dma :: "bus_arbiter \<Rightarrow> bus_op \<Rightarrow> bus_response \<times> bus_arbiter" where
  "bus_commit_dma a op = bus_commit a (op\<lparr>cpu_id := - 1, producer := ProducerDma\<rparr>)"

section \<open>The commit horizon\<close>

definition has_safe_horizon :: "bus_arbiter \<Rightarrow> bool" where
  "has_safe_horizon a \<longleftrightarrow> (if \<not> progress_tracking_enabled a then True
     else progress_up_to a 0 \<noteq> tick_max \<and> progress_up_to a 1 \<noteq> tick_max)"

definition commit_horizon :: "bus_arbiter \<Rightarrow> tick" where
  "commit_horizon a = min (progress_up_to a 0) (progress_up_to a 1)"

definition update_progress :: "bus_arbiter \<Rightarrow> int \<Rightarrow> tick \<Rightarrow> bus_arbiter" where
  "update_progress a cpu executed_up_to =
    (if \<not> is_cpu cpu then a
     else let a1 = a\<lparr>progress_tracking_enabled := True\<rparr>; slot = progress_up_to a (nat cpu)
          in if slot = tick_max \<or> executed_up_to > slot
             then a1\<lparr>progress_up_to := (progress_up_to a)(nat cpu := executed_up_to)\<rparr> else a1)"

section \<open>Choosing the next operation\<close>

text \<open>
  The loop body of \<open>pick_next\<close>: does the candidate replace the current best? \<open>best_start\<close> is
  always the start of the current best, so it is recomputed here.
\<close>

definition op_beats :: "arbitration_policy_fn \<Rightarrow> bus_arbiter \<Rightarrow> bus_op \<Rightarrow> bus_op \<Rightarrow> bool" where
  "op_beats policy a candidate cur =
    (let start = max (req_time candidate) (bus_free_time a);
         best_start = max (req_time cur) (bus_free_time a)
     in if start < best_start then True
        else if start > best_start then False
        else if producer_slot candidate = producer_slot cur then
          op_sequence candidate < op_sequence cur \<or>
          (op_sequence candidate = op_sequence cur \<and> req_time candidate < req_time cur)
        else if policy candidate > policy cur then True
        else if policy candidate < policy cur then False
        else if is_cpu (cpu_id candidate) \<and> is_cpu (cpu_id cur) \<and> cpu_id candidate \<noteq> cpu_id cur then
          cpu_id candidate = (if last_grant_cpu a = 0 then 1 else 0)
        else if cpu_id candidate \<noteq> cpu_id cur then cpu_id candidate < cpu_id cur
        else op_sequence candidate < op_sequence cur)"

definition pick_next :: "arbitration_policy_fn \<Rightarrow> bus_arbiter \<Rightarrow> commit_result list \<Rightarrow> nat list \<Rightarrow> nat" where
  "pick_next policy a pending committable =
     pick_best (op_beats policy a) (map cr_op pending) committable (hd committable)"

definition committable_indices :: "bus_arbiter \<Rightarrow> commit_result list \<Rightarrow> nat list" where
  "committable_indices a pending =
     filter (\<lambda>i. \<not> progress_tracking_enabled a \<or>
         (has_safe_horizon a \<and> req_time (cr_op (pending ! i)) < commit_horizon a)) [0..<length pending]"

definition tie_at :: "arbitration_policy_fn \<Rightarrow> bus_arbiter \<Rightarrow> commit_result list \<Rightarrow> nat list \<Rightarrow> nat \<Rightarrow> bool" where
  "tie_at policy a pending committable next_idx =
    (let chosen = cr_op (pending ! next_idx); next_start = max (req_time chosen) (bus_free_time a)
     in list_ex (\<lambda>i. i \<noteq> next_idx \<and>
          max (req_time (cr_op (pending ! i))) (bus_free_time a) = next_start \<and>
          policy (cr_op (pending ! i)) = policy chosen) committable)"

definition erase_at :: "nat \<Rightarrow> 'a list \<Rightarrow> 'a list" where
  "erase_at i xs = take i xs @ drop (Suc i) xs"

lemma pick_next_range:
  assumes "committable_indices a pending \<noteq> []"
  shows "pick_next policy a pending (committable_indices a pending) < length pending"
proof -
  let ?c = "committable_indices a pending"
  have "pick_next policy a pending ?c \<in> insert (hd ?c) (set ?c)"
    unfolding pick_next_def by (rule pick_best_in)
  then have "pick_next policy a pending ?c \<in> set ?c" using assms by auto
  then show ?thesis by (auto simp: committable_indices_def)
qed

lemma length_erase_at [simp]: "i < length xs \<Longrightarrow> length (erase_at i xs) = length xs - 1"
  by (simp add: erase_at_def)

text \<open>The \<open>while\<close> loop of \<open>commit_batch\<close>: what it appends to \<open>committed\<close>, and the arbiter after.\<close>

function batch_loop ::
    "arbitration_policy_fn \<Rightarrow> bus_arbiter \<Rightarrow> commit_result list \<Rightarrow> commit_result list \<times> bus_arbiter" where
  "batch_loop policy a pending =
    (if pending = [] \<or> should_halt (arb_trace a) then ([], a)
     else let committable = committable_indices a pending in
       if committable = [] then ([], a)
       else let next_idx = pick_next policy a pending committable;
                had_tie = tie_at policy a pending committable next_idx;
                chosen = pending ! next_idx;
                (rsp, a1) = execute_commit a (cr_op chosen) had_tie;
                (rest, a2) = batch_loop policy a1 (erase_at next_idx pending)
            in (chosen\<lparr>response := rsp\<rparr> # rest, a2))"
  by pat_completeness auto

termination
proof (relation "measure (\<lambda>(policy, a, pending). length pending)", goal_cases)
  case (2 policy a pending)
  then show ?case using pick_next_range [of a pending policy] by auto
qed simp

declare batch_loop.simps [simp del]

definition blank_response :: bus_response where
  "blank_response = \<lparr>rsp_value = 0, rsp_stall = 0, start_time = 0, commit_time = 0, line_base = 0, line_data = []\<rparr>"

text \<open>The enqueue loop of \<open>commit_batch\<close>, from input index \<open>i\<close>.\<close>

fun enqueue_loop :: "bus_arbiter \<Rightarrow> nat \<Rightarrow> bus_op list \<Rightarrow> commit_result list \<times> bus_arbiter" where
  "enqueue_loop a i [] = ([], a)"
| "enqueue_loop a i (op # ops) =
    (if should_halt (arb_trace a) then ([], a)
     else let (ok, a1) = validate_enqueue_contract a op;
              (rest, a2) = enqueue_loop a1 (Suc i) ops
          in (if ok then \<lparr>input_index = i, cr_op = op, response = blank_response\<rparr> # rest else rest, a2))"

definition commit_batch :: "arbitration_policy_fn \<Rightarrow> bus_arbiter \<Rightarrow> bus_op list \<Rightarrow> commit_result list \<times> bus_arbiter" where
  "commit_batch policy a ops =
    (let a1 = a\<lparr>producer_enqueued_seen := (\<lambda>_. False), producer_last_enqueued_req_time := (\<lambda>_. 0)\<rparr>;
         (pending, a2) = enqueue_loop a1 0 ops
     in batch_loop policy a2 pending)"

text \<open>\<open>commit_pending\<close> also returns the operations it leaves in \<open>pending_ops\<close>.\<close>

definition commit_pending :: "arbitration_policy_fn \<Rightarrow> bus_arbiter \<Rightarrow> bus_op list \<Rightarrow>
    commit_result list \<times> bus_op list \<times> bus_arbiter" where
  "commit_pending policy a pending_ops =
    (let (committed, a1) = commit_batch policy a pending_ops
     in if committed = [] then (committed, pending_ops, a1)
        else (committed,
              map ((!) pending_ops) (filter (\<lambda>i. i \<notin> input_index ` set committed) [0..<length pending_ops]),
              a1))"

section \<open>One commit\<close>

definition accepted :: "bus_arbiter \<Rightarrow> bus_op \<Rightarrow> bool" where
  "accepted a op \<longleftrightarrow> validate_bus_op op = NoError \<and>
     \<not> (producer_seen a (producer_slot op) \<and> req_time op < producer_last_req_time a (producer_slot op))"

definition commit_finish :: "bus_arbiter \<Rightarrow> bus_op \<Rightarrow> bool \<Rightarrow> tick" where
  "commit_finish a op tie = bus_start a op + (base_latency a op + contention_extra a op tie)"

lemma perform_access_frame [simp]:
  "arb_trace (snd (perform_access a t op)) = arb_trace a"
  "arb_latency (snd (perform_access a t op)) = arb_latency a"
  "bus_free_time (snd (perform_access a t op)) = bus_free_time a"
  "last_grant_cpu (snd (perform_access a t op)) = last_grant_cpu a"
  "has_last_addr (snd (perform_access a t op)) = has_last_addr a"
  "last_addr (snd (perform_access a t op)) = last_addr a"
  "progress_tracking_enabled (snd (perform_access a t op)) = progress_tracking_enabled a"
  "progress_up_to (snd (perform_access a t op)) = progress_up_to a"
  "producer_last_req_time (snd (perform_access a t op)) = producer_last_req_time a"
  "producer_seen (snd (perform_access a t op)) = producer_seen a"
  "producer_last_enqueued_req_time (snd (perform_access a t op)) = producer_last_enqueued_req_time a"
  "producer_enqueued_seen (snd (perform_access a t op)) = producer_enqueued_seen a"
  by (simp_all add: perform_access_def Let_def)

lemma timing_cong [simp]:
  "base_latency (a\<lparr>producer_seen := s, producer_last_req_time := l\<rparr>) = base_latency a"
  "contention_extra (a\<lparr>producer_seen := s, producer_last_req_time := l\<rparr>) = contention_extra a"
  "bus_start (a\<lparr>producer_seen := s, producer_last_req_time := l\<rparr>) = bus_start a"
  by (auto simp: fun_eq_iff base_latency_def contention_extra_def bus_start_def Let_def)

text \<open>The values an access returns depend on the memory and the devices only.\<close>

lemma perform_access_cong:
  "arb_memory a = arb_memory b \<Longrightarrow> arb_devices a = arb_devices b \<Longrightarrow>
    fst (perform_access a t op) = fst (perform_access b t op) \<and>
    arb_memory (snd (perform_access a t op)) = arb_memory (snd (perform_access b t op)) \<and>
    arb_devices (snd (perform_access a t op)) = arb_devices (snd (perform_access b t op))"
  by (simp add: perform_access_def Let_def)

lemma with_trace_simps [simp]:
  "arb_trace (with_trace f a) = f (arb_trace a)"
  "arb_memory (with_trace f a) = arb_memory a"
  "arb_devices (with_trace f a) = arb_devices a"
  "arb_latency (with_trace f a) = arb_latency a"
  "bus_free_time (with_trace f a) = bus_free_time a"
  "last_grant_cpu (with_trace f a) = last_grant_cpu a"
  "has_last_addr (with_trace f a) = has_last_addr a"
  "last_addr (with_trace f a) = last_addr a"
  "progress_tracking_enabled (with_trace f a) = progress_tracking_enabled a"
  "progress_up_to (with_trace f a) = progress_up_to a"
  "producer_last_req_time (with_trace f a) = producer_last_req_time a"
  "producer_seen (with_trace f a) = producer_seen a"
  "producer_last_enqueued_req_time (with_trace f a) = producer_last_enqueued_req_time a"
  "producer_enqueued_seen (with_trace f a) = producer_enqueued_seen a"
  by (simp_all add: with_trace_def)

lemma log_simps [simp]:
  "events (add_commit e log) = events log @ [CommitLine e]"
  "should_halt (add_commit e log) = should_halt log"
  "halt_on_fault (add_commit e log) = halt_on_fault log"
  "events (add_fault f log) = events log @ [FaultLine f]"
  "should_halt (add_fault f log) = (should_halt log \<or> halt_on_fault log)"
  "halt_on_fault (add_fault f log) = halt_on_fault log"
  by (simp_all add: add_commit_def add_fault_def Let_def)

lemma execute_rejected:
  assumes "\<not> accepted a op"
  obtains reason detail where
    "execute_commit a op tie = fault_response a op (bus_start a op) reason detail"
proof (cases "validate_bus_op op = NoError")
  case True
  then show ?thesis
    using assms by (intro that) (simp add: accepted_def execute_commit_def)
next
  case False
  then show ?thesis by (intro that) (simp add: execute_commit_def Let_def)
qed

lemma execute_accepted:
  assumes "accepted a op"
  shows "execute_commit a op tie =
    (let a1 = a\<lparr>producer_seen := (producer_seen a)(producer_slot op := True),
                producer_last_req_time := (producer_last_req_time a)(producer_slot op := req_time op)\<rparr>;
         finish = commit_finish a op tie; ((value, lbase, ldata), a2) = perform_access a1 finish op;
         a3 = (if kind op \<noteq> BusBarrier then a2\<lparr>last_addr := phys_addr op, has_last_addr := True\<rparr> else a2);
         a4 = (if tie \<and> is_cpu (cpu_id op) then a3\<lparr>last_grant_cpu := cpu_id op\<rparr> else a3)
     in (\<lparr>rsp_value = value, rsp_stall = finish - req_time op, start_time = bus_start a op, commit_time = finish,
          line_base = lbase, line_data = ldata\<rparr>,
         with_trace (add_commit \<lparr>t_start = bus_start a op, t_end = finish, ce_op = op,
           ce_stall = finish - req_time op, ce_value = value, ce_cache_hit = False\<rparr>)
           (a4\<lparr>bus_free_time := finish\<rparr>)))"
  using assms by (auto simp: accepted_def execute_commit_def Let_def commit_finish_def)

lemma execute_accepted_facts:
  assumes "accepted a op"
  shows "start_time (fst (execute_commit a op tie)) = bus_start a op"
    and "commit_time (fst (execute_commit a op tie)) = commit_finish a op tie"
    and "rsp_stall (fst (execute_commit a op tie)) = commit_finish a op tie - req_time op"
    and "bus_free_time (snd (execute_commit a op tie)) = commit_finish a op tie"
    and "last_grant_cpu (snd (execute_commit a op tie)) =
      (if tie \<and> is_cpu (cpu_id op) then cpu_id op else last_grant_cpu a)"
    and "producer_seen (snd (execute_commit a op tie)) = (producer_seen a)(producer_slot op := True)"
    and "producer_last_req_time (snd (execute_commit a op tie)) =
      (producer_last_req_time a)(producer_slot op := req_time op)"
    and "events (arb_trace (snd (execute_commit a op tie))) = events (arb_trace a) @
      [CommitLine \<lparr>t_start = bus_start a op, t_end = commit_finish a op tie, ce_op = op,
         ce_stall = commit_finish a op tie - req_time op,
         ce_value = rsp_value (fst (execute_commit a op tie)), ce_cache_hit = False\<rparr>]"
    and "should_halt (arb_trace (snd (execute_commit a op tie))) = should_halt (arb_trace a)"
  using assms by (simp_all add: execute_accepted Let_def split_def)

lemma execute_rejected_facts:
  assumes "\<not> accepted a op"
  shows "fst (execute_commit a op tie) = inert_response (bus_start a op)"
    and "\<exists>reason detail. snd (execute_commit a op tie) = with_trace (\<lambda>log. add_commit \<lparr>t_start = bus_start a op,
           t_end = bus_start a op, ce_op = op, ce_stall = 0, ce_value = kInvalidBusOpValue, ce_cache_hit = False\<rparr>
         (add_fault \<lparr>fault_t = bus_start a op, fault_cpu = cpu_id op, fault_pc = 0, fault_detail = detail,
           fault_reason = reason\<rparr> log)) a"
proof -
  obtain reason detail where e: "execute_commit a op tie = fault_response a op (bus_start a op) reason detail"
    using assms by (rule execute_rejected)
  show "fst (execute_commit a op tie) = inert_response (bus_start a op)"
    by (simp add: e fault_response_def)
  show "\<exists>reason detail. snd (execute_commit a op tie) = with_trace (\<lambda>log. add_commit \<lparr>t_start = bus_start a op,
           t_end = bus_start a op, ce_op = op, ce_stall = 0, ce_value = kInvalidBusOpValue, ce_cache_hit = False\<rparr>
         (add_fault \<lparr>fault_t = bus_start a op, fault_cpu = cpu_id op, fault_pc = 0, fault_detail = detail,
           fault_reason = reason\<rparr> log)) a"
    unfolding e fault_response_def snd_conv by blast
qed

text \<open>What no commit changes.\<close>

definition commit_frame :: "bus_arbiter \<Rightarrow> bus_arbiter \<Rightarrow> bool" where
  "commit_frame a b \<longleftrightarrow> arb_latency b = arb_latency a \<and>
     progress_tracking_enabled b = progress_tracking_enabled a \<and> progress_up_to b = progress_up_to a \<and>
     producer_last_enqueued_req_time b = producer_last_enqueued_req_time a \<and>
     producer_enqueued_seen b = producer_enqueued_seen a \<and>
     halt_on_fault (arb_trace b) = halt_on_fault (arb_trace a)"

lemma execute_commit_frame: "commit_frame a (snd (execute_commit a op tie))"
proof (cases "accepted a op")
  case True
  then show ?thesis by (simp add: commit_frame_def execute_accepted Let_def split_def)
next
  case False
  then obtain r d where "snd (execute_commit a op tie) = snd (fault_response a op (bus_start a op) r d)"
    by (metis execute_rejected)
  then show ?thesis by (simp add: commit_frame_def fault_response_def)
qed

lemma execute_frame [simp]:
  "arb_latency (snd (execute_commit a op tie)) = arb_latency a"
  "progress_tracking_enabled (snd (execute_commit a op tie)) = progress_tracking_enabled a"
  "progress_up_to (snd (execute_commit a op tie)) = progress_up_to a"
  "producer_last_enqueued_req_time (snd (execute_commit a op tie)) = producer_last_enqueued_req_time a"
  "producer_enqueued_seen (snd (execute_commit a op tie)) = producer_enqueued_seen a"
  "halt_on_fault (arb_trace (snd (execute_commit a op tie))) = halt_on_fault (arb_trace a)"
  "has_safe_horizon (snd (execute_commit a op tie)) = has_safe_horizon a"
  "commit_horizon (snd (execute_commit a op tie)) = commit_horizon a"
  using execute_commit_frame [of a op tie]
  by (simp_all add: commit_frame_def has_safe_horizon_def commit_horizon_def)

lemma committable_execute [simp]:
  "committable_indices (snd (execute_commit a op tie)) = committable_indices a"
  by (simp add: fun_eq_iff committable_indices_def)

section \<open>The batch loop\<close>

lemma batch_loop_stop:
  "pending = [] \<or> should_halt (arb_trace a) \<or> committable_indices a pending = [] \<Longrightarrow>
    batch_loop policy a pending = ([], a)"
  by (subst batch_loop.simps) auto

text \<open>The choice the loop makes: the index, and whether it was a tie.\<close>

definition batch_choice :: "arbitration_policy_fn \<Rightarrow> bus_arbiter \<Rightarrow> commit_result list \<Rightarrow> nat \<times> bool" where
  "batch_choice policy a pending =
    (let c = committable_indices a pending; i = pick_next policy a pending c in (i, tie_at policy a pending c i))"

lemma batch_loop_step:
  assumes "\<not> should_halt (arb_trace a)" "committable_indices a pending \<noteq> []"
    and "batch_choice policy a pending = (i, tie)"
    and "execute_commit a (cr_op (pending ! i)) tie = (rsp, a1)"
  shows "batch_loop policy a pending =
      ((pending ! i)\<lparr>response := rsp\<rparr> # fst (batch_loop policy a1 (erase_at i pending)),
       snd (batch_loop policy a1 (erase_at i pending)))"
proof -
  have "pending \<noteq> []" using assms(2) by (auto simp: committable_indices_def)
  then show ?thesis
    using assms by (subst batch_loop.simps) (auto simp: batch_choice_def Let_def split: prod.splits)
qed

lemma batch_choice_range:
  assumes "committable_indices a pending \<noteq> []" "batch_choice policy a pending = (i, tie)"
  shows "i < length pending" and "i \<in> set (committable_indices a pending)"
proof -
  let ?c = "committable_indices a pending"
  have "i \<in> insert (hd ?c) (set ?c)"
    using assms(2) pick_best_in by (auto simp: batch_choice_def Let_def pick_next_def)
  then show i: "i \<in> set ?c" using assms(1) by auto
  then show "i < length pending" by (auto simp: committable_indices_def)
qed

text \<open>Induction over the rounds of the batch.\<close>

lemma batch_induct [consumes 0, case_names stop round]:
  assumes "\<And>a pending. pending = [] \<or> should_halt (arb_trace a) \<or> committable_indices a pending = [] \<Longrightarrow>
      batch_loop policy a pending = ([], a) \<Longrightarrow> P a pending"
    and "\<And>a pending i tie rsp a1. \<not> should_halt (arb_trace a) \<Longrightarrow> committable_indices a pending \<noteq> [] \<Longrightarrow>
      batch_choice policy a pending = (i, tie) \<Longrightarrow> i < length pending \<Longrightarrow>
      i \<in> set (committable_indices a pending) \<Longrightarrow>
      execute_commit a (cr_op (pending ! i)) tie = (rsp, a1) \<Longrightarrow>
      batch_loop policy a pending = ((pending ! i)\<lparr>response := rsp\<rparr> # fst (batch_loop policy a1 (erase_at i pending)),
        snd (batch_loop policy a1 (erase_at i pending))) \<Longrightarrow> P a1 (erase_at i pending) \<Longrightarrow> P a pending"
  shows "P a pending"
proof (induction "length pending" arbitrary: a pending rule: less_induct)
  case less
  show ?case
  proof (cases "pending = [] \<or> should_halt (arb_trace a) \<or> committable_indices a pending = []")
    case True
    then show ?thesis by (intro assms(1) batch_loop_stop)
  next
    case False
    obtain i tie where c: "batch_choice policy a pending = (i, tie)" by fastforce
    obtain rsp a1 where e: "execute_commit a (cr_op (pending ! i)) tie = (rsp, a1)" by fastforce
    have h: "\<not> should_halt (arb_trace a)" and n: "committable_indices a pending \<noteq> []"
      using False by simp_all
    note i = batch_choice_range [OF n c]
    have "P a1 (erase_at i pending)" using i(1) by (intro less) simp
    then show ?thesis by (rule assms(2) [OF h n c i e batch_loop_step [OF h n c e]])
  qed
qed

lemma mset_erase_at: "i < length xs \<Longrightarrow> mset (erase_at i xs) = mset xs - {# xs ! i #}"
proof -
  assume i: "i < length xs"
  then have "mset xs = mset (take i xs @ xs ! i # drop (Suc i) xs)" by (simp add: id_take_nth_drop [symmetric])
  then show ?thesis by (simp add: erase_at_def)
qed

lemma set_erase_at: "set (erase_at i xs) \<subseteq> set xs"
  by (auto simp: erase_at_def dest: in_set_takeD in_set_dropD)

text \<open>What a batch commits, and in which state it leaves the bookkeeping.\<close>

definition ready :: "bus_arbiter \<Rightarrow> bus_op \<Rightarrow> bool" where
  "ready a op \<longleftrightarrow> \<not> progress_tracking_enabled a \<or> (has_safe_horizon a \<and> req_time op < commit_horizon a)"

lemma committable_ready:
  "set (committable_indices a pending) = {i. i < length pending \<and> ready a (cr_op (pending ! i))}"
  by (auto simp: committable_indices_def ready_def)

lemma ready_execute [simp]: "ready (snd (execute_commit a op tie)) = ready a"
  by (simp add: fun_eq_iff ready_def)

definition strip :: "commit_result \<Rightarrow> nat \<times> bus_op" where
  "strip r = (input_index r, cr_op r)"

lemma strip_response [simp]: "strip (r\<lparr>response := x\<rparr>) = strip r"
  by (simp add: strip_def)

lemma mset_erase_map:
  assumes "i < length xs"
  shows "mset (map f xs) = add_mset (f (xs ! i)) (mset (map f (erase_at i xs)))"
proof -
  have "map f xs = map f (take i xs @ xs ! i # drop (Suc i) xs)"
    using assms by (simp only: id_take_nth_drop [symmetric])
  then show ?thesis by (simp add: erase_at_def)
qed

lemma should_halt_execute:
  "should_halt (arb_trace (snd (execute_commit a op tie))) \<longleftrightarrow>
     should_halt (arb_trace a) \<or> (\<not> accepted a op \<and> halt_on_fault (arb_trace a))"
  using execute_rejected_facts(2) [of a op tie] by (cases "accepted a op") (auto simp: execute_accepted_facts)

lemma batch_subset:
  "mset (map strip (fst (batch_loop policy a pending))) \<subseteq># mset (map strip pending) \<and>
   (\<forall>r \<in> set (fst (batch_loop policy a pending)). ready a (cr_op r)) \<and>
   commit_frame a (snd (batch_loop policy a pending))"
proof (induction a pending rule: batch_induct [where policy = policy])
  case (stop a pending)
  then show ?case by (simp add: commit_frame_def)
next
  case (round a pending i tie rsp a1)
  have a1: "a1 = snd (execute_commit a (cr_op (pending ! i)) tie)" using round(6) by simp
  have m: "mset (map strip pending) = add_mset (strip (pending ! i)) (mset (map strip (erase_at i pending)))"
    using round(4) by (rule mset_erase_map)
  have "ready a (cr_op (pending ! i))" using round(5) by (simp add: committable_ready)
  moreover have "commit_frame a a1" unfolding a1 by (rule execute_commit_frame)
  ultimately show ?case
    using round(7,8) m by (auto simp: a1 commit_frame_def)
qed

lemma mset_filter_erase:
  assumes "i < length xs" "P (xs ! i)"
  shows "mset (map f (filter P xs)) = add_mset (f (xs ! i)) (mset (map f (filter P (erase_at i xs))))"
proof -
  have "filter P xs = filter P (take i xs @ xs ! i # drop (Suc i) xs)"
    using assms(1) by (simp only: id_take_nth_drop [symmetric])
  then show ?thesis using assms(2) by (simp add: erase_at_def)
qed

lemma batch_complete:
  assumes "\<not> should_halt (arb_trace a)" "\<not> halt_on_fault (arb_trace a)"
  shows "mset (map strip (fst (batch_loop policy a pending))) =
    mset (map strip (filter (\<lambda>r. ready a (cr_op r)) pending))"
  using assms
proof (induction a pending rule: batch_induct [where policy = policy])
  case (stop a pending)
  then have "committable_indices a pending = []" by (auto simp: committable_indices_def)
  then have "\<not> ready a (cr_op (pending ! i))" if "i < length pending" for i
    using committable_ready [of a pending] that by simp
  then have "filter (\<lambda>r. ready a (cr_op r)) pending = []"
    by (auto simp: filter_empty_conv in_set_conv_nth)
  then show ?case by (simp add: stop(2))
next
  case (round a pending i tie rsp a1)
  have a1: "a1 = snd (execute_commit a (cr_op (pending ! i)) tie)" using round(6) by simp
  have r: "ready a (cr_op (pending ! i))" using round(5) by (simp add: committable_ready)
  have "\<not> should_halt (arb_trace a1)" "\<not> halt_on_fault (arb_trace a1)"
    using round(9,10) by (simp_all add: a1 should_halt_execute)
  from round(8) [OF this] show ?case
    unfolding mset_filter_erase [of i pending "\<lambda>r. ready a (cr_op r)" strip, OF round(4) r] round(7)
    by (simp add: a1)
qed

text \<open>The bus intervals of a batch.\<close>

definition max_latency :: "latency_model \<Rightarrow> nat" where
  "max_latency l = unat (lat_ram_read l) + unat (lat_ram_write l) + unat (lat_ifetch l) +
     unat (lat_mmio_read l) + unat (lat_mmio_write l) + unat (lat_barrier l) +
     unat (lat_same_address_contention l) + unat (lat_tie_turnaround l)"

lemma latency_bound:
  assumes "max_latency (arb_latency a) < 18446744073709551616"
  shows "unat (base_latency a op + contention_extra a op tie) \<le> max_latency (arb_latency a)"
proof -
  let ?l = "arb_latency a"
  have b: "unat (base_latency a op) \<le> unat (lat_ram_read ?l) + unat (lat_ram_write ?l) + unat (lat_ifetch ?l) +
     unat (lat_mmio_read ?l) + unat (lat_mmio_write ?l) + unat (lat_barrier ?l)"
    by (simp add: base_latency_def Let_def)
  have c: "unat (contention_extra a op tie) \<le> unat (lat_same_address_contention ?l) + unat (lat_tie_turnaround ?l)"
    using assms by (simp add: contention_extra_def Let_def max_latency_def unat_word_ariths)
  show ?thesis using b c assms by (simp add: max_latency_def unat_word_ariths)
qed

lemma bus_start_max: "bus_start a op = max (req_time op) (bus_free_time a)"
  by (auto simp: bus_start_def max_def)

lemma commit_finish_bound:
  assumes "unat (bus_free_time a) \<le> T" "unat (req_time op) \<le> T"
    "T + max_latency (arb_latency a) < 18446744073709551616"
  shows "bus_start a op \<le> commit_finish a op tie" and "bus_free_time a \<le> bus_start a op"
    and "unat (commit_finish a op tie) \<le> T + max_latency (arb_latency a)"
proof -
  have s: "unat (bus_start a op) \<le> T" using assms(1,2) by (simp add: bus_start_def)
  have l: "unat (base_latency a op + contention_extra a op tie) \<le> max_latency (arb_latency a)"
    using assms(3) by (intro latency_bound) simp
  have e: "unat (commit_finish a op tie) =
      unat (bus_start a op) + unat (base_latency a op + contention_extra a op tie)"
    unfolding commit_finish_def using s l assms(3)
    by (simp add: unat_word_ariths(1) [of "bus_start a op"])
  show "bus_start a op \<le> commit_finish a op tie" using e by (simp add: word_le_nat_alt)
  show "bus_free_time a \<le> bus_start a op" by (simp add: bus_start_max)
  show "unat (commit_finish a op tie) \<le> T + max_latency (arb_latency a)" using e s l by simp
qed

text \<open>A granted operation occupied the bus; a rejected one starts and commits at one instant.\<close>

definition granted :: "commit_result \<Rightarrow> bool" where
  "granted r \<longleftrightarrow> start_time (response r) \<noteq> commit_time (response r)"

definition serial :: "commit_result list \<Rightarrow> bool" where
  "serial rs \<longleftrightarrow> sorted_wrt (\<lambda>x y. granted x \<longrightarrow> commit_time (response x) \<le> start_time (response y)) rs"

lemma batch_serial:
  assumes "unat (bus_free_time a) \<le> T" "\<forall>r \<in> set pending. unat (req_time (cr_op r)) \<le> T"
    "T + length pending * max_latency (arb_latency a) < 18446744073709551616"
  shows "serial (fst (batch_loop policy a pending)) \<and>
    (\<forall>r \<in> set (fst (batch_loop policy a pending)).
       max (req_time (cr_op r)) (bus_free_time a) \<le> start_time (response r) \<and>
       start_time (response r) \<le> commit_time (response r))"
  using assms
proof (induction a pending arbitrary: T rule: batch_induct [where policy = policy])
  case (stop a pending)
  then show ?case by (simp add: serial_def)
next
  case (round a pending i tie rsp a1)
  let ?op = "cr_op (pending ! i)" and ?L = "max_latency (arb_latency a)"
  have r: "rsp = fst (execute_commit a ?op tie)" and a1: "a1 = snd (execute_commit a ?op tie)"
    using round(6) by simp_all
  have op: "unat (req_time ?op) \<le> T" using round(4,10) by simp
  have len: "length pending = Suc (length (erase_at i pending))" using round(4) by simp
  have b: "T + ?L < 18446744073709551616" using round(11) len by simp
  note f = commit_finish_bound [OF round(9) op b]
  have next_free: "bus_free_time a \<le> bus_free_time a1 \<and> unat (bus_free_time a1) \<le> T + ?L \<and>
      start_time rsp = max (req_time ?op) (bus_free_time a) \<and> start_time rsp \<le> commit_time rsp \<and>
      (start_time rsp \<noteq> commit_time rsp \<longrightarrow> commit_time rsp = bus_free_time a1)"
  proof (cases "accepted a ?op")
    case True
    have "bus_free_time a \<le> commit_finish a ?op tie" using f(2) f(1) [of tie] by (rule order_trans)
    then show ?thesis using f(2) f(1,3) [of tie] by (simp add: r a1 execute_accepted_facts [OF True] bus_start_max)
  next
    case False
    then have "bus_free_time a1 = bus_free_time a"
      using execute_rejected_facts(2) [OF False, of tie] by (auto simp: a1)
    then show ?thesis using round(9) by (simp add: r execute_rejected_facts(1) [OF False] inert_response_def bus_start_max)
  qed
  have "serial (fst (batch_loop policy a1 (erase_at i pending))) \<and>
    (\<forall>r \<in> set (fst (batch_loop policy a1 (erase_at i pending))).
       max (req_time (cr_op r)) (bus_free_time a1) \<le> start_time (response r) \<and>
       start_time (response r) \<le> commit_time (response r))"
  proof (rule round(8) [of "T + ?L"])
    show "\<forall>r \<in> set (erase_at i pending). unat (req_time (cr_op r)) \<le> T + ?L"
      using round(10) set_erase_at [of i pending] by fastforce
    show "T + ?L + length (erase_at i pending) * max_latency (arb_latency a1) < 18446744073709551616"
      using round(11) by (simp add: len a1 del: length_erase_at)
  qed (use next_free in simp)
  then show ?case
    using next_free unfolding round(7) by (auto simp: serial_def granted_def)
qed

section \<open>The enqueue loop\<close>

lemma validate_frame:
  assumes "validate_enqueue_contract a op = (ok, a1)"
  shows "arb_latency a1 = arb_latency a" "progress_tracking_enabled a1 = progress_tracking_enabled a"
    "progress_up_to a1 = progress_up_to a" "bus_free_time a1 = bus_free_time a"
    "arb_memory a1 = arb_memory a" "arb_devices a1 = arb_devices a"
    "producer_seen a1 = producer_seen a" "producer_last_req_time a1 = producer_last_req_time a"
    "halt_on_fault (arb_trace a1) = halt_on_fault (arb_trace a)" "last_grant_cpu a1 = last_grant_cpu a"
  using assms by (auto simp: validate_enqueue_contract_def Let_def fault_response_def split: if_splits)

definition entry :: "nat \<times> bus_op \<Rightarrow> commit_result" where
  "entry p = \<lparr>input_index = fst p, cr_op = snd p, response = blank_response\<rparr>"

lemma entry_simps [simp]: "strip (entry p) = p" "cr_op (entry p) = snd p" "input_index (entry p) = fst p"
  by (simp_all add: strip_def entry_def)

lemma enqueue_subseq:
  "\<exists>ps. fst (enqueue_loop a i ops) = map entry ps \<and> subseq ps (enumerate i ops)"
proof (induction ops arbitrary: a i)
  case Nil
  then show ?case by simp
next
  case (Cons op ops)
  show ?case
  proof (cases "should_halt (arb_trace a)")
    case False
    obtain ok a1 where v: "validate_enqueue_contract a op = (ok, a1)" by fastforce
    obtain ps where ps: "fst (enqueue_loop a1 (Suc i) ops) = map entry ps" "subseq ps (enumerate (Suc i) ops)"
      using Cons.IH by blast
    show ?thesis
      using False v ps
      by (intro exI [of _ "if ok then (i, op) # ps else ps"]) (auto simp: Let_def split_def entry_def)
  qed auto
qed

lemma enqueue_frame:
  "enqueue_loop a i ops = (pending, a1) \<Longrightarrow> arb_latency a1 = arb_latency a \<and> bus_free_time a1 = bus_free_time a \<and>
    progress_tracking_enabled a1 = progress_tracking_enabled a \<and> progress_up_to a1 = progress_up_to a \<and>
    halt_on_fault (arb_trace a1) = halt_on_fault (arb_trace a) \<and> last_grant_cpu a1 = last_grant_cpu a"
proof (induction ops arbitrary: a i pending)
  case (Cons op ops)
  show ?case
    using Cons.prems Cons.IH validate_frame [of a op]
    by (auto simp: Let_def split_def split: if_splits) (metis prod.collapse)+
qed simp

definition note_request :: "bus_op \<Rightarrow> (nat \<Rightarrow> tick) \<Rightarrow> nat \<Rightarrow> tick" where
  "note_request op m = m(producer_slot op := req_time op)"

text \<open>Requests in per-producer time order all pass the enqueue contract.\<close>

definition slot_monotone :: "bus_op list \<Rightarrow> bool" where
  "slot_monotone = sorted_wrt (\<lambda>x y. producer_slot x = producer_slot y \<longrightarrow> req_time x \<le> req_time y)"

lemma enqueue_all:
  assumes "slot_monotone ops" "\<not> should_halt (arb_trace a)"
    "\<forall>op \<in> set ops. producer_enqueued_seen a (producer_slot op) \<longrightarrow>
       producer_last_enqueued_req_time a (producer_slot op) \<le> req_time op"
  shows "fst (enqueue_loop a i ops) = map entry (enumerate i ops) \<and>
    snd (enqueue_loop a i ops) =
      a\<lparr>producer_enqueued_seen := (\<lambda>s. producer_enqueued_seen a s \<or> s \<in> producer_slot ` set ops),
        producer_last_enqueued_req_time := fold note_request ops
          (producer_last_enqueued_req_time a)\<rparr>"
  using assms
proof (induction ops arbitrary: a i)
  case (Cons op ops)
  let ?a = "a\<lparr>producer_enqueued_seen := (producer_enqueued_seen a)(producer_slot op := True),
       producer_last_enqueued_req_time := note_request op (producer_last_enqueued_req_time a)\<rparr>"
  have v: "validate_enqueue_contract a op = (True, ?a)"
    using Cons.prems(3) by (auto simp: validate_enqueue_contract_def Let_def not_less note_request_def)
  have IH: "fst (enqueue_loop ?a (Suc i) ops) = map entry (enumerate (Suc i) ops) \<and>
    snd (enqueue_loop ?a (Suc i) ops) =
      ?a\<lparr>producer_enqueued_seen := (\<lambda>s. producer_enqueued_seen ?a s \<or> s \<in> producer_slot ` set ops),
        producer_last_enqueued_req_time := fold note_request ops
          (producer_last_enqueued_req_time ?a)\<rparr>"
    using Cons.prems by (intro Cons.IH) (auto simp: slot_monotone_def note_request_def)
  have s: "(\<lambda>s. producer_enqueued_seen ?a s \<or> s \<in> producer_slot ` set ops) =
      (\<lambda>s. producer_enqueued_seen a s \<or> s \<in> producer_slot ` set (op # ops))" by auto
  show ?case
    using IH Cons.prems(2) by (simp add: v Let_def split_def entry_def s [simplified])
qed simp

section \<open>Arbitration policies\<close>

text \<open>
  The contract of \<open>ArbitrationPolicy\<close>: the DMA class is given to exactly the operations with a
  negative CPU number, the way \<open>commit_dma\<close> marks them.
\<close>

locale arbitration_policy =
  fixes policy :: arbitration_policy_fn
  assumes dma_class: "policy op = PrioDma \<longleftrightarrow> cpu_id op < 0"

text \<open>An operation whose producer tag agrees with its CPU number.\<close>

definition wf_op :: "bus_op \<Rightarrow> bool" where
  "wf_op op \<longleftrightarrow> (is_cpu (cpu_id op) \<and> producer op \<noteq> ProducerDma) \<or>
     (cpu_id op < 0 \<and> producer op \<noteq> ProducerCpu)"

definition cpu_rank :: "bus_arbiter \<Rightarrow> bus_op \<Rightarrow> nat" where
  "cpu_rank a op = (if cpu_id op = (if last_grant_cpu a = 0 then 1 else 0) then 0 else 1)"

text \<open>Start time first, then class, then the CPU whose turn it is.\<close>

definition op_key :: "arbitration_policy_fn \<Rightarrow> bus_arbiter \<Rightarrow> bus_op \<Rightarrow> nat" where
  "op_key policy a op = 6 * unat (max (req_time op) (bus_free_time a)) +
     2 * (2 - priority_code (policy op)) + cpu_rank a op"

lemma slot_wf:
  "wf_op op \<Longrightarrow> producer_slot op = (if cpu_id op < 0 then 2 else nat (cpu_id op))"
  by (auto simp: wf_op_def producer_slot_def is_cpu_def intro: bus_producer.exhaust [of "producer op"])

lemma priority_code_less: "priority_code p \<le> 2"
  by (cases p) simp_all

lemma key_compare:
  fixes s s' p p' r r' :: nat
  assumes "p \<le> 2" "p' \<le> 2" "r \<le> 1" "r' \<le> 1"
  shows "6 * s + 2 * (2 - p) + r < 6 * s' + 2 * (2 - p') + r' \<longleftrightarrow>
    s < s' \<or> (s = s' \<and> (p > p' \<or> (p = p' \<and> r < r')))"
  using assms by linarith

lemma op_key_less:
  "op_key policy a c < op_key policy a b \<longleftrightarrow>
     max (req_time c) (bus_free_time a) < max (req_time b) (bus_free_time a) \<or>
     (max (req_time c) (bus_free_time a) = max (req_time b) (bus_free_time a) \<and>
       (policy c > policy b \<or> (policy c = policy b \<and> cpu_rank a c < cpu_rank a b)))"
  unfolding op_key_def
  by (subst key_compare)
     (auto simp: priority_code_less cpu_rank_def word_less_nat_alt less_priority_class_def
       word_unat_eq_iff)

sublocale arbitration_policy \<subseteq> pick: selection wf_op "op_beats policy a" producer_slot "op_key policy a"
  for a
proof unfold_locales
  fix c b :: bus_op
  assume wf: "wf_op c" "wf_op b" and s: "producer_slot c \<noteq> producer_slot b"
  have dma: "cpu_id c < 0 \<longleftrightarrow> cpu_id b < 0" if "policy c = policy b"
    using dma_class [of c] dma_class [of b] that by simp
  have eq: "is_cpu (cpu_id c) \<and> is_cpu (cpu_id b) \<and> cpu_id c \<noteq> cpu_id b" if "policy c = policy b"
    using dma [OF that] wf s slot_wf [OF wf(1)] slot_wf [OF wf(2)] by (auto simp: wf_op_def is_cpu_def)
  then have r: "cpu_rank a c \<noteq> cpu_rank a b" if "policy c = policy b"
    using that by (auto simp: cpu_rank_def is_cpu_def)
  show "op_beats policy a c b \<longleftrightarrow> op_key policy a c < op_key policy a b"
  proof -
    define x y where "x = max (req_time c) (bus_free_time a)" and "y = max (req_time b) (bus_free_time a)"
    show ?thesis
      using s eq r unfolding op_key_less op_beats_def Let_def x_def [symmetric] y_def [symmetric]
      by (cases x y rule: linorder_cases; cases "policy c" "policy b" rule: linorder_cases)
         (auto simp: cpu_rank_def is_cpu_def)
  qed
  show "op_key policy a c \<noteq> op_key policy a b"
  proof -
    define x y where "x = max (req_time c) (bus_free_time a)" and "y = max (req_time b) (bus_free_time a)"
    have "op_key policy a c < op_key policy a b \<or> op_key policy a b < op_key policy a c"
      unfolding op_key_less x_def [symmetric] y_def [symmetric]
      using r by (cases x y rule: linorder_cases; cases "policy c" "policy b" rule: linorder_cases) auto
    then show ?thesis by auto
  qed
qed (auto simp: op_beats_def Let_def)

interpretation default_policy: arbitration_policy default_priority_of
  by unfold_locales (simp add: default_priority_of_def)

section \<open>Order independence\<close>

definition outcome :: "commit_result \<Rightarrow> bus_op \<times> bus_response" where
  "outcome r = (cr_op r, response r)"

lemma outcome_update [simp]: "outcome (r\<lparr>response := x\<rparr>) = (cr_op r, x)"
  by (simp add: outcome_def)

lemma committable_empty:
  "committable_indices a p = [] \<longleftrightarrow> {op \<in> set (map cr_op p). ready a op} = {}"
proof -
  have "committable_indices a p = [] \<longleftrightarrow> (\<forall>i < length p. \<not> ready a (cr_op (p ! i)))"
    using committable_ready [of a p] by (metis (no_types, lifting) empty_iff list.set_intros(1) mem_Collect_eq neq_Nil_conv set_empty)
  also have "\<dots> \<longleftrightarrow> (\<forall>r \<in> set p. \<not> ready a (cr_op r))" by (simp add: all_set_conv_all_nth)
  also have "\<dots> \<longleftrightarrow> {op \<in> set (map cr_op p). ready a op} = {}" by auto
  finally show ?thesis .
qed

definition one_per_slot :: "commit_result list \<Rightarrow> bool" where
  "one_per_slot p \<longleftrightarrow> (\<forall>r \<in> set p. wf_op (cr_op r)) \<and> distinct (map producer_slot (map cr_op p))"

context arbitration_policy
begin

lemma choice_least:
  assumes "one_per_slot p" "committable_indices a p \<noteq> []" "batch_choice policy a p = (i, tie)"
  shows "ready a (cr_op (p ! i))" "cr_op (p ! i) \<in> set (map cr_op p)"
    and "\<forall>op \<in> {op \<in> set (map cr_op p). ready a op}. op_key policy a (cr_op (p ! i)) \<le> op_key policy a op"
    and "tie \<longleftrightarrow> (\<exists>op \<in> {op \<in> set (map cr_op p). ready a op}. op \<noteq> cr_op (p ! i) \<and>
      max (req_time op) (bus_free_time a) = max (req_time (cr_op (p ! i))) (bus_free_time a) \<and>
      policy op = policy (cr_op (p ! i)))"
proof -
  let ?c = "committable_indices a p"
  note i = batch_choice_range [OF assms(2,3)]
  have c: "set ?c = {i. i < length p \<and> ready a (cr_op (p ! i))}" by (rule committable_ready)
  have img: "{op \<in> set (map cr_op p). ready a op} = (\<lambda>j. cr_op (p ! j)) ` set ?c"
    unfolding c by (fastforce simp: in_set_conv_nth)
  have ins: "insert (hd ?c) (set ?c) = set ?c" using assms(2) by auto
  show "ready a (cr_op (p ! i))" "cr_op (p ! i) \<in> set (map cr_op p)" using i c by auto
  have inj: "inj_on (\<lambda>i. producer_slot (map cr_op p ! i)) (set ?c)"
    using assms(1) by (auto simp: inj_on_def one_per_slot_def distinct_conv_nth c)
  have wf: "wf_op (map cr_op p ! j)" if "j \<in> set ?c" for j
    using that assms(1) by (auto simp: one_per_slot_def c)
  have ip: "i = pick_best (op_beats policy a) (map cr_op p) ?c (hd ?c)"
    using assms(3) by (simp add: batch_choice_def pick_next_def Let_def)
  have least: "\<forall>j \<in> set ?c. op_key policy a (map cr_op p ! i) \<le> op_key policy a (map cr_op p ! j)"
    using pick.best_least [of "hd ?c" ?c "map cr_op p" a] inj wf unfolding ins ip by blast
  show "\<forall>op \<in> {op \<in> set (map cr_op p). ready a op}. op_key policy a (cr_op (p ! i)) \<le> op_key policy a op"
    using least i c unfolding img by simp
  have neq: "j \<noteq> i \<longleftrightarrow> cr_op (p ! j) \<noteq> cr_op (p ! i)" if "j \<in> set ?c" for j
    using inj that i c by (auto simp: inj_on_def)
  have "tie \<longleftrightarrow> (\<exists>j \<in> set ?c. j \<noteq> i \<and>
      max (req_time (cr_op (p ! j))) (bus_free_time a) = max (req_time (cr_op (p ! i))) (bus_free_time a) \<and>
      policy (cr_op (p ! j)) = policy (cr_op (p ! i)))"
    using assms(3) by (auto simp: batch_choice_def tie_at_def Let_def list_ex_iff)
  also have "\<dots> \<longleftrightarrow> (\<exists>op \<in> {op \<in> set (map cr_op p). ready a op}. op \<noteq> cr_op (p ! i) \<and>
      max (req_time op) (bus_free_time a) = max (req_time (cr_op (p ! i))) (bus_free_time a) \<and>
      policy op = policy (cr_op (p ! i)))"
    unfolding img using neq by auto
  finally show "tie \<longleftrightarrow> (\<exists>op \<in> {op \<in> set (map cr_op p). ready a op}. op \<noteq> cr_op (p ! i) \<and>
      max (req_time op) (bus_free_time a) = max (req_time (cr_op (p ! i))) (bus_free_time a) \<and>
      policy op = policy (cr_op (p ! i)))" .
qed

lemma one_per_slot_mset:
  assumes "one_per_slot p" "mset (map cr_op q) = mset (map cr_op p)"
  shows "one_per_slot q"
proof -
  have "mset (map producer_slot (map cr_op q)) = mset (map producer_slot (map cr_op p))"
    using assms(2) by (metis mset_map)
  moreover have "set (map cr_op q) = set (map cr_op p)" using assms(2) by (metis set_mset_mset)
  ultimately show ?thesis
    using assms(1) mset_eq_imp_distinct_iff unfolding one_per_slot_def by (metis (no_types, lifting) image_iff list.set_map)
qed

lemma one_per_slot_erase: "one_per_slot p \<Longrightarrow> i < length p \<Longrightarrow> one_per_slot (erase_at i p)"
proof -
  assume p: "one_per_slot p" "i < length p"
  have "mset (map producer_slot (map cr_op p)) =
      add_mset (producer_slot (cr_op (p ! i))) (mset (map producer_slot (map cr_op (erase_at i p))))"
    using mset_erase_map [OF p(2), of "producer_slot \<circ> cr_op"] by (simp add: multiset.map_comp comp_def)
  then have "distinct (map producer_slot (map cr_op (erase_at i p)))"
    using p(1) unfolding one_per_slot_def by (metis distinct.simps(2) mset.simps(2) mset_eq_imp_distinct_iff)
  then show ?thesis using p(1) set_erase_at [of i p] by (auto simp: one_per_slot_def)
qed

lemma batch_order_independent:
  assumes "one_per_slot p" "mset (map cr_op q) = mset (map cr_op p)"
  shows "map outcome (fst (batch_loop policy a q)) = map outcome (fst (batch_loop policy a p)) \<and>
    snd (batch_loop policy a q) = snd (batch_loop policy a p)"
  using assms
proof (induction a p arbitrary: q rule: batch_induct [where policy = policy])
  case (stop a p)
  have "set (map cr_op q) = set (map cr_op p)" using stop(4) by (metis set_mset_mset)
  then have "committable_indices a q = [] \<longleftrightarrow> committable_indices a p = []"
    unfolding committable_empty by simp
  then have "q = [] \<or> should_halt (arb_trace a) \<or> committable_indices a q = []"
    using stop(1,4) by auto
  then have "batch_loop policy a q = ([], a)" by (rule batch_loop_stop)
  then show ?case by (simp add: stop(2))
next
  case (round a p i tie rsp a1)
  have q: "one_per_slot q" by (rule one_per_slot_mset) (fact round)+
  have sets: "set (map cr_op q) = set (map cr_op p)" using round(10) by (metis set_mset_mset)
  have nq: "committable_indices a q \<noteq> []"
    using round(2) sets unfolding committable_empty by simp
  obtain j tie' where cj: "batch_choice policy a q = (j, tie')" by fastforce
  note ci = choice_least [OF round(9,2,3)] and cq = choice_least [OF q nq cj]
  note j = batch_choice_range(1) [OF nq cj]
  have same: "cr_op (q ! j) = cr_op (p ! i)"
  proof (rule pick.best_unique [of "filter (ready a) (map cr_op p)"])
    show "distinct (map producer_slot (filter (ready a) (map cr_op p)))"
      using round(9) by (simp add: one_per_slot_def distinct_map_filter)
  qed (use round(9) ci cq sets in \<open>auto simp: one_per_slot_def\<close>)
  have t: "tie' = tie" unfolding ci(4) cq(4) same sets ..
  have "execute_commit a (cr_op (q ! j)) tie' = (rsp, a1)" using round(6) by (simp only: same t)
  note step = batch_loop_step [OF round(1) nq cj this]
  have "mset (map cr_op (erase_at j q)) = mset (map cr_op (erase_at i p))"
    using mset_erase_map [OF j, of cr_op] mset_erase_map [OF round(4), of cr_op] round(10) same by simp
  then have IH: "map outcome (fst (batch_loop policy a1 (erase_at j q))) =
      map outcome (fst (batch_loop policy a1 (erase_at i p))) \<and>
      snd (batch_loop policy a1 (erase_at j q)) = snd (batch_loop policy a1 (erase_at i p))"
    by (intro round(8) one_per_slot_erase round(9,4))
  then show ?case by (simp add: step round(7) same)
qed

end

section \<open>Whole batches\<close>

abbreviation fresh_enqueue :: "bus_arbiter \<Rightarrow> bus_arbiter" where
  "fresh_enqueue a \<equiv> a\<lparr>producer_enqueued_seen := (\<lambda>_. False), producer_last_enqueued_req_time := (\<lambda>_. 0)\<rparr>"

lemma commit_batch_split:
  "commit_batch policy a ops =
     batch_loop policy (snd (enqueue_loop (fresh_enqueue a) 0 ops)) (fst (enqueue_loop (fresh_enqueue a) 0 ops))"
  by (simp add: commit_batch_def Let_def split_def)

lemma ready_cong:
  "progress_tracking_enabled b = progress_tracking_enabled a \<Longrightarrow> progress_up_to b = progress_up_to a \<Longrightarrow>
    ready b = ready a"
  by (simp add: fun_eq_iff ready_def has_safe_horizon_def commit_horizon_def)

lemma ready_enqueue: "ready (snd (enqueue_loop (fresh_enqueue a) 0 ops)) = ready a"
  using enqueue_frame [of "fresh_enqueue a" 0 ops] by (intro ready_cong) (simp_all add: prod_eq_iff)

lemma subseq_set: "subseq xs ys \<Longrightarrow> set xs \<subseteq> set ys"
  by (auto simp: subseq_conv_nths dest: in_set_nthsD)

lemma subseq_distinct: "subseq xs ys \<Longrightarrow> distinct ys \<Longrightarrow> distinct xs"
  by (auto simp: subseq_conv_nths)

lemma distinct_submset: "mset xs \<subseteq># mset ys \<Longrightarrow> distinct ys \<Longrightarrow> distinct xs"
  by (metis distinct_append ex_mset mset_append mset_eq_imp_distinct_iff mset_subset_eq_exists_conv)

lemma batch_strip:
  "\<exists>ps. mset (map strip (fst (commit_batch policy a ops))) \<subseteq># mset ps \<and> subseq ps (enumerate 0 ops)"
proof -
  obtain ps where ps: "fst (enqueue_loop (fresh_enqueue a) 0 ops) = map entry ps" "subseq ps (enumerate 0 ops)"
    using enqueue_subseq by blast
  have "map strip (map entry ps) = ps" by (simp add: map_idI)
  then show ?thesis
    using batch_subset [of policy "snd (enqueue_loop (fresh_enqueue a) 0 ops)" "map entry ps"] ps
    by (metis commit_batch_split)
qed

lemma batch_results:
  assumes "rs = fst (commit_batch policy a ops)"
  shows "distinct (map input_index rs)"
    and "r \<in> set rs \<Longrightarrow> input_index r < length ops \<and> cr_op r = ops ! input_index r \<and> ready a (cr_op r)"
proof -
  obtain ps where ps: "mset (map strip rs) \<subseteq># mset ps" "subseq ps (enumerate 0 ops)"
    using batch_strip assms by blast
  have "distinct (map fst (enumerate 0 ops))" by (simp add: distinct_enumerate)
  then have "distinct (map fst ps)" using ps(2) by (metis subseq_distinct subseq_map)
  then have dp: "distinct (map fst ps)" .
  have "mset (map fst (map strip rs)) \<subseteq># mset (map fst ps)"
    using ps(1) by (metis image_mset_subseteq_mono mset_map)
  then have "distinct (map fst (map strip rs))"
    using dp by (rule distinct_submset)
  then show "distinct (map input_index rs)" by (simp add: strip_def comp_def)
  show "input_index r < length ops \<and> cr_op r = ops ! input_index r \<and> ready a (cr_op r)" if r: "r \<in> set rs"
  proof -
    have "strip r \<in> set ps" using r ps(1) by (metis (no_types, lifting) image_eqI list.set_map mset_subset_eqD set_mset_mset)
    then have "strip r \<in> set (enumerate 0 ops)" using ps(2) by (metis subseq_set subsetD)
    then show ?thesis
      using r batch_subset [of policy "snd (enqueue_loop (fresh_enqueue a) 0 ops)"
          "fst (enqueue_loop (fresh_enqueue a) 0 ops)"] ready_enqueue [of a ops]
      by (auto simp: assms strip_def in_set_enumerate_eq commit_batch_split)
  qed
qed

lemma enqueue_fresh:
  assumes "slot_monotone ops" "\<not> should_halt (arb_trace a)"
  shows "fst (enqueue_loop (fresh_enqueue a) 0 ops) = map entry (enumerate 0 ops) \<and>
    snd (enqueue_loop (fresh_enqueue a) 0 ops) =
      a\<lparr>producer_enqueued_seen := (\<lambda>s. s \<in> producer_slot ` set ops),
        producer_last_enqueued_req_time := fold note_request ops (\<lambda>_. 0)\<rparr>"
  using enqueue_all [OF assms(1), of "fresh_enqueue a" 0] assms(2) by simp

lemma batch_halted:
  "should_halt (arb_trace a) \<Longrightarrow> commit_batch policy a ops = ([], fresh_enqueue a)"
  by (cases ops) (simp_all add: commit_batch_def batch_loop_stop)

lemma distinct_slots_monotone: "distinct (map producer_slot ops) \<Longrightarrow> slot_monotone ops"
  by (induction ops) (auto simp: slot_monotone_def)

lemma note_request_commute:
  assumes "distinct (map producer_slot ops)" "mset ops' = mset ops"
  shows "fold note_request ops' m = fold note_request ops m"
proof -
  have "fold note_request ops = fold note_request ops'"
  proof (rule fold_multiset_equiv)
    show "note_request x \<circ> note_request y = note_request y \<circ> note_request x"
      if "x \<in> set ops" "y \<in> set ops" for x y
      using that assms(1) by (cases "x = y")
        (auto simp: note_request_def fun_eq_iff distinct_map inj_on_def)
  qed (simp add: assms(2))
  then show ?thesis by simp
qed

lemma map_cr_entry: "map cr_op (map entry (enumerate i ops)) = ops"
  by (simp add: comp_def)

section \<open>Properties\<close>

text \<open>
  (C25) A rejected operation is inert. When an operation has an illegal size or alignment, or its
  request time runs backwards for its producer, it touches neither memory nor devices nor any
  arbitration state: the trace gains one fault line and one zero-length commit line, the
  response carries the fault value with no stall, and the run halts exactly when halting on faults
  is on.
\<close>

theorem rejected_commit_is_inert:
  assumes "\<not> accepted a op"
  shows "fst (execute_commit a op tie) = inert_response (max (req_time op) (bus_free_time a)) \<and>
    (snd (execute_commit a op tie))\<lparr>arb_trace := arb_trace a\<rparr> = a \<and>
    (\<exists>reason detail. events (arb_trace (snd (execute_commit a op tie))) = events (arb_trace a) @
       [FaultLine \<lparr>fault_t = bus_start a op, fault_cpu = cpu_id op, fault_pc = 0, fault_detail = detail,
          fault_reason = reason\<rparr>,
        CommitLine \<lparr>t_start = bus_start a op, t_end = bus_start a op, ce_op = op, ce_stall = 0,
          ce_value = kInvalidBusOpValue, ce_cache_hit = False\<rparr>]) \<and>
    (should_halt (arb_trace (snd (execute_commit a op tie))) \<longleftrightarrow>
       should_halt (arb_trace a) \<or> halt_on_fault (arb_trace a))"
  using execute_rejected_facts [OF assms, of tie] assms
  by (auto simp: bus_start_max should_halt_execute with_trace_def)

lemma rejected_commit_is_inert_witness:
  "rsp_value (fst (execute_commit (new_bus_arbiter (new_memory 64) new_device_hub new_trace default_latency)
     (bus_op_of 0 7 0 BusRead 16 3 0) False)) = 0xBAD0BAD0"
proof -
  have "\<not> accepted (new_bus_arbiter (new_memory 64) new_device_hub new_trace default_latency)
      (bus_op_of 0 7 0 BusRead 16 3 0)"
    by (simp add: accepted_def bus_op_of_def validate_bus_op_def valid_bus_size_def)
  from rejected_commit_is_inert [OF this, of False] show ?thesis by (simp add: inert_response_def)
qed

text \<open>
  (C13) What a batch commits, for any policy, any state and any operations: every result answers a
  distinct input, carries that input's operation unchanged, and lies below the commit horizon
  whenever CPU progress is tracked (and nothing is committed while the horizon is not yet safe).
\<close>

theorem batch_commits_inputs_below_horizon:
  "distinct (map input_index (fst (commit_batch policy a ops))) \<and>
   (\<forall>r \<in> set (fst (commit_batch policy a ops)).
      input_index r < length ops \<and> cr_op r = ops ! input_index r \<and>
      (progress_tracking_enabled a \<longrightarrow> has_safe_horizon a \<and> req_time (cr_op r) < commit_horizon a))"
proof (intro conjI ballI)
  show "distinct (map input_index (fst (commit_batch policy a ops)))" by (rule batch_results) (rule refl)
  fix r assume r: "r \<in> set (fst (commit_batch policy a ops))"
  show "input_index r < length ops" "cr_op r = ops ! input_index r"
    "progress_tracking_enabled a \<longrightarrow> has_safe_horizon a \<and> req_time (cr_op r) < commit_horizon a"
    using batch_results(2) [OF refl r] by (auto simp: ready_def)
qed

lemma batch_commits_inputs_below_horizon_witness:
  "let a = update_progress (update_progress (new_bus_arbiter (new_memory 64) new_device_hub new_trace default_latency) 0 5) 1 6;
       rs = fst (commit_batch default_priority_of a [bus_op_of 0 7 0 BusRead 16 4 0, bus_op_of 1 3 0 BusWrite 20 4 9])
   in map input_index rs = [1] \<and> has_safe_horizon a \<and> req_time (cr_op (hd rs)) < commit_horizon a"
proof -
  define a where "a = update_progress (update_progress (new_bus_arbiter (new_memory 64) new_device_hub new_trace default_latency) 0 5) 1 6"
  define rs where "rs = fst (commit_batch default_priority_of a [bus_op_of 0 7 0 BusRead 16 4 0, bus_op_of 1 3 0 BusWrite 20 4 9])"
  have rs: "map input_index rs = [1]" unfolding rs_def a_def by code_simp
  then have "hd rs \<in> set rs" by (cases rs) auto
  moreover have "progress_tracking_enabled a" unfolding a_def by code_simp
  ultimately have "has_safe_horizon a \<and> req_time (cr_op (hd rs)) < commit_horizon a"
    using batch_commits_inputs_below_horizon [of default_priority_of a] unfolding rs_def by blast
  with rs show ?thesis by (simp add: Let_def rs_def a_def)
qed

lemma batch_ready_indices:
  assumes "\<not> should_halt (arb_trace a)" "\<not> halt_on_fault (arb_trace a)" "slot_monotone ops"
  shows "input_index ` set (fst (commit_batch policy a ops)) =
    {i. i < length ops \<and> (progress_tracking_enabled a \<longrightarrow>
       has_safe_horizon a \<and> req_time (ops ! i) < commit_horizon a)}"
proof -
  let ?a = "snd (enqueue_loop (fresh_enqueue a) 0 ops)"
  have e: "fst (enqueue_loop (fresh_enqueue a) 0 ops) = map entry (enumerate 0 ops)"
    and a: "arb_trace ?a = arb_trace a" using enqueue_fresh [OF assms(3,1)] by simp_all
  have "mset (map strip (fst (batch_loop policy ?a (map entry (enumerate 0 ops))))) =
    mset (map strip (filter (\<lambda>r. ready ?a (cr_op r)) (map entry (enumerate 0 ops))))"
    using assms by (intro batch_complete) (simp_all add: a)
  then have "set (map strip (fst (batch_loop policy ?a (map entry (enumerate 0 ops))))) =
    set (map strip (filter (\<lambda>r. ready ?a (cr_op r)) (map entry (enumerate 0 ops))))"
    by (metis set_mset_mset)
  then have "fst ` set (map strip (fst (commit_batch policy a ops))) =
      fst ` set (map strip (filter (\<lambda>r. ready a (cr_op r)) (map entry (enumerate 0 ops))))"
    unfolding commit_batch_split e ready_enqueue by simp
  also have "\<dots> = {i. i < length ops \<and> ready a (ops ! i)}"
  proof -
    have "fst ` set (map strip (filter (\<lambda>r. ready a (cr_op r)) (map entry (enumerate 0 ops)))) =
        fst ` {p \<in> set (enumerate 0 ops). ready a (snd p)}"
      by (simp add: filter_map comp_def map_idI image_image)
    also have "\<dots> = {i. i < length ops \<and> ready a (ops ! i)}"
    proof (intro set_eqI iffI)
      fix x assume "x \<in> {i. i < length ops \<and> ready a (ops ! i)}"
      then show "x \<in> fst ` {p \<in> set (enumerate 0 ops). ready a (snd p)}"
        by (intro rev_image_eqI [of "(x, ops ! x)"]) (simp_all add: in_set_enumerate_eq)
    qed (auto simp: in_set_enumerate_eq)
    finally show ?thesis .
  qed
  finally have "fst ` strip ` set (fst (commit_batch policy a ops)) = {i. i < length ops \<and> ready a (ops ! i)}"
    by simp
  moreover have "fst ` strip ` set (fst (commit_batch policy a ops)) = input_index ` set (fst (commit_batch policy a ops))"
    unfolding image_image strip_def fst_conv ..
  moreover have "{i. i < length ops \<and> ready a (ops ! i)} =
      {i. i < length ops \<and> (progress_tracking_enabled a \<longrightarrow>
         has_safe_horizon a \<and> req_time (ops ! i) < commit_horizon a)}"
    by (auto simp: ready_def)
  ultimately show ?thesis by (simp only:)
qed

text \<open>
  (C14) Completeness of a batch. When the trace does not halt on faults and the requests of each
  producer come in time order, one call commits every operation below the horizon, all of them
  when progress is not tracked: no operation is lost and no call spins.
\<close>

theorem batch_commits_every_ready_operation:
  assumes "\<not> should_halt (arb_trace a)" "\<not> halt_on_fault (arb_trace a)" "slot_monotone ops"
  shows "input_index ` set (fst (commit_batch policy a ops)) =
    {i. i < length ops \<and> (progress_tracking_enabled a \<longrightarrow>
       has_safe_horizon a \<and> req_time (ops ! i) < commit_horizon a)}"
  using assms by (rule batch_ready_indices)

lemma batch_commits_every_ready_operation_witness:
  "input_index ` set (fst (commit_batch default_priority_of
     (new_bus_arbiter (new_memory 64) new_device_hub new_trace default_latency)
     [bus_op_of 0 3 0 BusRead 16 4 0, bus_op_of 1 3 0 BusWrite 20 4 9])) = {0, 1}"
  using batch_commits_every_ready_operation [of "new_bus_arbiter (new_memory 64) new_device_hub new_trace default_latency"
    "[bus_op_of 0 3 0 BusRead 16 4 0, bus_op_of 1 3 0 BusWrite 20 4 9]" default_priority_of]
  by (auto simp: new_bus_arbiter_def new_trace_def slot_monotone_def producer_slot_def bus_op_of_def)

text \<open>
  (C3) A batch serialises the bus: in commit order, an operation that was granted the bus commits no
  later than the next one starts, no operation starts before its request time or before the bus
  was free, as long as the tick counter cannot wrap within the batch.
\<close>

theorem batch_serialises_bus:
  assumes "unat (bus_free_time a) \<le> T" "\<forall>op \<in> set ops. unat (req_time op) \<le> T"
    "T + length ops * max_latency (arb_latency a) < 18446744073709551616"
  shows "sorted_wrt (\<lambda>x y. start_time (response x) \<noteq> commit_time (response x) \<longrightarrow>
      commit_time (response x) \<le> start_time (response y)) (fst (commit_batch policy a ops)) \<and>
    (\<forall>r \<in> set (fst (commit_batch policy a ops)).
       max (req_time (cr_op r)) (bus_free_time a) \<le> start_time (response r) \<and>
       start_time (response r) \<le> commit_time (response r))"
proof -
  let ?a = "snd (enqueue_loop (fresh_enqueue a) 0 ops)"
  obtain ps where ps: "fst (enqueue_loop (fresh_enqueue a) 0 ops) = map entry ps" "subseq ps (enumerate 0 ops)"
    using enqueue_subseq by blast
  have f: "arb_latency ?a = arb_latency a" "bus_free_time ?a = bus_free_time a"
    using enqueue_frame [of "fresh_enqueue a" 0 ops] by (simp_all add: prod_eq_iff)
  have len: "length ps \<le> length ops" using ps(2) list_emb_length by fastforce
  have "T + length (map entry ps) * max_latency (arb_latency ?a) \<le> T + length ops * max_latency (arb_latency a)"
    using len by (simp add: f)
  then have t: "T + length (map entry ps) * max_latency (arb_latency ?a) < 18446744073709551616"
    using assms(3) by (rule order_le_less_trans)
  have "\<forall>p \<in> set ps. snd p \<in> set ops"
    using subseq_set [OF ps(2)] by (auto simp: in_set_enumerate_eq)
  then have "\<forall>r \<in> set (map entry ps). unat (req_time (cr_op r)) \<le> T"
    using assms(2) by auto
  from batch_serial [OF _ this t, of policy] assms(1) show ?thesis
    unfolding commit_batch_split ps(1) f by (simp add: serial_def granted_def)
qed

lemma batch_serialises_bus_witness:
  "sorted_wrt (\<lambda>x y. start_time (response x) \<noteq> commit_time (response x) \<longrightarrow>
      commit_time (response x) \<le> start_time (response y))
    (fst (commit_batch default_priority_of (new_bus_arbiter (new_memory 64) new_device_hub new_trace default_latency)
     [bus_op_of 0 3 0 BusRead 16 4 0, bus_op_of 1 3 0 BusWrite 20 4 9]))"
  using batch_serialises_bus [of "new_bus_arbiter (new_memory 64) new_device_hub new_trace default_latency" 3
    "[bus_op_of 0 3 0 BusRead 16 4 0, bus_op_of 1 3 0 BusWrite 20 4 9]" default_priority_of]
  by (simp add: new_bus_arbiter_def bus_op_of_def max_latency_def default_latency_def)

text \<open>
  (C1) Order independence. When every producer offers at most one operation, the default policy
  commits the same operations in the same order with the same responses, and leaves the same
  arbiter, memory, devices and trace, whatever order the batch lists them in.
\<close>

theorem batch_order_independence:
  assumes "\<forall>op \<in> set ops. wf_op op" "distinct (map producer_slot ops)" "mset ops' = mset ops"
  shows "map outcome (fst (commit_batch default_priority_of a ops')) =
      map outcome (fst (commit_batch default_priority_of a ops)) \<and>
    snd (commit_batch default_priority_of a ops') = snd (commit_batch default_priority_of a ops)"
proof (cases "should_halt (arb_trace a)")
  case False
  have set: "set ops' = set ops" using assms(3) by (metis set_mset_mset)
  have "mset (map producer_slot ops') = mset (map producer_slot ops)" using assms(3) by simp
  then have d: "distinct (map producer_slot ops')" using assms(2) mset_eq_imp_distinct_iff by blast
  note e = enqueue_fresh [OF distinct_slots_monotone [OF assms(2)] False]
    and e' = enqueue_fresh [OF distinct_slots_monotone [OF d] False]
  have a: "snd (enqueue_loop (fresh_enqueue a) 0 ops') = snd (enqueue_loop (fresh_enqueue a) 0 ops)"
    using e e' note_request_commute [OF assms(2,3)] by (simp add: set)
  have "one_per_slot (map entry (enumerate 0 ops))"
    using assms(1,2) unfolding one_per_slot_def map_cr_entry by (auto simp: in_set_enumerate_eq)
  moreover have "mset (map cr_op (map entry (enumerate 0 ops'))) = mset (map cr_op (map entry (enumerate 0 ops)))"
    by (simp only: map_cr_entry assms(3))
  ultimately show ?thesis
    unfolding commit_batch_split a e [THEN conjunct1] e' [THEN conjunct1]
    by (rule default_policy.batch_order_independent)
qed (simp add: batch_halted)

lemma batch_order_independence_witness:
  "snd (commit_batch default_priority_of (new_bus_arbiter (new_memory 64) new_device_hub new_trace default_latency)
     [bus_op_of 0 3 0 BusRead 16 4 0, bus_op_of 1 3 0 BusWrite 16 4 9]) =
   snd (commit_batch default_priority_of (new_bus_arbiter (new_memory 64) new_device_hub new_trace default_latency)
     [bus_op_of 1 3 0 BusWrite 16 4 9, bus_op_of 0 3 0 BusRead 16 4 0])"
  using batch_order_independence [of "[bus_op_of 1 3 0 BusWrite 16 4 9, bus_op_of 0 3 0 BusRead 16 4 0]"
    "[bus_op_of 0 3 0 BusRead 16 4 0, bus_op_of 1 3 0 BusWrite 16 4 9]"]
  by (simp add: wf_op_def is_cpu_def producer_slot_def bus_op_of_def add_mset_commute)

text \<open>A sequence of single commits with their tie flags.\<close>

definition run_commits :: "(bus_op \<times> bool) list \<Rightarrow> bus_arbiter \<Rightarrow> bus_arbiter" where
  "run_commits ops a = fold (\<lambda>(op, tie) a. snd (execute_commit a op tie)) ops a"

definition ram_write_op :: "bus_op \<Rightarrow> bool" where
  "ram_write_op op \<longleftrightarrow> kind op = BusWrite \<and> \<not> is_mmio (phys_addr op)"

lemma execute_memory:
  "arb_memory (snd (execute_commit a op tie)) =
    (if accepted a op \<and> ram_write_op op then mem_write (arb_memory a) (phys_addr op) (op_size op) (op_data op)
     else arb_memory a)"
proof (cases "accepted a op")
  case True
  then show ?thesis
    by (simp add: execute_accepted Let_def split_def perform_access_def ram_write_op_def)
next
  case False
  then show ?thesis using execute_rejected_facts(2) [OF False, of tie] by auto
qed

lemma execute_ram_read:
  assumes "accepted a op" "kind op = BusRead \<or> kind op = IFetch" "\<not> is_mmio (phys_addr op)"
  shows "rsp_value (fst (execute_commit a op tie)) = mem_read (arb_memory a) (phys_addr op) (op_size op)"
  using assms by (auto simp: execute_accepted Let_def split_def perform_access_def)

lemma run_commits_keep:
  assumes "mem_size (arb_memory a) \<le> 4294967296" "access_in_range (mem_size (arb_memory a)) p (unat n)"
    "\<forall>(op, tie) \<in> set ops. ram_write_op op \<longrightarrow>
       (\<forall>i < unat n. unat (op_size op) \<le> unat (p + of_nat i - phys_addr op))"
  shows "mem_read (arb_memory (run_commits ops a)) p n = mem_read (arb_memory a) p n \<and>
    mem_size (arb_memory (run_commits ops a)) = mem_size (arb_memory a)"
  using assms
proof (induction ops arbitrary: a)
  case (Cons x ops)
  obtain op tie where x: "x = (op, tie)" by fastforce
  let ?a = "snd (execute_commit a op tie)"
  have s: "mem_size (arb_memory ?a) = mem_size (arb_memory a)" by (simp add: execute_memory)
  have "mem_read (arb_memory ?a) p n = mem_read (arb_memory a) p n"
    using Cons.prems by (auto simp: x execute_memory mem_wf_def mem_hit_def intro!: memory.read_disjoint)
  then show ?case
    using Cons.IH [of ?a] Cons.prems s by (simp add: run_commits_def x)
qed (simp add: run_commits_def)

text \<open>
  (C12) Reads see the last committed write. After an accepted RAM write of a legal size, whatever
  further commits follow (of any producer, accepted or rejected, RAM or MMIO) as long as none of
  them writes those bytes, an accepted read or fetch of the same bytes returns the written value.
\<close>

theorem read_returns_last_committed_write:
  assumes "accepted a w" "ram_write_op w" "valid_size (op_size w)"
    and "mem_size (arb_memory a) \<le> 4294967296"
    and "access_in_range (mem_size (arb_memory a)) (phys_addr w) (unat (op_size w))"
    and "\<forall>(op, t) \<in> set ops. ram_write_op op \<longrightarrow>
       (\<forall>i < unat (op_size w). unat (op_size op) \<le> unat (phys_addr w + of_nat i - phys_addr op))"
    and "accepted (run_commits ops (snd (execute_commit a w tie))) r"
    and "kind r = BusRead \<or> kind r = IFetch" "phys_addr r = phys_addr w" "op_size r = op_size w"
  shows "rsp_value (fst (execute_commit (run_commits ops (snd (execute_commit a w tie))) r tie')) =
    op_data w AND mask (8 * unat (op_size w))"
proof -
  let ?a = "snd (execute_commit a w tie)"
  have m: "arb_memory ?a = mem_write (arb_memory a) (phys_addr w) (op_size w) (op_data w)"
    using assms(1,2) by (simp add: execute_memory)
  have "mem_read (arb_memory (run_commits ops ?a)) (phys_addr w) (op_size w) =
      mem_read (arb_memory ?a) (phys_addr w) (op_size w)"
    using run_commits_keep [of ?a "phys_addr w" "op_size w" ops] assms(4-6) by (simp add: m)
  also have "\<dots> = op_data w AND mask (8 * unat (op_size w))"
    unfolding m using assms(3-5) by (intro memory.read_own_write) (simp_all add: mem_wf_def mem_hit_def)
  finally show ?thesis
    using assms(2,7-10) execute_ram_read [OF assms(7,8)] by (simp add: ram_write_op_def)
qed

lemma read_returns_last_committed_write_witness:
  "let a = new_bus_arbiter (new_memory 64) new_device_hub new_trace default_latency;
       w = bus_op_of 0 1 0 BusWrite 16 2 0xABCD; r = bus_op_of 1 9 0 BusRead 16 2 0
   in rsp_value (fst (execute_commit (run_commits [] (snd (execute_commit a w False))) r False)) = 0xABCD"
proof -
  let ?a = "new_bus_arbiter (new_memory 64) new_device_hub new_trace default_latency"
  let ?w = "bus_op_of 0 1 0 BusWrite 16 2 0xABCD" and ?r = "bus_op_of 1 9 0 BusRead 16 2 0"
  have w: "accepted ?a ?w" and v: "validate_bus_op ?r = NoError"
    by (simp_all add: accepted_def new_bus_arbiter_def bus_op_of_def validate_bus_op_def valid_bus_size_def is_mmio_def)
  have r: "accepted (run_commits [] (snd (execute_commit ?a ?w False))) ?r"
    using v by (simp add: accepted_def run_commits_def execute_accepted_facts [OF w])
      (simp add: new_bus_arbiter_def producer_slot_def bus_op_of_def)
  show ?thesis
    using read_returns_last_committed_write [OF w _ _ _ _ _ r, of False]
    by (simp add: ram_write_op_def bus_op_of_def is_mmio_def valid_size_def new_bus_arbiter_def new_memory_def
        access_in_range_def mask_eq_exp_minus_1)
qed

lemma progress_simps:
  "has_safe_horizon a = (\<not> progress_tracking_enabled a \<or> (progress_up_to a 0 \<noteq> tick_max \<and> progress_up_to a 1 \<noteq> tick_max))"
  by (simp add: has_safe_horizon_def)

text \<open>
  Of two operations of one producer that both wait for the bus, the one with the lower sequence number
  goes first, even when its request is later.
\<close>

lemma sequence_before_request_time:
  "producer_slot c = producer_slot b \<Longrightarrow> req_time c \<le> bus_free_time a \<Longrightarrow> req_time b < req_time c \<Longrightarrow>
    op_sequence c < op_sequence b \<Longrightarrow> op_beats policy a c b"
  by (simp add: op_beats_def max_absorb2)

text \<open>
  Progress only widens the horizon. Once both CPUs have published a watermark, later updates
  (from any CPU number, at any time short of the sentinel value) never move the commit horizon
  back and never close it, and an update reports at least the published time for that CPU.
\<close>

theorem progress_is_monotone:
  assumes "progress_tracking_enabled a" "has_safe_horizon a" "t \<noteq> tick_max"
  shows "commit_horizon a \<le> commit_horizon (update_progress a cpu t) \<and>
    has_safe_horizon (update_progress a cpu t) \<and> progress_tracking_enabled (update_progress a cpu t) \<and>
    (is_cpu cpu \<longrightarrow> t \<le> progress_up_to (update_progress a cpu t) (nat cpu))"
  using assms
  by (auto simp: update_progress_def Let_def is_cpu_def progress_simps commit_horizon_def min_def not_less)

lemma progress_is_monotone_witness:
  "commit_horizon (update_progress (update_progress (update_progress
     (new_bus_arbiter (new_memory 64) new_device_hub new_trace default_latency) 0 5) 1 9) 0 7) \<ge> 5"
  using progress_is_monotone [of "update_progress (update_progress
     (new_bus_arbiter (new_memory 64) new_device_hub new_trace default_latency) 0 5) 1 9" 7 0]
  by (simp add: update_progress_def Let_def is_cpu_def progress_simps commit_horizon_def new_bus_arbiter_def)

text \<open>
  \<open>commit_pending\<close> loses and duplicates nothing: the committed operations together with the ones
  it leaves pending are exactly the operations passed in, and the ones left keep their order.
\<close>

theorem commit_pending_partitions:
  "let (committed, rest, a') = commit_pending policy a ops
   in mset (map cr_op committed) + mset rest = mset ops \<and> subseq rest ops"
proof -
  let ?c = "fst (commit_batch policy a ops)"
  let ?I = "input_index ` set ?c" and ?n = "[0..<length ops]"
  let ?rest = "map ((!) ops) (filter (\<lambda>i. i \<notin> ?I) ?n)"
  note r = batch_results [where policy = policy and a = a and ops = ops, OF refl]
  have "map cr_op ?c = map ((!) ops) (map input_index ?c)" using r(2) by simp
  moreover have "mset (map input_index ?c) = mset (filter (\<lambda>i. i \<in> ?I) ?n)"
    using r by (intro set_eq_iff_mset_eq_distinct [THEN iffD1]) auto
  ultimately have "mset (map cr_op ?c) = mset (map ((!) ops) (filter (\<lambda>i. i \<in> ?I) ?n))"
    by (metis mset_map)
  then have "mset (map cr_op ?c) + mset ?rest = mset (map ((!) ops) ?n)"
    by (simp only: mset_map mset_filter image_mset_union [symmetric] multiset_partition [symmetric])
  moreover have "subseq ?rest (map ((!) ops) ?n)" by (intro subseq_map subseq_filter_left)
  ultimately show ?thesis
    by (auto simp: commit_pending_def Let_def split_def map_nth)
qed

lemma committable_all: "\<not> progress_tracking_enabled a \<Longrightarrow> committable_indices a pending = [0..<length pending]"
  by (simp add: committable_indices_def)

lemma batch_single:
  assumes "\<not> progress_tracking_enabled a" "\<not> should_halt (arb_trace a)"
  shows "batch_loop policy a [e] =
    ([e\<lparr>response := fst (execute_commit a (cr_op e) False)\<rparr>], snd (execute_commit a (cr_op e) False))"
proof -
  have c: "batch_choice policy a [e] = (0, False)"
    using assms(1) by (simp add: batch_choice_def committable_all pick_next_def tie_at_def)
  show ?thesis
    using batch_loop_step [OF assms(2) _ c prod.collapse [symmetric]] assms(1)
    by (simp add: committable_all erase_at_def batch_loop_stop)
qed

lemma batch_pair:
  assumes "\<not> progress_tracking_enabled a" "\<not> should_halt (arb_trace a)" "\<not> halt_on_fault (arb_trace a)"
    and "max (req_time (cr_op e)) (bus_free_time a) = max (req_time (cr_op f)) (bus_free_time a)"
    and "policy (cr_op e) = policy (cr_op f)" "\<not> op_beats policy a (cr_op e) (cr_op e)"
  shows "map cr_op (fst (batch_loop policy a [e, f])) =
      (if op_beats policy a (cr_op f) (cr_op e) then [cr_op f, cr_op e] else [cr_op e, cr_op f]) \<and>
    last_grant_cpu (snd (batch_loop policy a [e, f])) =
      last_grant_cpu (snd (execute_commit a (cr_op (if op_beats policy a (cr_op f) (cr_op e) then f else e)) True))"
proof -
  define i :: nat where "i = (if op_beats policy a (cr_op f) (cr_op e) then 1 else 0)"
  have c: "batch_choice policy a [e, f] = (i, True)"
    using assms by (simp add: batch_choice_def committable_all pick_next_def tie_at_def Let_def i_def)
  have s: "batch_loop policy (snd (execute_commit a z True)) [u] =
      ([u\<lparr>response := fst (execute_commit (snd (execute_commit a z True)) (cr_op u) False)\<rparr>],
       snd (execute_commit (snd (execute_commit a z True)) (cr_op u) False))" for z u
    using assms(1-3) by (intro batch_single) (simp_all add: should_halt_execute)
  have l: "last_grant_cpu (snd (execute_commit b op False)) = last_grant_cpu b" for b op
    using execute_rejected_facts(2) [of b op False] by (cases "accepted b op") (auto simp: execute_accepted_facts)
  show ?thesis
    using batch_loop_step [OF assms(2) _ c prod.collapse [symmetric]] assms(1)
    by (simp add: committable_all i_def erase_at_def s l split: if_splits)
qed

text \<open>
  (C26) Round robin between the CPUs. When one request of each CPU contends at the same start time in
  the same priority class, the batch commits the CPU that did not win the last contest first, then
  the other; and the winner becomes the loser of the next contest.
\<close>

theorem cpu_round_robin:
  assumes "cpu_id x = 0" "cpu_id y = 1" "producer x \<noteq> ProducerDma" "producer y \<noteq> ProducerDma"
    and "default_priority_of x = default_priority_of y"
    and "max (req_time x) (bus_free_time a) = max (req_time y) (bus_free_time a)"
    and "\<not> progress_tracking_enabled a" "\<not> should_halt (arb_trace a)" "\<not> halt_on_fault (arb_trace a)"
    and "accepted a x" "accepted a y" "ops \<in> {[x, y], [y, x]}"
  shows "map cr_op (fst (commit_batch default_priority_of a ops)) =
      (if last_grant_cpu a = 0 then [y, x] else [x, y]) \<and>
    last_grant_cpu (snd (commit_batch default_priority_of a ops)) = (if last_grant_cpu a = 0 then 1 else 0)"
proof -
  have nb: "\<not> op_beats default_priority_of b z z" for b z by (auto simp: op_beats_def Let_def)
  have sl: "producer_slot x = 0" "producer_slot y = 1"
    using assms(1-4) by (simp_all add: producer_slot_def)
  have "distinct (map producer_slot ops)" using assms(12) sl by auto
  note e = enqueue_fresh [OF distinct_slots_monotone [OF this] assms(8)]
  let ?b = "snd (enqueue_loop (fresh_enqueue a) 0 ops)"
  have b: "op_beats default_priority_of ?b = op_beats default_priority_of a"
    "accepted ?b = accepted a" "last_grant_cpu ?b = last_grant_cpu a"
    "bus_free_time ?b = bus_free_time a" "arb_trace ?b = arb_trace a"
    "progress_tracking_enabled ?b = progress_tracking_enabled a"
    unfolding e [THEN conjunct2] by (simp_all add: fun_eq_iff op_beats_def accepted_def)
  have beats: "op_beats default_priority_of a y x \<longleftrightarrow> last_grant_cpu a = 0"
    "op_beats default_priority_of a x y \<longleftrightarrow> last_grant_cpu a \<noteq> 0"
    using assms(1,2,5,6) sl by (auto simp: op_beats_def Let_def is_cpu_def)
  have g: "last_grant_cpu (snd (execute_commit ?b z True)) = cpu_id z" if "z = x \<or> z = y" for z
    using that assms(1,2,10,11) b(2) execute_accepted_facts(5) [of ?b z True] by (auto simp: is_cpu_def)
  have p: "batch_loop default_priority_of ?b (map entry (enumerate 0 ops)) = commit_batch default_priority_of a ops"
    unfolding commit_batch_split e [THEN conjunct1] ..
  from assms(12) consider "ops = [x, y]" | "ops = [y, x]" by blast
  then show ?thesis
  proof cases
    case 1
    then show ?thesis
      using p batch_pair [of ?b "entry (0, x)" "entry (1, y)" default_priority_of] assms b nb beats g [of x] g [of y]
      by (simp add: entry_simps(2))
  next
    case 2
    then show ?thesis
      using p batch_pair [of ?b "entry (0, y)" "entry (1, x)" default_priority_of] assms b nb beats g [of x] g [of y]
      by (simp add: entry_simps(2))
  qed
qed

lemma cpu_round_robin_witness:
  "map cr_op (fst (commit_batch default_priority_of
     (new_bus_arbiter (new_memory 64) new_device_hub new_trace default_latency)
     [bus_op_of 1 3 0 BusRead 20 4 0, bus_op_of 0 3 0 BusRead 16 4 0])) =
   [bus_op_of 0 3 0 BusRead 16 4 0, bus_op_of 1 3 0 BusRead 20 4 0]"
  using cpu_round_robin [of "bus_op_of 0 3 0 BusRead 16 4 0" "bus_op_of 1 3 0 BusRead 20 4 0"
    "new_bus_arbiter (new_memory 64) new_device_hub new_trace default_latency"
    "[bus_op_of 1 3 0 BusRead 20 4 0, bus_op_of 0 3 0 BusRead 16 4 0]"]
  by (simp add: bus_op_of_def new_bus_arbiter_def new_trace_def default_priority_of_def is_mmio_def accepted_def
      validate_bus_op_def valid_bus_size_def)

text \<open>
  Order independence fails once a producer has two operations in a batch. CPU 0 offers a RAM
  read and, later in program order, an MMIO read; CPU 1 offers a RAM read. Both listings below keep
  CPU 0's operations in order. In one the MMIO read overtakes the RAM read of its own CPU, which then
  faults as running backwards in time; in the other all three commit.
\<close>

definition overtaking_state :: bus_arbiter where
  "overtaking_state = snd (commit_batch default_priority_of
     (new_bus_arbiter (new_memory 64) new_device_hub new_trace default_latency)
     [bus_op_of 0 0 0 BusRead 16 4 0, bus_op_of 1 0 0 BusRead 20 4 0])"

theorem batch_order_matters_with_two_operations_per_cpu:
  "let b = bus_op_of 0 1 1 BusRead 16 4 0; m = bus_op_of 0 2 2 MmioRead kDisplayStatusAddr 4 0;
       c = bus_op_of 1 1 1 BusRead 24 4 0;
       observe = (\<lambda>r. (cr_op r, rsp_value (response r)))
   in map observe (fst (commit_batch default_priority_of overtaking_state [b, c, m])) =
        [(m, 1), (c, 0), (b, 0xBAD0BAD0)] \<and>
      map observe (fst (commit_batch default_priority_of overtaking_state [b, m, c])) =
        [(c, 0), (b, 0), (m, 1)]"
  by code_simp

section \<open>Bounds of a batch\<close>

text \<open>
  From times at most \<open>T\<close>, no response of a batch reaches further than one latency per operation, and
  neither does the bus.
\<close>

lemma commit_reach:
  assumes "unat (bus_free_time a) \<le> T" "unat (req_time op) \<le> T" "T + max_latency (arb_latency a) < 2 ^ 64"
  shows "unat (req_time op) + unat (rsp_stall (fst (execute_commit a op tie))) \<le> T + max_latency (arb_latency a)"
    and "unat (bus_free_time (snd (execute_commit a op tie))) \<le> T + max_latency (arb_latency a)"
proof -
  note f = commit_finish_bound [of a T op, OF assms(1,2)]
  have b: "T + max_latency (arb_latency a) < 18446744073709551616" using assms(3) by simp
  have le: "req_time op \<le> commit_finish a op tie"
    using f(1) [OF b, of tie] by (simp add: bus_start_max)
  have "unat (req_time op) + unat (commit_finish a op tie - req_time op) = unat (commit_finish a op tie)"
    using le by (simp add: unat_sub word_le_nat_alt)
  then show "unat (req_time op) + unat (rsp_stall (fst (execute_commit a op tie))) \<le> T + max_latency (arb_latency a)"
    using f(3) [OF b, of tie] assms(2)
    by (cases "accepted a op") (simp_all add: execute_accepted_facts execute_rejected_facts(1) inert_response_def)
  show "unat (bus_free_time (snd (execute_commit a op tie))) \<le> T + max_latency (arb_latency a)"
  proof (cases "accepted a op")
    case True
    then show ?thesis using f(3) [OF b, of tie] by (simp add: execute_accepted_facts)
  next
    case False
    then show ?thesis using execute_rejected_facts(2) [OF False, of tie] assms(1) by auto
  qed
qed

lemma batch_reach:
  fixes policy :: arbitration_policy_fn
  assumes "unat (bus_free_time a) \<le> T" "\<forall>r \<in> set pending. unat (req_time (cr_op r)) \<le> T"
    "T + length pending * max_latency (arb_latency a) < 2 ^ 64"
  defines "n \<equiv> length (fst (batch_loop policy a pending))"
  shows "n \<le> length pending \<and>
    unat (bus_free_time (snd (batch_loop policy a pending))) \<le> T + n * max_latency (arb_latency a) \<and>
    (\<forall>r \<in> set (fst (batch_loop policy a pending)).
       unat (req_time (cr_op r)) + unat (rsp_stall (response r)) \<le> T + n * max_latency (arb_latency a))"
  using assms(1-3) unfolding n_def
proof (induction a pending arbitrary: T rule: batch_induct [where policy = policy])
  case (stop a pending)
  then show ?case by simp
next
  case (round a pending i tie rsp a1)
  let ?op = "cr_op (pending ! i)" and ?L = "max_latency (arb_latency a)"
  let ?m = "length (fst (batch_loop policy a1 (erase_at i pending)))"
  have r: "rsp = fst (execute_commit a ?op tie)" and a1: "a1 = snd (execute_commit a ?op tie)"
    using round(6) by simp_all
  have op: "unat (req_time ?op) \<le> T" using round(4,10) by simp
  have len: "length pending = Suc (length (erase_at i pending))" using round(4) by simp
  have b: "T + ?L < 2 ^ 64" using round(11) len by simp
  note reach = commit_reach [OF round(9) op b, of tie]
  have "?m \<le> length (erase_at i pending) \<and>
    unat (bus_free_time (snd (batch_loop policy a1 (erase_at i pending)))) \<le>
      T + ?L + ?m * max_latency (arb_latency a1) \<and>
    (\<forall>r \<in> set (fst (batch_loop policy a1 (erase_at i pending))).
       unat (req_time (cr_op r)) + unat (rsp_stall (response r)) \<le>
       T + ?L + ?m * max_latency (arb_latency a1))"
  proof (rule round(8) [of "T + ?L"])
    show "unat (bus_free_time a1) \<le> T + ?L" using reach(2) by (simp add: a1)
    show "\<forall>r \<in> set (erase_at i pending). unat (req_time (cr_op r)) \<le> T + ?L"
      using round(10) set_erase_at [of i pending] by fastforce
    show "T + ?L + length (erase_at i pending) * max_latency (arb_latency a1) < 2 ^ 64"
      using round(11) by (simp add: len a1 del: length_erase_at)
  qed
  then show ?case
    using reach(1) unfolding round(7) by (auto simp: len a1 r simp del: length_erase_at)
qed

lemma commit_batch_reach:
  fixes policy :: arbitration_policy_fn
  assumes "unat (bus_free_time a) \<le> T" "\<forall>op \<in> set ops. unat (req_time op) \<le> T"
    and "T + length ops * max_latency (arb_latency a) < 2 ^ 64"
  defines "n \<equiv> length (fst (commit_batch policy a ops))"
  shows "n \<le> length ops"
    and "unat (bus_free_time (snd (commit_batch policy a ops))) \<le> T + n * max_latency (arb_latency a)"
    and "r \<in> set (fst (commit_batch policy a ops)) \<Longrightarrow>
      unat (req_time (cr_op r)) + unat (rsp_stall (response r)) \<le> T + n * max_latency (arb_latency a)"
proof -
  obtain pending b where e: "enqueue_loop (fresh_enqueue a) 0 ops = (pending, b)" by fastforce
  obtain ps where ps: "pending = map entry ps" "subseq ps (enumerate 0 ops)"
    using enqueue_subseq [of "fresh_enqueue a" 0 ops] e by auto
  have f: "arb_latency b = arb_latency a" "bus_free_time b = bus_free_time a"
    using enqueue_frame [OF e] by simp_all
  have l: "length pending \<le> length ops" using ps list_emb_length [OF ps(2)] by simp
  then have "T + length pending * max_latency (arb_latency b) \<le> T + length ops * max_latency (arb_latency a)"
    by (simp add: f)
  then have "T + length pending * max_latency (arb_latency b) < 2 ^ 64" using assms(3) by (rule order.strict_trans1)
  moreover have "\<forall>r \<in> set pending. unat (req_time (cr_op r)) \<le> T"
    using ps subseq_set [OF ps(2)] assms(2) by (fastforce simp: in_set_enumerate_eq)
  moreover have "unat (bus_free_time b) \<le> T" using assms(1) f by simp
  ultimately have reach: "n \<le> length pending \<and>
    unat (bus_free_time (snd (batch_loop policy b pending))) \<le> T + n * max_latency (arb_latency a) \<and>
    (\<forall>r \<in> set (fst (batch_loop policy b pending)).
       unat (req_time (cr_op r)) + unat (rsp_stall (response r)) \<le> T + n * max_latency (arb_latency a))"
    using batch_reach [of b T pending policy] unfolding n_def commit_batch_split e by (simp add: f)
  then show "n \<le> length ops" using l by simp
  show "unat (bus_free_time (snd (commit_batch policy a ops))) \<le> T + n * max_latency (arb_latency a)"
    and "r \<in> set (fst (commit_batch policy a ops)) \<Longrightarrow>
      unat (req_time (cr_op r)) + unat (rsp_stall (response r)) \<le> T + n * max_latency (arb_latency a)"
    using reach unfolding commit_batch_split e by simp_all
qed

lemma commit_batch_halt:
  assumes "\<not> halt_on_fault (arb_trace a)" "\<not> should_halt (arb_trace a)" "slot_monotone ops"
  shows "\<not> halt_on_fault (arb_trace (snd (commit_batch policy a ops))) \<and>
    \<not> should_halt (arb_trace (snd (commit_batch policy a ops))) \<and>
    arb_latency (snd (commit_batch policy a ops)) = arb_latency a"
proof -
  have "halt_on_fault (arb_trace (snd (batch_loop policy b pending))) = halt_on_fault (arb_trace b) \<and>
      (\<not> halt_on_fault (arb_trace b) \<longrightarrow>
         should_halt (arb_trace (snd (batch_loop policy b pending))) = should_halt (arb_trace b)) \<and>
      arb_latency (snd (batch_loop policy b pending)) = arb_latency b" for b pending
  proof (induction b pending rule: batch_induct [where policy = policy])
    case (round b pending i tie rsp a1)
    have a1: "a1 = snd (execute_commit b (cr_op (pending ! i)) tie)" using round(6) by simp
    have "\<not> halt_on_fault (arb_trace b) \<Longrightarrow> should_halt (arb_trace a1) = should_halt (arb_trace b)"
      unfolding a1 using round(1) by (simp add: should_halt_execute)
    then show ?case using round(8) unfolding round(7) by (simp add: a1)
  qed simp
  from this [of "snd (enqueue_loop (fresh_enqueue a) 0 ops)" "fst (enqueue_loop (fresh_enqueue a) 0 ops)"]
  show ?thesis
    using enqueue_fresh [OF assms(3), of a] assms(1,2) unfolding commit_batch_split by simp
qed

end
