(* ===== verification/BusTiming.thy ===== *)
theory BusTiming
  imports BusArbiter
begin

text \<open>
  How long a busy bus takes. The cost of an operation is a table over its kind and its address, written out here apart
  from the code; a run of commits that were all waiting when it began occupies the bus without a gap for the sum
  of the costs, one contention penalty for each address that follows itself and one turnaround for each tie.
\<close>

section \<open>The cost table\<close>

definition table_latency :: "latency_model \<Rightarrow> bus_op \<Rightarrow> nat" where
  "table_latency l op = (case kind op of
      BusBarrier \<Rightarrow> unat (lat_barrier l)
    | IFetch \<Rightarrow> unat (lat_ifetch l)
    | MmioRead \<Rightarrow> unat (lat_mmio_read l)
    | MmioWrite \<Rightarrow> unat (lat_mmio_write l)
    | BusRead \<Rightarrow> if is_mmio (phys_addr op) then unat (lat_mmio_read l) else unat (lat_ram_read l)
    | BusWrite \<Rightarrow> if is_mmio (phys_addr op) then unat (lat_mmio_write l) else unat (lat_ram_write l))"

text \<open>How many addresses of a list are the one just before; barriers have no address.\<close>

definition repeats :: "u32 list \<Rightarrow> nat" where
  "repeats xs = length (filter (\<lambda>(x, y). x = y) (zip xs (tl xs)))"

definition addressed :: "bus_op list \<Rightarrow> u32 list" where
  "addressed ops = map phys_addr (filter (\<lambda>op. kind op \<noteq> BusBarrier) ops)"

text \<open>A run of commits, each with the verdict whether it met a tie; what it costs when the bus last served \<open>before\<close>.\<close>

definition occupancy :: "latency_model \<Rightarrow> u32 list \<Rightarrow> (bus_op \<times> bool) list \<Rightarrow> nat" where
  "occupancy l before run = sum_list (map (\<lambda>(op, _). table_latency l op) run) +
     unat (lat_same_address_contention l) * repeats (before @ addressed (map fst run)) +
     unat (lat_tie_turnaround l) * length (filter snd run)"

definition last_served :: "bus_arbiter \<Rightarrow> u32 list" where
  "last_served a = (if has_last_addr a then [last_addr a] else [])"

text \<open>The commits one after the other, as the batch loop makes them.\<close>

fun commit_run :: "bus_arbiter \<Rightarrow> (bus_op \<times> bool) list \<Rightarrow> bus_response list \<times> bus_arbiter" where
  "commit_run a [] = ([], a)"
| "commit_run a ((op, tie) # run) =
    (let (rsp, b) = execute_commit a op tie; (rs, c) = commit_run b run in (rsp # rs, c))"

section \<open>One commit of the run\<close>

lemma repeats_Cons: "repeats (x # y # ys) = (if x = y then 1 else 0) + repeats (y # ys)"
  by (simp add: repeats_def)

lemma repeats_short [simp]: "repeats [] = 0" "repeats [x] = 0"
  by (simp_all add: repeats_def)

lemma occupancy_Nil [simp]: "occupancy l (last_served a) [] = 0"
  by (simp add: occupancy_def last_served_def addressed_def)

lemma last_served_commit:
  assumes "accepted a op"
  shows "last_served (snd (execute_commit a op tie)) = (if kind op = BusBarrier then last_served a else [phys_addr op])"
  using assms by (simp add: execute_accepted Let_def split_def last_served_def)

lemma occupancy_Cons:
  "occupancy l (last_served a) ((op, tie) # run) =
     occupancy l (last_served a) [(op, tie)] +
     occupancy l (if kind op = BusBarrier then last_served a else [phys_addr op]) run"
  by (cases "has_last_addr a"; cases "kind op = BusBarrier"; cases "addressed (map fst run)")
    (auto simp: occupancy_def addressed_def last_served_def repeats_Cons algebra_simps)

text \<open>The code's latency is the table's, as long as the sum fits the counter.\<close>

lemma service_cost:
  assumes "occupancy (arb_latency a) (last_served a) [(op, tie)] < 18446744073709551616"
  shows "unat (base_latency a op + contention_extra a op tie) = occupancy (arb_latency a) (last_served a) [(op, tie)]"
proof -
  let ?l = "arb_latency a"
  have base: "unat (base_latency a op) = table_latency ?l op"
    by (cases "kind op") (simp_all add: base_latency_def table_latency_def Let_def)
  define again where "again = (kind op \<noteq> BusBarrier \<and> has_last_addr a \<and> phys_addr op = last_addr a)"
  have occ: "occupancy ?l (last_served a) [(op, tie)] = table_latency ?l op +
      unat (lat_same_address_contention ?l) * of_bool again + unat (lat_tie_turnaround ?l) * of_bool tie"
    by (cases "has_last_addr a"; cases "kind op = BusBarrier")
      (auto simp: occupancy_def last_served_def addressed_def again_def repeats_Cons)
  have extra: "contention_extra a op tie = (if again then lat_same_address_contention ?l else 0) +
      (if tie then lat_tie_turnaround ?l else 0)"
    by (simp add: contention_extra_def Let_def again_def)
  have "unat (contention_extra a op tie) =
      unat (lat_same_address_contention ?l) * of_bool again + unat (lat_tie_turnaround ?l) * of_bool tie"
    using assms unfolding extra occ by (cases again; cases tie) (simp_all add: unat_word_ariths)
  then show ?thesis using assms base by (simp add: occ unat_word_ariths)
qed

lemma waiting_commit:
  assumes "accepted a op" "req_time op \<le> bus_free_time a"
    and "unat (bus_free_time a) + occupancy (arb_latency a) (last_served a) [(op, tie)] < 18446744073709551616"
    and "execute_commit a op tie = (rsp, b)"
  shows "start_time rsp = bus_free_time a" "commit_time rsp = bus_free_time b" "rsp_stall rsp = bus_free_time b - req_time op"
    and "unat (bus_free_time b) = unat (bus_free_time a) + occupancy (arb_latency a) (last_served a) [(op, tie)]"
proof -
  have s: "bus_start a op = bus_free_time a" using assms(2) by (simp add: bus_start_max max_def)
  note f = execute_accepted_facts [OF assms(1), of tie, unfolded assms(4)]
  show "start_time rsp = bus_free_time a" "commit_time rsp = bus_free_time b" "rsp_stall rsp = bus_free_time b - req_time op"
    using f(1-4) s by simp_all
  have "unat (base_latency a op + contention_extra a op tie) = occupancy (arb_latency a) (last_served a) [(op, tie)]"
    using assms(3) by (intro service_cost) simp
  then show "unat (bus_free_time b) = unat (bus_free_time a) + occupancy (arb_latency a) (last_served a) [(op, tie)]"
    using f(4) s assms(3) by (simp add: commit_finish_def unat_word_ariths(1) [of "bus_free_time a"])
qed

text \<open>What a run of commits needs of its producers: well-formed operations, each producer's in the order of their times.\<close>

definition in_order :: "bus_arbiter \<Rightarrow> bus_op list \<Rightarrow> bool" where
  "in_order a ops \<longleftrightarrow> slot_monotone ops \<and> (\<forall>op \<in> set ops. accepted a op)"

lemma in_order_next:
  assumes "in_order a (op # ops)"
  shows "in_order (snd (execute_commit a op tie)) ops"
proof -
  have "accepted a op" using assms by (simp add: in_order_def)
  note seen = execute_accepted_facts(6,7) [OF this, of tie]
  show ?thesis using assms by (auto simp: in_order_def slot_monotone_def accepted_def seen)
qed

section \<open>Properties\<close>

text \<open>
  (C6) The timing of a busy bus. Take any run of operations that are valid, in order for each producer, and were all asked for
  before the bus is free, and commit them one after the other. The bus never idles: the k-th commit starts when
  the costs of the first k operations have passed, ends one operation later, and its producer has then waited from its
  request to that end; at last the bus is free after all of them. The costs are those of the table: by kind, and
  for reads and writes by whether the address is a device's; one penalty for each address that repeats
  the previous one, barriers aside, and one turnaround for each tie.
\<close>

theorem busy_bus_timing:
  assumes "in_order a (map fst run)" and "\<forall>(op, _) \<in> set run. req_time op \<le> bus_free_time a"
    and "commit_run a run = (rs, b)"
  defines "cost \<equiv> \<lambda>k. occupancy (arb_latency a) (last_served a) (take k run)"
  assumes "unat (bus_free_time a) + cost (length run) < 18446744073709551616"
  shows "unat (bus_free_time b) = unat (bus_free_time a) + cost (length run) \<and> length rs = length run \<and>
    (\<forall>k < length run. unat (start_time (rs ! k)) = unat (bus_free_time a) + cost k \<and>
       unat (commit_time (rs ! k)) = unat (bus_free_time a) + cost (Suc k) \<and>
       unat (req_time (fst (run ! k))) + unat (rsp_stall (rs ! k)) = unat (commit_time (rs ! k)))"
  using assms(1-3,5) unfolding cost_def
proof (induction run arbitrary: a rs)
  case Nil
  then show ?case by simp
next
  case (Cons x run)
  obtain op tie where x: "x = (op, tie)" by fastforce
  obtain rsp c where e: "execute_commit a op tie = (rsp, c)" by fastforce
  obtain rs' where rs: "rs = rsp # rs'" and next_run: "commit_run c run = (rs', b)"
    using Cons.prems(3) by (auto simp: x e split: prod.splits)
  let ?l = "arb_latency a" and ?one = "occupancy (arb_latency a) (last_served a) [(op, tie)]"
  have acc: "accepted a op" and early: "req_time op \<le> bus_free_time a"
    using Cons.prems(1,2) by (simp_all add: x in_order_def)
  have c: "arb_latency c = ?l" "last_served c = (if kind op = BusBarrier then last_served a else [phys_addr op])"
    using execute_frame(1) [of a op tie] last_served_commit [OF acc, of tie] by (simp_all add: e)
  have parts: "occupancy ?l (last_served a) ((op, tie) # run) = ?one + occupancy ?l (last_served c) run"
    "occupancy ?l (last_served a) ((op, tie) # take k run) = ?one + occupancy ?l (last_served c) (take k run)" for k
    unfolding c(2) by (rule occupancy_Cons)+
  have total: "unat (bus_free_time a) + ?one + occupancy ?l (last_served c) run < 18446744073709551616"
    using Cons.prems(4) by (simp add: x parts)
  then have "unat (bus_free_time a) + ?one < 18446744073709551616" by simp
  note w = waiting_commit [OF acc early this e]
  have later: "bus_free_time a \<le> bus_free_time c" using w(4) by (simp add: word_le_nat_alt)
  have "unat (req_time op) + unat (rsp_stall rsp) = unat (commit_time rsp)"
    using early later by (simp add: w(2,3) unat_sub word_le_nat_alt)
  moreover have "in_order c (map fst run)" using in_order_next [of a op "map fst run" tie] Cons.prems(1) by (simp add: x e)
  moreover have "\<forall>(op, _) \<in> set run. req_time op \<le> bus_free_time c" using Cons.prems(2) later by fastforce
  ultimately show ?case
    using Cons.IH [OF _ _ next_run] total w
    by (auto simp: rs parts c(1) x less_Suc_eq_0_disj)
qed

lemma busy_bus_timing_witness:
  "\<exists>rs b. commit_run ((new_bus_arbiter (new_memory 64) new_device_hub new_trace default_latency)\<lparr>bus_free_time := 100\<rparr>)
      [(bus_op_of 0 7 0 BusRead 16 4 0, True), (bus_op_of 1 9 0 BusWrite 16 4 5, False),
       (bus_op_of 0 9 1 BusBarrier 0 0 0, False), (bus_op_of 1 12 1 BusRead 16 4 0, False)] = (rs, b) \<and>
     map (\<lambda>r. unat (commit_time r)) rs = [105, 110, 111, 117] \<and> unat (bus_free_time b) = 117"
proof -
  let ?a = "(new_bus_arbiter (new_memory 64) new_device_hub new_trace default_latency)\<lparr>bus_free_time := 100\<rparr>"
  let ?run = "[(bus_op_of 0 7 0 BusRead 16 4 0, True), (bus_op_of 1 9 0 BusWrite 16 4 5, False),
       (bus_op_of 0 9 1 BusBarrier 0 0 0, False), (bus_op_of 1 12 1 BusRead 16 4 0, False)]"
  let ?cost = "\<lambda>k. occupancy (arb_latency ?a) (last_served ?a) (take k ?run)"
  obtain rs b where r: "commit_run ?a ?run = (rs, b)" by fastforce
  have order: "in_order ?a (map fst ?run)" by code_simp
  have early: "\<forall>(op, _) \<in> set ?run. req_time op \<le> bus_free_time ?a" by (simp add: bus_op_of_def)
  have free: "unat (bus_free_time ?a) = 100" by simp
  have costs: "?cost 1 = 5" "?cost 2 = 10" "?cost 3 = 11" "?cost 4 = 17" "length ?run = 4"
    by (simp_all add: occupancy_def last_served_def addressed_def repeats_def table_latency_def bus_op_of_def
        new_bus_arbiter_def default_latency_def is_mmio_def)
  have "unat (bus_free_time b) = 100 + ?cost (length ?run) \<and> length rs = length ?run \<and>
    (\<forall>k < length ?run. unat (start_time (rs ! k)) = 100 + ?cost k \<and> unat (commit_time (rs ! k)) = 100 + ?cost (Suc k) \<and>
       unat (req_time (fst (?run ! k))) + unat (rsp_stall (rs ! k)) = unat (commit_time (rs ! k)))"
    using busy_bus_timing [OF order early r] unfolding free costs by simp
  then have "length rs = 4" "unat (bus_free_time b) = 117" "\<And>k. k < 4 \<Longrightarrow> unat (commit_time (rs ! k)) = 100 + ?cost (Suc k)"
    unfolding costs by simp_all
  note facts = this
  have "map (\<lambda>r. unat (commit_time r)) rs = map (\<lambda>k. 100 + ?cost (Suc k)) [0..<4]"
    by (rule nth_equalityI) (simp_all add: facts del: take_Suc_Cons)
  also have "\<dots> = [105, 110, 111, 117]" using costs by (simp add: upt_rec numeral_eq_Suc)
  finally show ?thesis using r facts(2) by (intro exI [of _ rs] exI [of _ b] conjI)
qed

end
