(* ===== verification/Sh2Decode.thy ===== *)
theory Sh2Decode
  imports Prelude
begin

text \<open>
  The SH-2 opcode fields and the decode table of \<open>src/src/cpu/sh2_decode.hpp\<close> and \<open>sh2_decode.cpp\<close>,
  and the operand arithmetic at the head of \<open>src/src/cpu/sh2_core.cpp\<close>.
\<close>

section \<open>Fields\<close>

definition field_n :: "u16 \<Rightarrow> u32" where
  "field_n instr = drop_bit 8 (ucast instr) AND 0x0F"

definition field_m :: "u16 \<Rightarrow> u32" where
  "field_m instr = drop_bit 4 (ucast instr) AND 0x0F"

definition field_imm8 :: "u16 \<Rightarrow> u32" where
  "field_imm8 instr = ucast instr AND 0x00FF"

definition field_disp4 :: "u16 \<Rightarrow> u32" where
  "field_disp4 instr = ucast instr AND 0x000F"

definition field_disp12 :: "u16 \<Rightarrow> u32" where
  "field_disp12 instr = ucast instr AND 0x0FFF"

section \<open>The decode table\<close>

record opcode_pattern =
  op_mask :: u16
  op_value :: u16
  op_family :: string

abbreviation pat :: "u16 \<Rightarrow> u16 \<Rightarrow> string \<Rightarrow> opcode_pattern" where
  "pat m v f \<equiv> \<lparr>op_mask = m, op_value = v, op_family = f\<rparr>"

definition kPatterns :: "opcode_pattern list" where
  "kPatterns = [
     pat 0xF000 0xA000 ''BRA disp12'',
     pat 0xF000 0xB000 ''BSR disp12'',
     pat 0xF0FF 0x400B ''JSR @Rn'',
     pat 0xF0FF 0x402B ''JMP @Rn'',
     pat 0xFFFF 0x000B ''RTS'',
     pat 0xFF00 0x8900 ''BT'',
     pat 0xFF00 0x8B00 ''BF'',
     pat 0xFF00 0x8D00 ''BT/S'',
     pat 0xFF00 0x8F00 ''BF/S'',
     pat 0xFF00 0xC300 ''TRAPA #imm'',
     pat 0xFFFF 0x002B ''RTE'',
     pat 0xF0FF 0x400E ''LDC Rm,SR'',
     pat 0xF0FF 0x0002 ''STC SR,Rn'',
     pat 0xF0FF 0x4022 ''STS.L PR,@-Rn'',
     pat 0xF0FF 0x4026 ''LDS.L @Rm+,PR'',
     pat 0xF000 0x9000 ''MOV.W @(disp,PC),Rn'',
     pat 0xF000 0xD000 ''MOV.L @(disp,PC),Rn'',
     pat 0xFF00 0xC700 ''MOVA @(disp,PC),R0'',
     pat 0xF00F 0x000C ''MOV.B @(R0,Rm),Rn'',
     pat 0xF00F 0x000D ''MOV.W @(R0,Rm),Rn'',
     pat 0xF00F 0x000E ''MOV.L @(R0,Rm),Rn'',
     pat 0xF00F 0x0004 ''MOV.B Rm,@(R0,Rn)'',
     pat 0xF00F 0x0005 ''MOV.W Rm,@(R0,Rn)'',
     pat 0xF00F 0x0006 ''MOV.L Rm,@(R0,Rn)'',
     pat 0xFF00 0xC400 ''MOV.B @(disp,GBR),R0'',
     pat 0xFF00 0xC500 ''MOV.W @(disp,GBR),R0'',
     pat 0xFF00 0xC600 ''MOV.L @(disp,GBR),R0'',
     pat 0xFF00 0xC000 ''MOV.B R0,@(disp,GBR)'',
     pat 0xFF00 0xC100 ''MOV.W R0,@(disp,GBR)'',
     pat 0xFF00 0xC200 ''MOV.L R0,@(disp,GBR)'']"

definition pattern_matches :: "u16 \<Rightarrow> opcode_pattern \<Rightarrow> bool" where
  "pattern_matches instr p \<longleftrightarrow> instr AND op_mask p = op_value p"

definition decode_family :: "u16 \<Rightarrow> string option" where
  "decode_family instr = map_option op_family (List.find (pattern_matches instr) kPatterns)"

definition decode_match_count :: "u16 \<Rightarrow> nat" where
  "decode_match_count instr = length (filter (pattern_matches instr) kPatterns)"

section \<open>Operand arithmetic\<close>

text \<open>
  \<open>std::int32_t\<close> values are integers here; \<open>u32_add_i64\<close> has the body of \<open>u32_add_i32\<close>.
\<close>

definition u32_add_i32 :: "u32 \<Rightarrow> int \<Rightarrow> u32" where
  "u32_add_i32 a b = (if b \<ge> 0 then a + of_int b else a - of_int (- b))"

definition signext8 :: "u32 \<Rightarrow> int" where
  "signext8 x = sint (ucast (x AND 0xFF) :: u8)"

definition signext12 :: "u32 \<Rightarrow> int" where
  "signext12 x =
    (let v = x AND 0x0FFF in if v AND 0x0800 \<noteq> 0 then sint (v OR 0xFFFFF000) else sint v)"

definition add_overflow :: "u32 \<Rightarrow> u32 \<Rightarrow> u32 \<Rightarrow> bool" where
  "add_overflow a b r \<longleftrightarrow> (NOT (a XOR b) AND (a XOR r)) AND 0x80000000 \<noteq> 0"

definition sub_overflow :: "u32 \<Rightarrow> u32 \<Rightarrow> u32 \<Rightarrow> bool" where
  "sub_overflow a b r \<longleftrightarrow> ((a XOR b) AND (a XOR r)) AND 0x80000000 \<noteq> 0"

section \<open>Facts about fields and operands\<close>

lemma and_0xF_less: "unat ((x :: u32) AND 0xF) < 16"
proof -
  have "x AND 0xF \<le> 0xF" by (rule word_and_le1)
  then have "unat (x AND 0xF) \<le> unat (0xF :: u32)" by (simp add: word_le_nat_alt)
  then show ?thesis by simp
qed

lemma field_n_less [simp]: "unat (field_n instr) < 16"
  by (simp add: field_n_def and_0xF_less)

lemma field_m_less [simp]: "unat (field_m instr) < 16"
  by (simp add: field_m_def and_0xF_less)

lemma u32_add_i32_eq: "u32_add_i32 a b = a + of_int b"
  by (simp add: u32_add_i32_def)

fun clash_free :: "opcode_pattern list \<Rightarrow> bool" where
  "clash_free [] = True"
| "clash_free (p # ps) =
    (list_all (\<lambda>q. op_value p AND op_mask q \<noteq> op_value q AND op_mask p) ps \<and> clash_free ps)"

lemma clash_free_matches: "clash_free ps \<Longrightarrow> length (filter (pattern_matches instr) ps) \<le> 1"
proof (induction ps)
  case (Cons p ps)
  have "\<not> (pattern_matches instr p \<and> pattern_matches instr q)" if "q \<in> set ps" for q
  proof
    assume m: "pattern_matches instr p \<and> pattern_matches instr q"
    have "(instr AND op_mask p) AND op_mask q = (instr AND op_mask q) AND op_mask p" by (simp add: ac_simps)
    with m have "op_value p AND op_mask q = op_value q AND op_mask p" by (simp add: pattern_matches_def)
    with Cons.prems that show False by (auto simp: list_all_iff)
  qed
  then have "pattern_matches instr p \<Longrightarrow> filter (pattern_matches instr) ps = []"
    by (auto simp: filter_empty_conv)
  with Cons show ?case by auto
qed simp

lemma kPatterns_clash_free: "clash_free kPatterns"
  by (simp add: kPatterns_def)

text \<open>
  (C24) The decode table is unambiguous: no 16-bit opcode matches two of its patterns, so the first match
  that \<open>decode_family\<close> returns is the only one.
\<close>

theorem decode_is_unambiguous:
  "decode_match_count instr = (if decode_family instr = None then 0 else 1)"
proof -
  have "decode_match_count instr \<le> 1"
    unfolding decode_match_count_def using kPatterns_clash_free by (rule clash_free_matches)
  moreover have "(decode_match_count instr = 0) = (decode_family instr = None)"
    by (auto simp: decode_match_count_def decode_family_def find_None_iff filter_empty_conv)
  ultimately show ?thesis by auto
qed

end
