(* ===== verification/Sh2Core.thy ===== *)
theory Sh2Core
  imports Sh2Decode BusArbiter
begin

text \<open>
  The SH-2 core of \<open>src/src/cpu/sh2_core.cpp\<close>: its state, \<open>execute_instruction\<close> in the order of its
  if-chain, cut into groups that decline (\<open>None\<close>) an opcode that is not theirs, and the bus side
  \<open>produce_until_bus\<close>, \<open>apply_ifetch_and_step\<close> and \<open>step\<close>. An operation takes the core and the trace and
  returns both.
\<close>

section \<open>State\<close>

datatype mem_op_kind = ReadLong | WriteLong | ReadWord | WriteWord | ReadByte | WriteByte
  | ExceptionPushSr | ExceptionPushPc | ExceptionVectorRead
  | TrapaPushSr | TrapaPushPc | TrapaVectorRead | RtePopPc | RtePopSr
  | RmwAndByteRead | RmwXorByteRead | RmwOrByteRead | RmwWriteByte

text \<open>\<open>post_inc_base_before\<close> is written and never read by the source.\<close>

record pending_mem_op =
  pm_kind :: mem_op_kind
  pm_addr :: u32
  pm_size :: u8
  pm_value :: u32
  dst_reg :: u32
  post_inc_reg :: "u32 option"
  post_inc_size :: u8
  post_inc_base_before :: u32
  aux :: u32

record sh2_core =
  sh_id :: int
  sh_pc :: u32
  sh_sr :: u32
  sh_pr :: u32
  sh_gbr :: u32
  sh_vbr :: u32
  sh_mach :: u32
  sh_macl :: u32
  sh_r :: "u32 list"
  sh_t :: tick
  sh_executed :: u64
  pending_mem :: "pending_mem_op option"
  pending_branch_target :: "u32 option"
  pending_exception_vector :: "u32 option"
  exception_return_pc :: u32
  exception_return_sr :: u32
  has_exception_return_context :: bool
  pending_new_pc :: u32
  pending_new_sr :: u32
  pending_rte_restore :: bool
  pending_trapa_imm :: "u32 option"
  icache :: tiny_cache

definition new_sh2 :: "int \<Rightarrow> sh2_core" where
  "new_sh2 cpu = \<lparr>sh_id = cpu, sh_pc = 0, sh_sr = 0, sh_pr = 0, sh_gbr = 0, sh_vbr = 0, sh_mach = 0,
     sh_macl = 0, sh_r = replicate 16 0, sh_t = 0, sh_executed = 0, pending_mem = None,
     pending_branch_target = None, pending_exception_vector = None, exception_return_pc = 0,
     exception_return_sr = 0, has_exception_return_context = False, pending_new_pc = 0,
     pending_new_sr = 0, pending_rte_restore = False, pending_trapa_imm = None, icache = new_cache 16 64\<rparr>"

text \<open>\<open>reset\<close> keeps the other registers and the instruction cache.\<close>

definition sh2_reset :: "sh2_core \<Rightarrow> u32 \<Rightarrow> u32 \<Rightarrow> sh2_core" where
  "sh2_reset c pc sp = c\<lparr>sh_pc := pc, sh_r := (sh_r c)[15 := sp], sh_sr := 0xF0, sh_pr := 0, sh_gbr := 0,
     sh_vbr := 0, sh_mach := 0, sh_macl := 0, sh_t := 0, sh_executed := 0, pending_mem := None,
     pending_branch_target := None, pending_exception_vector := None, exception_return_pc := 0,
     exception_return_sr := 0, has_exception_return_context := False, pending_new_pc := 0,
     pending_new_sr := 0, pending_rte_restore := False, pending_trapa_imm := None\<rparr>"

abbreviation kSrTBit :: u32 where "kSrTBit \<equiv> 0x00000001"
abbreviation kSrQBit :: u32 where "kSrQBit \<equiv> 0x00000100"
abbreviation kSrMBit :: u32 where "kSrMBit \<equiv> 0x00000200"

definition gpr :: "sh2_core \<Rightarrow> u32 \<Rightarrow> u32" where
  "gpr c n = sh_r c ! unat n"

definition write_reg :: "u32 \<Rightarrow> u32 \<Rightarrow> sh2_core \<Rightarrow> sh2_core" where
  "write_reg n v c = c\<lparr>sh_r := (sh_r c)[unat n := v]\<rparr>"

text \<open>The flag lambdas and \<open>t_flag\<close>, \<open>set_t_flag\<close>: a bit of the status register.\<close>

definition sr_bit :: "u32 \<Rightarrow> sh2_core \<Rightarrow> bool" where
  "sr_bit b c \<longleftrightarrow> sh_sr c AND b \<noteq> 0"

definition set_sr_bit :: "u32 \<Rightarrow> bool \<Rightarrow> sh2_core \<Rightarrow> sh2_core" where
  "set_sr_bit b v c = c\<lparr>sh_sr := (if v then sh_sr c OR b else sh_sr c AND NOT b)\<rparr>"

abbreviation t_flag :: "sh2_core \<Rightarrow> bool" where "t_flag \<equiv> sr_bit kSrTBit"
abbreviation q_flag :: "sh2_core \<Rightarrow> bool" where "q_flag \<equiv> sr_bit kSrQBit"
abbreviation m_flag :: "sh2_core \<Rightarrow> bool" where "m_flag \<equiv> sr_bit kSrMBit"
abbreviation set_t_flag :: "bool \<Rightarrow> sh2_core \<Rightarrow> sh2_core" where "set_t_flag \<equiv> set_sr_bit kSrTBit"

text \<open>\<open>pc_ += 2U\<close>\<close>

definition advance :: "sh2_core \<Rightarrow> sh2_core" where
  "advance c = c\<lparr>sh_pc := sh_pc c + 2\<rparr>"

definition bit01 :: "bool \<Rightarrow> u32" where
  "bit01 b = (if b then 1 else 0)"

section \<open>Flags, moves and sums\<close>

definition exec_basic :: "u16 \<Rightarrow> sh2_core \<Rightarrow> sh2_core option" where
  "exec_basic instr c =
    (let n = field_n instr; m = field_m instr; rn = gpr c n; rm = gpr c m; nm = instr AND 0xF00F;
         imm = signext8 (ucast instr)
     in if instr = 0x0009 then Some (advance c)
     else if instr = 0x0018 then Some (advance (set_t_flag True c))
     else if instr = 0x0019 then
       Some (advance (c\<lparr>sh_sr := sh_sr c AND NOT (kSrQBit OR kSrMBit OR kSrTBit)\<rparr>))
     else if instr = 0x0008 then Some (advance (set_t_flag False c))
     else if instr AND 0xF0FF = 0x0029 then Some (advance (write_reg n (bit01 (t_flag c)) c))
     else if nm = 0x3000 then Some (advance (set_t_flag (rn = rm) c))
     else if instr AND 0xFF00 = 0x8800 then Some (advance (set_t_flag (gpr c 0 = of_int imm) c))
     else if nm = 0x2008 then Some (advance (set_t_flag (rn AND rm = 0) c))
     else if instr AND 0xF000 = 0xE000 then Some (advance (write_reg n (of_int imm) c))
     else if instr AND 0xF000 = 0x7000 then Some (advance (write_reg n (u32_add_i32 rn imm) c))
     else if nm = 0x300C then Some (advance (write_reg n (rn + rm) c))
     else if nm = 0x300E then
       (let sum = (ucast rn :: u64) + ucast rm + ucast (bit01 (t_flag c))
        in Some (advance (write_reg n (ucast sum) (set_t_flag (drop_bit 32 sum \<noteq> 0) c))))
     else if nm = 0x300F then
       (let out = rn + rm in Some (advance (write_reg n out (set_t_flag (add_overflow rn rm out) c))))
     else if nm = 0x6003 then Some (advance (write_reg n rm c))
     else None)"

section \<open>Logic, short products and differences\<close>

definition exec_logic :: "u16 \<Rightarrow> sh2_core \<Rightarrow> sh2_core option" where
  "exec_logic instr c =
    (let n = field_n instr; m = field_m instr; rn = gpr c n; rm = gpr c m; nm = instr AND 0xF00F
     in if nm = 0x2009 then Some (advance (write_reg n (rn AND rm) c))
     else if nm = 0x200A then Some (advance (write_reg n (rn XOR rm) c))
     else if nm = 0x200B then Some (advance (write_reg n (rn OR rm) c))
     else if nm = 0x200E then Some (advance (c\<lparr>sh_macl := (rn AND 0xFFFF) * (rm AND 0xFFFF)\<rparr>))
     else if nm = 0x200F then
       Some (advance (c\<lparr>sh_macl := of_int (sint (ucast rn :: u16) * sint (ucast rm :: u16))\<rparr>))
     else if nm = 0x2007 then
       (let c1 = set_sr_bit kSrMBit (rm AND 0x80000000 \<noteq> 0) (set_sr_bit kSrQBit (rn AND 0x80000000 \<noteq> 0) c)
        in Some (advance (set_t_flag (q_flag c1 = m_flag c1) c1)))
     else if nm = 0x6007 then Some (advance (write_reg n (NOT rm) c))
     else if nm = 0x600A then
       (let rhs = rm + bit01 (t_flag c) in Some (advance (write_reg n (0 - rhs) (set_t_flag (rhs \<noteq> 0) c))))
     else if nm = 0x600B then Some (advance (write_reg n (0 - rm) c))
     else if nm = 0x600C then Some (advance (write_reg n (rm AND 0x000000FF) c))
     else if nm = 0x600D then Some (advance (write_reg n (rm AND 0x0000FFFF) c))
     else if nm = 0x600E then Some (advance (write_reg n (of_int (sint (ucast rm :: u8))) c))
     else if nm = 0x600F then Some (advance (write_reg n (of_int (sint (ucast rm :: u16))) c))
     else if nm = 0x3008 then Some (advance (write_reg n (rn - rm) c))
     else if nm = 0x300A then
       (let rhs = rm + bit01 (t_flag c) in Some (advance (write_reg n (rn - rhs) (set_t_flag (rn < rhs) c))))
     else if nm = 0x300B then
       (let out = rn - rm in Some (advance (write_reg n out (set_t_flag (sub_overflow rn rm out) c))))
     else None)"

section \<open>Long products, division step and comparisons\<close>

text \<open>
  The division step: the first assignment of the Q bit is overwritten by the second, as in the source.
\<close>

definition exec_div1 :: "u16 \<Rightarrow> sh2_core \<Rightarrow> sh2_core" where
  "exec_div1 instr c =
    (let n = field_n instr; m = field_m instr; old_q = q_flag c; m_status = m_flag c; rn0 = gpr c n;
         c1 = set_sr_bit kSrQBit (rn0 AND 0x80000000 \<noteq> 0) c;
         tmp = push_bit 1 rn0 OR bit01 (t_flag c1);
         rm = gpr c1 m;
         rn = (if old_q = m_status then tmp - rm else tmp + rm);
         new_q = (if old_q = m_status then rn > tmp else rn < tmp)
     in advance (write_reg n rn (set_t_flag (new_q = m_status) (set_sr_bit kSrQBit new_q c1))))"

definition exec_compare :: "u16 \<Rightarrow> sh2_core \<Rightarrow> sh2_core option" where
  "exec_compare instr c =
    (let n = field_n instr; m = field_m instr; rn = gpr c n; rm = gpr c m; nm = instr AND 0xF00F;
         n0 = instr AND 0xF0FF; hi = instr AND 0xFF00; imm = field_imm8 instr
     in if nm = 0x300D then
       (let prod = of_int (sint rn * sint rm) :: u64
        in Some (advance (c\<lparr>sh_mach := ucast (drop_bit 32 prod), sh_macl := ucast prod\<rparr>)))
     else if nm = 0x3005 then
       (let prod = (ucast rn :: u64) * ucast rm
        in Some (advance (c\<lparr>sh_mach := ucast (drop_bit 32 prod), sh_macl := ucast prod\<rparr>)))
     else if nm = 0x3004 then Some (exec_div1 instr c)
     else if nm = 0x3002 then Some (advance (set_t_flag (rn \<ge> rm) c))
     else if nm = 0x3003 then Some (advance (set_t_flag (sint rn \<ge> sint rm) c))
     else if nm = 0x3006 then Some (advance (set_t_flag (rn > rm) c))
     else if nm = 0x3007 then Some (advance (set_t_flag (sint rn > sint rm) c))
     else if n0 = 0x4015 then Some (advance (set_t_flag (sint rn > 0) c))
     else if n0 = 0x4011 then Some (advance (set_t_flag (sint rn \<ge> 0) c))
     else if nm = 0x200C then
       (let x = rn XOR rm
        in Some (advance (set_t_flag (x AND 0xFF = 0 \<or> x AND 0xFF00 = 0 \<or> x AND 0xFF0000 = 0 \<or>
             x AND 0xFF000000 = 0) c)))
     else if hi = 0xC900 then Some (advance (write_reg 0 (gpr c 0 AND imm) c))
     else if hi = 0xCA00 then Some (advance (write_reg 0 (gpr c 0 XOR imm) c))
     else if hi = 0xCB00 then Some (advance (write_reg 0 (gpr c 0 OR imm) c))
     else None)"

section \<open>Conditional branches\<close>

text \<open>The core and \<open>next_branch_target\<close>.\<close>

definition exec_cond_branch :: "u16 \<Rightarrow> sh2_core \<Rightarrow> (sh2_core \<times> u32 option) option" where
  "exec_cond_branch instr c =
    (let hi = instr AND 0xFF00; target = u32_add_i32 (sh_pc c + 4) (signext8 (ucast instr) * 2)
     in if hi = 0x8900 then Some (if t_flag c then c\<lparr>sh_pc := target\<rparr> else advance c, None)
     else if hi = 0x8B00 then Some (if \<not> t_flag c then c\<lparr>sh_pc := target\<rparr> else advance c, None)
     else if hi = 0x8D00 then Some (advance c, if t_flag c then Some target else None)
     else if hi = 0x8F00 then Some (advance c, if \<not> t_flag c then Some target else None)
     else None)"

section \<open>System registers\<close>

abbreviation kLoadAuxPr :: u32 where "kLoadAuxPr \<equiv> 1"
abbreviation kLoadAuxSr :: u32 where "kLoadAuxSr \<equiv> 2"
abbreviation kLoadAuxGbr :: u32 where "kLoadAuxGbr \<equiv> 3"
abbreviation kLoadAuxVbr :: u32 where "kLoadAuxVbr \<equiv> 4"
abbreviation kLoadAuxMach :: u32 where "kLoadAuxMach \<equiv> 5"
abbreviation kLoadAuxMacl :: u32 where "kLoadAuxMacl \<equiv> 6"

text \<open>\<open>PendingMemOp{kind, addr, size, value, dst, nullopt, 0U, 0U}\<close>, with \<open>aux\<close> at its default.\<close>

definition mem_op_of :: "mem_op_kind \<Rightarrow> u32 \<Rightarrow> u8 \<Rightarrow> u32 \<Rightarrow> u32 \<Rightarrow> pending_mem_op" where
  "mem_op_of k a n v d = \<lparr>pm_kind = k, pm_addr = a, pm_size = n, pm_value = v, dst_reg = d,
     post_inc_reg = None, post_inc_size = 0, post_inc_base_before = 0, aux = 0\<rparr>"

text \<open>The pushes \<open>STC.L/STS.L reg,@-Rn\<close> and the pops \<open>LDC.L/LDS.L @Rm+,reg\<close>.\<close>

definition is_sys_push :: "u16 \<Rightarrow> bool" where
  "is_sys_push n0 \<longleftrightarrow> n0 \<in> {0x4003, 0x4013, 0x4023, 0x4002, 0x4012}"

definition sys_push_value :: "u16 \<Rightarrow> sh2_core \<Rightarrow> u32" where
  "sys_push_value n0 c =
    (if n0 = 0x4003 then sh_sr c else if n0 = 0x4013 then sh_gbr c else if n0 = 0x4023 then sh_vbr c
     else if n0 = 0x4002 then sh_mach c else sh_macl c)"

definition is_sys_pop :: "u16 \<Rightarrow> bool" where
  "is_sys_pop n0 \<longleftrightarrow> n0 \<in> {0x4026, 0x4007, 0x4017, 0x4027, 0x4006, 0x4016}"

definition sys_pop_aux :: "u16 \<Rightarrow> u32" where
  "sys_pop_aux n0 =
    (if n0 = 0x4026 then kLoadAuxPr else if n0 = 0x4007 then kLoadAuxSr else if n0 = 0x4017 then kLoadAuxGbr
     else if n0 = 0x4027 then kLoadAuxVbr else if n0 = 0x4006 then kLoadAuxMach else kLoadAuxMacl)"

definition sys_pop_op :: "u16 \<Rightarrow> sh2_core \<Rightarrow> pending_mem_op" where
  "sys_pop_op instr c =
    (let m = field_n instr
     in (mem_op_of ReadLong (to_phys (gpr c m)) 4 0 0)\<lparr>post_inc_reg := Some m, post_inc_size := 4,
          post_inc_base_before := gpr c m, aux := sys_pop_aux (instr AND 0xF0FF)\<rparr>)"

definition exec_system :: "u16 \<Rightarrow> sh2_core \<Rightarrow> sh2_core option" where
  "exec_system instr c =
    (let n = field_n instr; m = field_m instr; rn = gpr c n; n0 = instr AND 0xF0FF
     in if n0 = 0x0012 then Some (advance (write_reg n (sh_gbr c) c))
     else if n0 = 0x0022 then Some (advance (write_reg n (sh_vbr c) c))
     else if is_sys_push n0 then
       (let c1 = write_reg n (rn - 4) c
        in Some (advance (c1\<lparr>pending_mem := Some (mem_op_of WriteLong (to_phys (gpr c1 n)) 4 (sys_push_value n0 c1) 0)\<rparr>)))
     else if n0 = 0x401E then Some (advance (c\<lparr>sh_gbr := rn\<rparr>))
     else if n0 = 0x400E then Some (advance (c\<lparr>sh_sr := rn\<rparr>))
     else if n0 = 0x0002 then Some (advance (write_reg n (sh_sr c) c))
     else if is_sys_pop n0 then Some (advance (c\<lparr>pending_mem := Some (sys_pop_op instr c)\<rparr>))
     else if n0 = 0x402E then Some (advance (c\<lparr>sh_vbr := rn\<rparr>))
     else if n0 = 0x001A then Some (advance (write_reg n (sh_macl c) c))
     else if n0 = 0x000A then Some (advance (write_reg n (sh_mach c) c))
     else if n0 = 0x401A then Some (advance (c\<lparr>sh_macl := rn\<rparr>))
     else if n0 = 0x400A then Some (advance (c\<lparr>sh_mach := rn\<rparr>))
     else if instr AND 0xF00F = 0x0007 then
       (let c1 = advance (c\<lparr>sh_macl := ucast (of_int (sint rn * sint (gpr c m)) :: u64)\<rparr>)
        in Some (c1\<lparr>sh_t := sh_t c1 + 1\<rparr>))
     else if instr AND 0xFF00 = 0xC700 then
       Some (advance (write_reg 0 (((sh_pc c + 4) AND NOT 3) + field_imm8 instr * 4) c))
     else None)"

section \<open>Shifts\<close>

definition exec_shift :: "u16 \<Rightarrow> sh2_core \<Rightarrow> sh2_core option" where
  "exec_shift instr c =
    (let n = field_n instr; m = field_m instr; rn = gpr c n; rm = gpr c m; n0 = instr AND 0xF0FF;
         lo = instr AND 0x00FF; nm = instr AND 0xF00F; msb = (rn AND 0x80000000 \<noteq> 0); lsb = (rn AND 1 \<noteq> 0)
     in if n0 = 0x4000 then Some (advance (write_reg n (push_bit 1 rn) (set_t_flag msb c)))
     else if n0 = 0x4001 then Some (advance (write_reg n (drop_bit 1 rn) (set_t_flag lsb c)))
     else if n0 = 0x4004 then Some (advance (write_reg n (push_bit 1 rn OR bit01 msb) (set_t_flag msb c)))
     else if n0 = 0x4008 \<or> n0 = 0x4018 \<or> n0 = 0x4028 then
       (let sh = if lo = 0x08 then 2 else if lo = 0x18 then 8 else 16
        in Some (advance (write_reg n (push_bit sh rn) c)))
     else if n0 = 0x4009 \<or> n0 = 0x4019 \<or> n0 = 0x4029 then
       (let sh = if lo = 0x09 then 2 else if lo = 0x19 then 8 else 16
        in Some (advance (write_reg n (drop_bit sh rn) c)))
     else if n0 = 0x4020 then Some (advance (write_reg n (push_bit 1 rn) (set_t_flag msb c)))
     else if n0 = 0x4021 then Some (advance (write_reg n (signed_drop_bit 1 rn) (set_t_flag lsb c)))
     else if n0 = 0x4024 then
       Some (advance (write_reg n (push_bit 1 rn OR bit01 (t_flag c)) (set_t_flag msb c)))
     else if n0 = 0x4025 then
       Some (advance (write_reg n (drop_bit 1 rn OR (if t_flag c then 0x80000000 else 0)) (set_t_flag lsb c)))
     else if nm = 0x400C then
       (let amount = unat (rm AND 0x1F); inv = unat ((0 - rm) AND 0x1F)
        in Some (advance (write_reg n (if rm AND 0x80000000 = 0 then push_bit amount rn else signed_drop_bit inv rn) c)))
     else if nm = 0x400D then
       (let amount = unat (rm AND 0x1F); inv = unat ((0 - rm) AND 0x1F)
        in Some (advance (write_reg n (if rm AND 0x80000000 = 0 then push_bit amount rn else drop_bit inv rn) c)))
     else None)"

section \<open>Unconditional branches, exceptions and illegal opcodes\<close>

definition exec_branch :: "u16 \<Rightarrow> sh2_core \<Rightarrow> trace_log \<Rightarrow> sh2_core \<times> u32 option \<times> trace_log" where
  "exec_branch instr c trace =
    (let m = field_n instr; n0 = instr AND 0xF0FF;
         disp_target = u32_add_i32 (sh_pc c + 4) (signext12 (ucast instr) * 2)
     in if instr AND 0xF000 = 0xA000 then (advance c, Some disp_target, trace)
     else if instr AND 0xF000 = 0xB000 then (advance (c\<lparr>sh_pr := sh_pc c + 4\<rparr>), Some disp_target, trace)
     else if n0 = 0x400B then (advance (c\<lparr>sh_pr := sh_pc c + 4\<rparr>), Some (gpr c m), trace)
     else if instr = 0x000B then (advance c, Some (sh_pr c), trace)
     else if n0 = 0x402B then (advance c, Some (gpr c m), trace)
     else if instr = 0x002B then
       (if \<not> has_exception_return_context c then
          (advance c, None, add_fault \<lparr>fault_t = sh_t c, fault_cpu = sh_id c, fault_pc = sh_pc c,
             fault_detail = 0, fault_reason = ''SYNTHETIC_RTE_WITHOUT_CONTEXT''\<rparr> trace)
        else let c1 = advance (c\<lparr>pending_mem := Some (mem_op_of RtePopPc (to_phys (gpr c 15)) 4 0 0)\<rparr>)
          in (c1, None, add_fault \<lparr>fault_t = sh_t c1, fault_cpu = sh_id c1, fault_pc = sh_pc c1,
             fault_detail = 0, fault_reason = ''EXCEPTION_RETURN''\<rparr> trace))
     else if instr AND 0xFF00 = 0xC300 then
       (let c1 = write_reg 15 (gpr c 15 - 4) (c\<lparr>pending_trapa_imm := Some (field_imm8 instr)\<rparr>)
        in (c1\<lparr>pending_mem := Some (mem_op_of TrapaPushSr (to_phys (gpr c1 15)) 4 (sh_sr c1) 0)\<rparr>, None, trace))
     else (advance c, None, add_fault \<lparr>fault_t = sh_t c, fault_cpu = sh_id c, fault_pc = sh_pc c,
             fault_detail = ucast instr, fault_reason = ''ILLEGAL_OP''\<rparr> trace))"

section \<open>execute_instruction\<close>

fun first_some :: "(sh2_core \<Rightarrow> sh2_core option) list \<Rightarrow> sh2_core \<Rightarrow> sh2_core option" where
  "first_some [] c = None"
| "first_some (f # fs) c = (case f c of Some c' \<Rightarrow> Some c' | None \<Rightarrow> first_some fs c)"

text \<open>The if-chain: the core, \<open>next_branch_target\<close> and the trace.\<close>

definition exec_opcode :: "u16 \<Rightarrow> sh2_core \<Rightarrow> trace_log \<Rightarrow> sh2_core \<times> u32 option \<times> trace_log" where
  "exec_opcode instr c trace =
    (case first_some [exec_basic instr, exec_logic instr, exec_compare instr] c of
       Some c1 \<Rightarrow> (c1, None, trace)
     | None \<Rightarrow> (case exec_cond_branch instr c of
         Some (c1, target) \<Rightarrow> (c1, target, trace)
       | None \<Rightarrow> (case first_some [exec_system instr, exec_shift instr] c of
           Some c1 \<Rightarrow> (c1, None, trace)
         | None \<Rightarrow> exec_branch instr c trace)))"

definition snapshot :: "sh2_core \<Rightarrow> cpu_snapshot" where
  "snapshot c = \<lparr>snap_t = sh_t c, snap_cpu = sh_id c, snap_pc = sh_pc c, snap_sr = sh_sr c, snap_r = sh_r c\<rparr>"

text \<open>\<open>t_ += 1; ++executed_; trace.add_state(...)\<close>\<close>

definition retire :: "sh2_core \<Rightarrow> trace_log \<Rightarrow> sh2_core \<times> trace_log" where
  "retire c trace =
    (let c1 = c\<lparr>sh_t := sh_t c + 1, sh_executed := sh_executed c + 1\<rparr> in (c1, add_state (snapshot c1) trace))"

definition restore_sr :: "sh2_core \<Rightarrow> sh2_core" where
  "restore_sr c =
    (if pending_rte_restore c then c\<lparr>sh_sr := pending_new_sr c, pending_rte_restore := False\<rparr> else c)"

definition execute_instruction :: "u16 \<Rightarrow> sh2_core \<Rightarrow> trace_log \<Rightarrow> sh2_core \<times> trace_log" where
  "execute_instruction instr c trace =
    (let (c1, next, trace1) = exec_opcode instr (c\<lparr>pending_branch_target := None\<rparr>) trace;
         c2 = (case pending_branch_target c of
                 Some target \<Rightarrow> (restore_sr c1)\<lparr>sh_pc := target\<rparr>
               | None \<Rightarrow> (case next of Some target \<Rightarrow> c1\<lparr>pending_branch_target := Some target\<rparr> | None \<Rightarrow> c1))
     in retire c2 trace1)"

section \<open>Memory instructions on the cached path\<close>

definition data_access_kind :: "u32 \<Rightarrow> bool \<Rightarrow> bus_kind" where
  "data_access_kind p is_write =
    (if is_mmio p then (if is_write then MmioWrite else MmioRead) else if is_write then BusWrite else BusRead)"

text \<open>
  The access a memory instruction starts: the core after any pre-decrement, whether it writes, and the
  operation that becomes \<open>pending_mem_op_\<close>. The size selects the kind and the bits written.
\<close>

type_synonym access = "sh2_core \<times> bool \<times> pending_mem_op"

definition read_kind :: "u8 \<Rightarrow> mem_op_kind" where
  "read_kind sz = (if sz = 1 then ReadByte else if sz = 2 then ReadWord else ReadLong)"

definition write_kind :: "u8 \<Rightarrow> mem_op_kind" where
  "write_kind sz = (if sz = 1 then WriteByte else if sz = 2 then WriteWord else WriteLong)"

definition write_value :: "u8 \<Rightarrow> u32 \<Rightarrow> u32" where
  "write_value sz v = (if sz = 1 then v AND 0xFF else if sz = 2 then v AND 0xFFFF else v)"

definition load_access :: "u8 \<Rightarrow> u32 \<Rightarrow> u32 \<Rightarrow> sh2_core \<Rightarrow> access option" where
  "load_access sz vaddr dst c = Some (c, False, mem_op_of (read_kind sz) (to_phys vaddr) sz 0 dst)"

definition store_access :: "u8 \<Rightarrow> u32 \<Rightarrow> u32 \<Rightarrow> sh2_core \<Rightarrow> access option" where
  "store_access sz vaddr v c = Some (c, True, mem_op_of (write_kind sz) (to_phys vaddr) sz (write_value sz v) 0)"

text \<open>Size of the \<open>@(R0,Rm)\<close> and the post-increment or pre-decrement forms from the low nibble.\<close>

definition size3 :: "u16 \<Rightarrow> u16 \<Rightarrow> u8" where
  "size3 b lo = (if lo = b then 1 else if lo = b + 1 then 2 else 4)"

definition access_first :: "u16 \<Rightarrow> sh2_core \<Rightarrow> access option" where
  "access_first instr c =
    (let n = field_n instr; m = field_m instr; rn = gpr c n; rm = gpr c m; n0 = instr AND 0xF0FF;
         disp = field_disp4 instr; hi = instr AND 0xFF00; lo = instr AND 0x000F; nm = instr AND 0xF00F
     in if nm = 0x6000 then load_access 1 rm n c
     else if instr AND 0xF000 = 0x5000 then load_access 4 (rm + disp * 4) n c
     else if instr AND 0xF000 = 0x1000 then store_access 4 (rn + disp * 4) rm c
     else if n0 = 0x4022 \<or> is_sys_push n0 then
       (let c1 = write_reg n (rn - 4) c
        in store_access 4 (gpr c1 n) (if n0 = 0x4022 then sh_pr c1 else sys_push_value n0 c1) c1)
     else if is_sys_pop n0 then Some (c, False, sys_pop_op instr c)
     else if hi = 0x8500 then load_access 2 (rm + disp * 2) 0 c
     else if hi = 0x8400 then load_access 1 (rm + disp) 0 c
     else if nm = 0x6001 then load_access 2 rm n c
     else if nm = 0x000C \<or> nm = 0x000D \<or> nm = 0x000E then load_access (size3 0xC lo) (gpr c 0 + rm) n c
     else None)"

definition access_second :: "u16 \<Rightarrow> sh2_core \<Rightarrow> access option" where
  "access_second instr c =
    (let n = field_n instr; m = field_m instr; rn = gpr c n; rm = gpr c m; imm = field_imm8 instr;
         hi = instr AND 0xFF00; lo = instr AND 0x000F; nm = instr AND 0xF00F
     in if instr AND 0xF000 = 0x9000 then load_access 2 (sh_pc c + 4 + imm * 2) n c
     else if hi = 0xC400 then load_access 1 (sh_gbr c + imm) 0 c
     else if hi = 0xC500 then load_access 2 (sh_gbr c + imm * 2) 0 c
     else if hi = 0xC600 then load_access 4 (sh_gbr c + imm * 4) 0 c
     else if instr AND 0xF000 = 0xD000 then load_access 4 (((sh_pc c + 4) AND NOT 3) + imm * 4) n c
     else if nm = 0x6002 then load_access 4 rm n c
     else if nm = 0x6004 \<or> nm = 0x6005 \<or> nm = 0x6006 then
       (let sz = size3 4 lo
        in Some (c, False, (mem_op_of (read_kind sz) (to_phys rm) sz 0 n)
             \<lparr>post_inc_reg := Some m, post_inc_size := sz, post_inc_base_before := rm\<rparr>))
     else if nm = 0x2000 then store_access 1 rn rm c
     else if nm = 0x0004 \<or> nm = 0x0005 \<or> nm = 0x0006 then store_access (size3 4 lo) (gpr c 0 + rn) rm c
     else None)"

text \<open>
  The two displacement stores test the architectural encoding (\<open>0x81nd\<close>, \<open>0x80nd\<close>) and also the same
  opcode with the nibbles in another order (\<open>0x8nd1\<close>, \<open>0x8nd0\<close>).
\<close>

definition access_third :: "u16 \<Rightarrow> sh2_core \<Rightarrow> access option" where
  "access_third instr c =
    (let n = field_n instr; m = field_m instr; rn = gpr c n; rm = gpr c m; imm = field_imm8 instr;
         hi = instr AND 0xFF00; lo = instr AND 0x000F; nm = instr AND 0xF00F
     in if hi = 0xC000 then store_access 1 (sh_gbr c + imm) (gpr c 0) c
     else if hi = 0xC100 then store_access 2 (sh_gbr c + imm * 2) (gpr c 0) c
     else if hi = 0xC200 then store_access 4 (sh_gbr c + imm * 4) (gpr c 0) c
     else if nm = 0x8001 \<or> hi = 0x8100 then
       (let b = (if nm = 0x8001 then n else m); disp = (if nm = 0x8001 then m else field_disp4 instr)
        in store_access 2 (gpr c b + disp * 2) (gpr c 0) c)
     else if nm = 0x8000 \<or> hi = 0x8000 then
       (let b = (if nm = 0x8000 then n else m); disp = (if nm = 0x8000 then m else field_disp4 instr)
        in store_access 1 (gpr c b + disp) (gpr c 0) c)
     else if nm = 0x2004 \<or> nm = 0x2005 \<or> nm = 0x2006 then
       (let sz = size3 4 lo; c1 = write_reg n (rn - ucast sz) c in store_access sz (gpr c1 n) (gpr c1 m) c1)
     else if hi = 0xCC00 \<or> hi = 0xCE00 \<or> hi = 0xCF00 then
       (let k = (if hi = 0xCC00 then RmwAndByteRead else if hi = 0xCE00 then RmwXorByteRead else RmwOrByteRead)
        in Some (c, False, (mem_op_of k (to_phys (sh_gbr c + gpr c 0)) 1 0 0)\<lparr>aux := imm\<rparr>))
     else if nm = 0x2001 then store_access 2 rn rm c
     else if nm = 0x2002 then store_access 4 rn rm c
     else None)"

definition memory_access :: "u16 \<Rightarrow> sh2_core \<Rightarrow> access option" where
  "memory_access instr c =
    (case access_first instr c of Some a \<Rightarrow> Some a
     | None \<Rightarrow> (case access_second instr c of Some a \<Rightarrow> Some a | None \<Rightarrow> access_third instr c))"

section \<open>produce_until_bus\<close>

text \<open>The bus operation of a pending access; every access is issued with its own address, size and value.\<close>

definition access_op :: "sh2_core \<Rightarrow> u64 \<Rightarrow> bool \<Rightarrow> pending_mem_op \<Rightarrow> bus_op" where
  "access_op c seq w p =
     bus_op_of (sh_id c) (sh_t c) seq (data_access_kind (pm_addr p) w) (pm_addr p) (pm_size p) (pm_value p)"

definition is_write_kind :: "mem_op_kind \<Rightarrow> bool" where
  "is_write_kind k \<longleftrightarrow> k \<in> {WriteByte, WriteWord, WriteLong, ExceptionPushSr, ExceptionPushPc,
     TrapaPushSr, TrapaPushPc, RmwWriteByte}"

text \<open>
  The run-ahead loop: with \<open>k\<close> iterations left, the operation it stops at, the instructions executed,
  the core and the trace.
\<close>

fun run_ahead :: "nat \<Rightarrow> u64 \<Rightarrow> u64 \<Rightarrow> sh2_core \<Rightarrow> trace_log \<Rightarrow> (bus_op option \<times> u64) \<times> sh2_core \<times> trace_log" where
  "run_ahead 0 seq n c trace = ((None, n), c, trace)"
| "run_ahead (Suc k) seq n c trace =
    (let phys = to_phys (sh_pc c); fetch = bus_op_of (sh_id c) (sh_t c) seq IFetch phys 2 0
     in if is_uncached_alias (sh_pc c) \<or> is_mmio phys then ((Some fetch, n), c, trace)
     else case cache_read (icache c) phys 2 of
       None \<Rightarrow> ((Some (fetch\<lparr>fill_cache_line := True, cache_line_size := of_nat (line_size (icache c))\<rparr>), n), c, trace)
     | Some cached \<Rightarrow>
         (let instr = ucast cached
          in case memory_access instr c of
            Some (c1, w, p) \<Rightarrow> ((Some (access_op c1 seq w p), n), c1\<lparr>pending_mem := Some p\<rparr>, trace)
          | None \<Rightarrow> (let (c1, trace1) = execute_instruction instr c trace
                    in run_ahead k seq (n + 1) c1 trace1)))"

definition produce_until_bus ::
    "u64 \<Rightarrow> u32 \<Rightarrow> sh2_core \<Rightarrow> trace_log \<Rightarrow> (bus_op option \<times> u64) \<times> sh2_core \<times> trace_log" where
  "produce_until_bus seq budget c trace =
    (case pending_exception_vector c of
       Some vector \<Rightarrow>
         (let trace1 = add_fault \<lparr>fault_t = sh_t c, fault_cpu = sh_id c, fault_pc = sh_pc c,
                         fault_detail = vector, fault_reason = ''EXCEPTION_ENTRY''\<rparr> trace;
              c1 = write_reg 15 (gpr c 15 - 4) c;
              p = (mem_op_of ExceptionPushSr (to_phys (gpr c1 15)) 4 (sh_sr c1) 0)\<lparr>aux := vector\<rparr>
          in ((Some (access_op c1 seq True p), 0),
              c1\<lparr>pending_mem := Some p, pending_exception_vector := None\<rparr>, trace1))
     | None \<Rightarrow> (case pending_mem c of
         Some p \<Rightarrow> ((Some (access_op c seq (is_write_kind (pm_kind p)) p), 0), c, trace)
       | None \<Rightarrow> run_ahead (unat budget) seq 0 c trace))"

definition produce_ifetch :: "u64 \<Rightarrow> sh2_core \<Rightarrow> bus_op" where
  "produce_ifetch seq c = bus_op_of (sh_id c) (sh_t c) seq IFetch (to_phys (sh_pc c)) 2 0"

section \<open>apply_ifetch_and_step\<close>

text \<open>
  The transactions of exception entry, \<open>TRAPA\<close>, \<open>RTE\<close> and the read half of a read-modify-write, in which
  the instruction is not over: the core after the response, before it retires. \<open>None\<close> for the other kinds.
\<close>

definition rmw_byte :: "mem_op_kind \<Rightarrow> u8 \<Rightarrow> u8 \<Rightarrow> u8" where
  "rmw_byte k b imm = (if k = RmwAndByteRead then b AND imm else if k = RmwXorByteRead then b XOR imm else b OR imm)"

definition multi_step :: "pending_mem_op \<Rightarrow> u32 \<Rightarrow> sh2_core \<Rightarrow> sh2_core option" where
  "multi_step p v c =
    (case pm_kind p of
       ExceptionPushSr \<Rightarrow>
         (let c1 = write_reg 15 (gpr c 15 - 4) c
          in Some (c1\<lparr>pending_mem := Some ((mem_op_of ExceptionPushPc (to_phys (gpr c1 15)) 4 (sh_pc c1) 0)
               \<lparr>aux := aux p\<rparr>)\<rparr>))
     | ExceptionPushPc \<Rightarrow>
         Some (c\<lparr>pending_mem := Some (mem_op_of ExceptionVectorRead (to_phys (sh_vbr c + aux p * 4)) 4 0 0)\<rparr>)
     | ExceptionVectorRead \<Rightarrow> Some (c\<lparr>sh_pc := v, has_exception_return_context := True\<rparr>)
     | TrapaPushSr \<Rightarrow>
         (let c1 = write_reg 15 (gpr c 15 - 4) c
          in Some (c1\<lparr>pending_mem := Some (mem_op_of TrapaPushPc (to_phys (gpr c1 15)) 4 (sh_pc c1 + 2) 0)\<rparr>))
     | TrapaPushPc \<Rightarrow>
         Some (c\<lparr>pending_mem := Some (mem_op_of TrapaVectorRead
              (to_phys (sh_vbr c + the (pending_trapa_imm c) * 4)) 4 0 0)\<rparr>)
     | TrapaVectorRead \<Rightarrow>
         Some (c\<lparr>sh_pc := v, has_exception_return_context := True, pending_trapa_imm := None\<rparr>)
     | RtePopPc \<Rightarrow>
         (let c1 = write_reg 15 (gpr c 15 + 4) (c\<lparr>pending_new_pc := v\<rparr>)
          in Some (c1\<lparr>pending_mem := Some (mem_op_of RtePopSr (to_phys (gpr c1 15)) 4 0 0)\<rparr>))
     | RtePopSr \<Rightarrow>
         Some ((write_reg 15 (gpr c 15 + 4) (c\<lparr>pending_new_sr := v\<rparr>))
           \<lparr>pending_rte_restore := True, pending_branch_target := Some (pending_new_pc c),
            has_exception_return_context := False\<rparr>)
     | _ \<Rightarrow>
        (if pm_kind p \<in> {RmwAndByteRead, RmwXorByteRead, RmwOrByteRead} then
           Some (c\<lparr>pending_mem := Some (mem_op_of RmwWriteByte (pm_addr p) 1
                (ucast (rmw_byte (pm_kind p) (ucast v) (ucast (aux p)))) 0)\<rparr>)
         else None))"

text \<open>The register a completed load writes.\<close>

definition load_result :: "pending_mem_op \<Rightarrow> u32 \<Rightarrow> sh2_core \<Rightarrow> sh2_core" where
  "load_result p v c =
    (if pm_kind p = ReadLong then
       (if aux p = kLoadAuxPr then c\<lparr>sh_pr := v\<rparr>
        else if aux p = kLoadAuxSr then c\<lparr>sh_sr := v\<rparr>
        else if aux p = kLoadAuxGbr then c\<lparr>sh_gbr := v\<rparr>
        else if aux p = kLoadAuxVbr then c\<lparr>sh_vbr := v\<rparr>
        else if aux p = kLoadAuxMach then c\<lparr>sh_mach := v\<rparr>
        else if aux p = kLoadAuxMacl then c\<lparr>sh_macl := v\<rparr>
        else write_reg (dst_reg p) v c)
     else if pm_kind p = ReadWord then write_reg (dst_reg p) (of_int (sint (ucast v :: u16))) c
     else if pm_kind p = ReadByte then write_reg (dst_reg p) (of_int (sint (ucast v :: u8))) c
     else c)"

definition post_increment :: "pending_mem_op \<Rightarrow> sh2_core \<Rightarrow> sh2_core" where
  "post_increment p c =
    (case post_inc_reg p of
       Some r \<Rightarrow> (if r \<noteq> dst_reg p then write_reg r (gpr c r + ucast (post_inc_size p)) c else c)
     | None \<Rightarrow> c)"

text \<open>Where a completed memory instruction goes: to the pending branch target or on.\<close>

definition leave_slot :: "sh2_core \<Rightarrow> sh2_core" where
  "leave_slot c =
    (case pending_branch_target c of
       Some target \<Rightarrow> (restore_sr c)\<lparr>sh_pc := target, pending_branch_target := None\<rparr>
     | None \<Rightarrow> advance c)"

definition complete_access :: "pending_mem_op \<Rightarrow> u32 \<Rightarrow> sh2_core \<Rightarrow> sh2_core" where
  "complete_access p v c =
    (case multi_step p v c of
       Some c1 \<Rightarrow> c1
     | None \<Rightarrow> leave_slot (post_increment p (load_result p v c)))"

definition fill_icache :: "bus_response \<Rightarrow> sh2_core \<Rightarrow> trace_log \<Rightarrow> sh2_core \<times> trace_log" where
  "fill_icache rsp c trace =
    (if line_data rsp = [] then (c, trace)
     else let phys = to_phys (sh_pc c)
       in if line_base rsp \<noteq> phys div of_nat (line_size (icache c)) \<or>
             length (line_data rsp) \<noteq> line_size (icache c) then
            (c, add_fault \<lparr>fault_t = sh_t c, fault_cpu = sh_id c, fault_pc = sh_pc c, fault_detail = phys,
               fault_reason = ''CACHE_FILL_MISMATCH''\<rparr> trace)
          else (c\<lparr>icache := fill_line (icache c) (line_base rsp) (line_data rsp)\<rparr>, trace))"

definition apply_ifetch_and_step :: "bus_response \<Rightarrow> sh2_core \<Rightarrow> trace_log \<Rightarrow> sh2_core \<times> trace_log" where
  "apply_ifetch_and_step rsp c0 trace =
    (let c = c0\<lparr>sh_t := sh_t c0 + rsp_stall rsp\<rparr>
     in case pending_mem c of
          Some p \<Rightarrow> retire (complete_access p (rsp_value rsp) (c\<lparr>pending_mem := None\<rparr>)) trace
        | None \<Rightarrow> (let (c1, trace1) = fill_icache rsp c trace
                  in execute_instruction (ucast (rsp_value rsp)) c1 trace1))"

section \<open>step and the accessors\<close>

definition request_exception_vector :: "u32 \<Rightarrow> sh2_core \<Rightarrow> sh2_core" where
  "request_exception_vector vector c = c\<lparr>pending_exception_vector := Some vector\<rparr>"

definition set_pr :: "u32 \<Rightarrow> sh2_core \<Rightarrow> sh2_core" where
  "set_pr v c = c\<lparr>sh_pr := v\<rparr>"

text \<open>\<open>reg(index)\<close>: the index is masked to four bits.\<close>

definition sh2_reg :: "u64 \<Rightarrow> sh2_core \<Rightarrow> u32" where
  "sh2_reg i c = sh_r c ! unat (i AND 0xF)"

text \<open>\<open>step\<close>; its trace is the one the arbiter writes to.\<close>

definition sh2_step :: "u64 \<Rightarrow> sh2_core \<Rightarrow> bus_arbiter \<Rightarrow> sh2_core \<times> bus_arbiter" where
  "sh2_step seq c a =
    (let ((op, n), c1, trace1) = produce_until_bus seq 1 c (arb_trace a);
         a1 = a\<lparr>arb_trace := trace1\<rparr>
     in case op of
          None \<Rightarrow> (c1, a1)
        | Some o' \<Rightarrow>
            (let (rsp, a2) = bus_commit a1 o';
                 (c2, trace2) = apply_ifetch_and_step rsp c1 (arb_trace a2)
             in (c2, a2\<lparr>arb_trace := trace2\<rparr>)))"

text \<open>The families in which a proof looks an opcode up.\<close>

declare exec_basic_def [dispatch] exec_logic_def [dispatch] exec_compare_def [dispatch]
  exec_cond_branch_def [dispatch] exec_system_def [dispatch] exec_shift_def [dispatch]
  is_sys_push_def [dispatch] is_sys_pop_def [dispatch]

end
