(* ===== verification/Sh2Exec.thy ===== *)
theory Sh2Exec
  imports Sh2Core
begin

text \<open>
  Facts about the SH-2 core that its properties share: what each group of opcodes leaves alone, the
  invariant of the core, the counters of a retired step, and the bus operations the core asks for.
\<close>

section \<open>What the groups leave alone\<close>

text \<open>
  Executing an opcode keeps the identity of the core, its cache, its exception request and return
  context, the pending branch and the number of registers; it takes at most one extra tick.
\<close>

definition exec_frame :: "sh2_core \<Rightarrow> sh2_core \<Rightarrow> bool" where
  "exec_frame c c' \<longleftrightarrow>
     sh_id c' = sh_id c \<and> icache c' = icache c \<and> length (sh_r c') = length (sh_r c) \<and>
     sh_executed c' = sh_executed c \<and> pending_branch_target c' = pending_branch_target c \<and>
     pending_exception_vector c' = pending_exception_vector c \<and>
     has_exception_return_context c' = has_exception_return_context c \<and>
     pending_new_pc c' = pending_new_pc c \<and> pending_new_sr c' = pending_new_sr c \<and>
     pending_rte_restore c' = pending_rte_restore c \<and> (sh_t c' = sh_t c \<or> sh_t c' = sh_t c + 1)"

definition no_access :: "sh2_core \<Rightarrow> sh2_core \<Rightarrow> bool" where
  "no_access c c' \<longleftrightarrow> pending_mem c' = pending_mem c \<and> pending_trapa_imm c' = pending_trapa_imm c"

lemma exec_frame_refl [simp]: "exec_frame c c" and no_access_refl [simp]: "no_access c c"
  by (simp_all add: exec_frame_def no_access_def)

lemma exec_frame_set [simp]:
  "exec_frame c (advance d) = exec_frame c d"
  "exec_frame c (write_reg n v d) = exec_frame c d"
  "exec_frame c (set_sr_bit b f d) = exec_frame c d"
  "exec_frame c (d\<lparr>sh_pc := w\<rparr>) = exec_frame c d" "exec_frame c (d\<lparr>sh_sr := w\<rparr>) = exec_frame c d"
  "exec_frame c (d\<lparr>sh_pr := w\<rparr>) = exec_frame c d" "exec_frame c (d\<lparr>sh_gbr := w\<rparr>) = exec_frame c d"
  "exec_frame c (d\<lparr>sh_vbr := w\<rparr>) = exec_frame c d" "exec_frame c (d\<lparr>sh_mach := w\<rparr>) = exec_frame c d"
  "exec_frame c (d\<lparr>sh_macl := w\<rparr>) = exec_frame c d" "exec_frame c (d\<lparr>pending_mem := p\<rparr>) = exec_frame c d"
  "exec_frame c (d\<lparr>pending_trapa_imm := i\<rparr>) = exec_frame c d"
  by (simp_all add: exec_frame_def advance_def write_reg_def set_sr_bit_def)

lemma no_access_set [simp]:
  "no_access c (advance d) = no_access c d"
  "no_access c (write_reg n v d) = no_access c d"
  "no_access c (set_sr_bit b f d) = no_access c d"
  "no_access c (d\<lparr>sh_pc := w\<rparr>) = no_access c d" "no_access c (d\<lparr>sh_sr := w\<rparr>) = no_access c d"
  "no_access c (d\<lparr>sh_pr := w\<rparr>) = no_access c d" "no_access c (d\<lparr>sh_gbr := w\<rparr>) = no_access c d"
  "no_access c (d\<lparr>sh_vbr := w\<rparr>) = no_access c d" "no_access c (d\<lparr>sh_mach := w\<rparr>) = no_access c d"
  "no_access c (d\<lparr>sh_macl := w\<rparr>) = no_access c d"
  by (simp_all add: no_access_def advance_def write_reg_def set_sr_bit_def)

lemma exec_basic_frame: "exec_basic instr c = Some c' \<Longrightarrow> exec_frame c c' \<and> no_access c c'"
  by (auto simp: exec_basic_def Let_def split: if_splits)

lemma exec_logic_frame: "exec_logic instr c = Some c' \<Longrightarrow> exec_frame c c' \<and> no_access c c'"
  by (auto simp: exec_logic_def Let_def split: if_splits)

lemma exec_compare_frame: "exec_compare instr c = Some c' \<Longrightarrow> exec_frame c c' \<and> no_access c c'"
  by (auto simp: exec_compare_def exec_div1_def Let_def split: if_splits)

lemma exec_cond_branch_frame:
  "exec_cond_branch instr c = Some (c', target) \<Longrightarrow> exec_frame c c' \<and> no_access c c'"
  by (auto simp: exec_cond_branch_def Let_def split: if_splits)

lemma exec_shift_frame: "exec_shift instr c = Some c' \<Longrightarrow> exec_frame c c' \<and> no_access c c'"
  by (auto simp: exec_shift_def Let_def split: if_splits)

text \<open>The transactions an opcode may leave pending, and the invariant of the core they are part of.\<close>

definition access_ok :: "sh2_core \<Rightarrow> bool" where
  "access_ok c \<longleftrightarrow> (\<forall>p. pending_mem c = Some p \<longrightarrow>
     unat (dst_reg p) < 16 \<and> (\<forall>r. post_inc_reg p = Some r \<longrightarrow> unat r < 16) \<and> valid_bus_size (pm_size p) \<and>
     (pm_kind p \<in> {TrapaPushSr, TrapaPushPc} \<longrightarrow> pending_trapa_imm c \<noteq> None))"

definition sh2_ok :: "sh2_core \<Rightarrow> bool" where
  "sh2_ok c \<longleftrightarrow> length (sh_r c) = 16 \<and> access_ok c \<and>
     (pending_rte_restore c \<longrightarrow> pending_branch_target c \<noteq> None)"

lemma no_access_ok: "no_access c c' \<Longrightarrow> access_ok c \<Longrightarrow> access_ok c'"
  by (simp add: no_access_def access_ok_def)

lemma access_ok_None [simp]: "pending_mem c = None \<Longrightarrow> access_ok c"
  by (simp add: access_ok_def)

lemma fields_set [simp]:
  "pending_mem (advance c) = pending_mem c" "pending_trapa_imm (advance c) = pending_trapa_imm c"
  "pending_mem (write_reg n v c) = pending_mem c" "pending_trapa_imm (write_reg n v c) = pending_trapa_imm c"
  "pending_mem (set_sr_bit b f c) = pending_mem c" "pending_trapa_imm (set_sr_bit b f c) = pending_trapa_imm c"
  "length (sh_r (write_reg n v c)) = length (sh_r c)" "sh_r (advance c) = sh_r c"
  "sh_r (set_sr_bit b f c) = sh_r c" "sh_pc (advance c) = sh_pc c + 2" "sh_pc (write_reg n v c) = sh_pc c"
  "sh_pc (set_sr_bit b f c) = sh_pc c" "sh_sr (advance c) = sh_sr c" "sh_sr (write_reg n v c) = sh_sr c"
  by (simp_all add: advance_def write_reg_def set_sr_bit_def)

lemma mem_op_of_fields [simp]:
  "pm_kind (mem_op_of k a n v d) = k" "pm_addr (mem_op_of k a n v d) = a" "pm_size (mem_op_of k a n v d) = n"
  "pm_value (mem_op_of k a n v d) = v" "dst_reg (mem_op_of k a n v d) = d"
  "post_inc_reg (mem_op_of k a n v d) = None" "aux (mem_op_of k a n v d) = 0"
  by (simp_all add: mem_op_of_def)

lemma exec_system_frame:
  assumes "exec_system instr c = Some c'"
  shows "exec_frame c c' \<and> (access_ok c \<longrightarrow> access_ok c')"
proof
  show "exec_frame c c'"
    using assms by (auto simp: exec_system_def Let_def split: if_splits) (simp_all add: exec_frame_def advance_def)
  show "access_ok c \<longrightarrow> access_ok c'"
    using assms
    by (auto simp: exec_system_def Let_def access_ok_def sys_pop_op_def valid_bus_size_def split: if_splits)
qed

lemma exec_branch_frame:
  assumes "exec_branch instr c trace = (c', target, trace')"
  shows "exec_frame c c' \<and> (access_ok c \<longrightarrow> access_ok c') \<and> (trace' = trace \<or> (\<exists>f. trace' = add_fault f trace))"
  using assms
  by (auto simp: exec_branch_def Let_def access_ok_def valid_bus_size_def split: if_splits)

lemma exec_opcode_frame:
  assumes "exec_opcode instr c trace = (c', target, trace')"
  shows "exec_frame c c' \<and> (access_ok c \<longrightarrow> access_ok c') \<and> (trace' = trace \<or> (\<exists>f. trace' = add_fault f trace))"
  using assms
  by (auto simp: exec_opcode_def split: option.splits
      dest: exec_basic_frame exec_logic_frame exec_compare_frame exec_cond_branch_frame exec_system_frame
        exec_shift_frame exec_branch_frame no_access_ok)

section \<open>One instruction\<close>

text \<open>Where control goes after an instruction: a delay slot ends at the pending target.\<close>

definition settle :: "u32 option \<Rightarrow> sh2_core \<Rightarrow> u32 option \<Rightarrow> sh2_core" where
  "settle delay c target =
    (case delay of
       Some t \<Rightarrow> (restore_sr c)\<lparr>sh_pc := t\<rparr>
     | None \<Rightarrow> (case target of Some t \<Rightarrow> c\<lparr>pending_branch_target := Some t\<rparr> | None \<Rightarrow> c))"

lemma execute_instruction_eq:
  "execute_instruction instr c trace =
    (let (c1, target, trace1) = exec_opcode instr (c\<lparr>pending_branch_target := None\<rparr>) trace
     in retire (settle (pending_branch_target c) c1 target) trace1)"
  by (simp add: execute_instruction_def settle_def Let_def split_def split: option.splits)

lemma settle_fields [simp]:
  "sh_id (settle d c t) = sh_id c" "icache (settle d c t) = icache c" "sh_r (settle d c t) = sh_r c"
  "sh_executed (settle d c t) = sh_executed c" "sh_t (settle d c t) = sh_t c"
  "pending_mem (settle d c t) = pending_mem c" "pending_trapa_imm (settle d c t) = pending_trapa_imm c"
  "pending_exception_vector (settle d c t) = pending_exception_vector c"
  by (simp_all add: settle_def restore_sr_def split: option.splits)

text \<open>
  A retired step: one instruction counted, its tick, and one state line, possibly after a fault line.
\<close>

definition one_step :: "sh2_core \<Rightarrow> trace_log \<Rightarrow> sh2_core \<Rightarrow> trace_log \<Rightarrow> bool" where
  "one_step c trace c' trace' \<longleftrightarrow>
     sh_id c' = sh_id c \<and> sh_executed c' = sh_executed c + 1 \<and> (sh_t c' = sh_t c + 1 \<or> sh_t c' = sh_t c + 2) \<and>
     pending_exception_vector c' = pending_exception_vector c \<and>
     (\<exists>fs. events trace' = events trace @ map FaultLine fs @ [StateLine (snapshot c')])"

lemma events_add [simp]:
  "events (add_fault f trace) = events trace @ [FaultLine f]"
  "events (add_state s trace) = events trace @ [StateLine s]"
  by (simp_all add: add_fault_def add_state_def Let_def)

lemma execute_instruction_step:
  assumes "execute_instruction instr c trace = (c', trace')"
  shows "one_step c trace c' trace' \<and> icache c' = icache c \<and> (sh2_ok c \<longrightarrow> sh2_ok c')"
proof -
  let ?d = "c\<lparr>pending_branch_target := None\<rparr>"
  obtain c1 target trace1 where e: "exec_opcode instr ?d trace = (c1, target, trace1)"
    by (metis prod.exhaust)
  have f: "exec_frame ?d c1" and a: "access_ok ?d \<longrightarrow> access_ok c1"
    and t: "trace1 = trace \<or> (\<exists>f. trace1 = add_fault f trace)"
    using exec_opcode_frame [OF e] by auto
  let ?s = "settle (pending_branch_target c) c1 target"
  have c': "c' = ?s\<lparr>sh_t := sh_t c1 + 1, sh_executed := sh_executed c1 + 1\<rparr>"
    and t': "trace' = add_state (snapshot c') trace1"
    using assms by (auto simp: execute_instruction_eq e retire_def Let_def)
  have "\<exists>fs. events trace' = events trace @ map FaultLine fs @ [StateLine (snapshot c')]"
    using t by (auto simp: t' intro: exI [of _ "[]"] exI [of _ "[f]" for f])
  then have "one_step c trace c' trace'"
    using f by (auto simp: one_step_def c' exec_frame_def)
  moreover have "icache c' = icache c" using f by (simp add: c' exec_frame_def)
  moreover have "sh2_ok c'" if ok: "sh2_ok c"
  proof -
    have "access_ok ?d" using ok by (simp add: sh2_ok_def access_ok_def)
    with a have "access_ok c1" by simp
    then show ?thesis
      using ok f by (auto simp: sh2_ok_def c' exec_frame_def access_ok_def settle_def restore_sr_def
          split: option.splits)
  qed
  ultimately show ?thesis by blast
qed

section \<open>Responses\<close>

text \<open>A step of a multi-transaction instruction moves neither time nor the instruction count.\<close>

definition same_counters :: "sh2_core \<Rightarrow> sh2_core \<Rightarrow> bool" where
  "same_counters c c' \<longleftrightarrow> sh_id c' = sh_id c \<and> sh_executed c' = sh_executed c \<and> sh_t c' = sh_t c \<and>
     icache c' = icache c \<and> pending_exception_vector c' = pending_exception_vector c \<and>
     length (sh_r c') = length (sh_r c)"

lemma same_counters_write [simp]: "same_counters c (write_reg n v d) = same_counters c d"
  by (simp add: same_counters_def write_reg_def)

lemma multi_step_counters: "multi_step p v c = Some c' \<Longrightarrow> same_counters c c'"
  by (auto simp: multi_step_def same_counters_def Let_def write_reg_def split: mem_op_kind.splits if_splits)

lemma complete_access_counters: "same_counters c (complete_access p v c)"
  by (auto simp: complete_access_def leave_slot_def post_increment_def load_result_def restore_sr_def advance_def
      same_counters_def write_reg_def dest: multi_step_counters [unfolded same_counters_def] split: option.splits)

lemma multi_step_ok:
  assumes "multi_step p v c = Some c'" "length (sh_r c) = 16" "pending_mem c = None"
    and "pm_kind p \<in> {TrapaPushSr, TrapaPushPc} \<longrightarrow> pending_trapa_imm c \<noteq> None"
    and "pending_rte_restore c \<longrightarrow> pending_branch_target c \<noteq> None"
  shows "sh2_ok c'"
  using assms
  by (auto simp: multi_step_def sh2_ok_def Let_def write_reg_def access_ok_def valid_bus_size_def
      split: mem_op_kind.splits if_splits)

lemma leave_slot_ok:
  assumes "length (sh_r c) = 16" "pending_mem c = None"
    and "pending_rte_restore c \<longrightarrow> pending_branch_target c \<noteq> None"
  shows "sh2_ok (leave_slot c)"
  using assms by (auto simp: leave_slot_def sh2_ok_def restore_sr_def advance_def split: option.splits)

lemma complete_access_ok:
  assumes "sh2_ok c" "pending_mem c = Some p"
  shows "sh2_ok (complete_access p v (c\<lparr>pending_mem := None\<rparr>))"
proof (cases "multi_step p v (c\<lparr>pending_mem := None\<rparr>)")
  case None
  have "sh2_ok (leave_slot (post_increment p (load_result p v (c\<lparr>pending_mem := None\<rparr>))))"
    using assms
    by (intro leave_slot_ok)
       (auto simp: sh2_ok_def post_increment_def load_result_def write_reg_def split: option.splits)
  with None show ?thesis by (simp add: complete_access_def)
next
  case (Some c')
  then have "sh2_ok c'"
    by (rule multi_step_ok) (use assms in \<open>auto simp: sh2_ok_def access_ok_def\<close>)
  with Some show ?thesis by (simp add: complete_access_def)
qed

lemma retire_fields [simp]:
  "sh2_ok (fst (retire c trace)) = sh2_ok c" "icache (fst (retire c trace)) = icache c"
  by (simp_all add: retire_def Let_def sh2_ok_def access_ok_def)

lemma retire_step:
  assumes "same_counters c d" "retire d trace = (c', trace')"
  shows "one_step c trace c' trace'"
  using assms by (auto simp: retire_def Let_def one_step_def same_counters_def intro: exI [of _ "[]"])

lemma fill_icache_fields:
  assumes "fill_icache rsp c trace = (c', trace')"
  shows "c' = c\<lparr>icache := icache c'\<rparr>" "sh2_ok c' = sh2_ok c"
    "\<exists>fs. events trace' = events trace @ map FaultLine fs"
  using assms
  by (auto simp: fill_icache_def Let_def sh2_ok_def access_ok_def split: if_splits
      intro: exI [of _ "[]"] exI [of _ "[f]" for f])

lemma apply_step:
  assumes "apply_ifetch_and_step rsp c trace = (c', trace')"
  shows "one_step (c\<lparr>sh_t := sh_t c + rsp_stall rsp\<rparr>) trace c' trace'"
proof (cases "pending_mem c")
  case None
  let ?c = "c\<lparr>sh_t := sh_t c + rsp_stall rsp\<rparr>"
  obtain c1 trace1 where f: "fill_icache rsp ?c trace = (c1, trace1)" by (metis prod.exhaust)
  have e: "execute_instruction (ucast (rsp_value rsp)) c1 trace1 = (c', trace')"
    using assms None f by (simp add: apply_ifetch_and_step_def Let_def)
  obtain fs where fs: "events trace1 = events trace @ map FaultLine fs" using fill_icache_fields(3) [OF f] by blast
  obtain gs where gs: "events trace' = events trace1 @ map FaultLine gs @ [StateLine (snapshot c')]"
    using execute_instruction_step [OF e] by (auto simp: one_step_def)
  have "events trace' = events trace @ map FaultLine (fs @ gs) @ [StateLine (snapshot c')]"
    by (simp add: fs gs)
  then have t: "\<exists>fs. events trace' = events trace @ map FaultLine fs @ [StateLine (snapshot c')]" by blast
  have "sh_id c1 = sh_id c" "sh_executed c1 = sh_executed c" "sh_t c1 = sh_t ?c"
    "pending_exception_vector c1 = pending_exception_vector c"
    by (subst fill_icache_fields(1) [OF f], simp)+
  with t execute_instruction_step [OF e] show ?thesis by (auto simp: one_step_def)
next
  case (Some p)
  let ?c = "c\<lparr>sh_t := sh_t c + rsp_stall rsp\<rparr>"
  have "same_counters ?c (complete_access p (rsp_value rsp) (?c\<lparr>pending_mem := None\<rparr>))"
    using complete_access_counters [of "?c\<lparr>pending_mem := None\<rparr>" p "rsp_value rsp"]
    by (simp add: same_counters_def)
  moreover have "retire (complete_access p (rsp_value rsp) (?c\<lparr>pending_mem := None\<rparr>)) trace = (c', trace')"
    using assms Some by (simp add: apply_ifetch_and_step_def Let_def)
  ultimately show ?thesis by (rule retire_step)
qed

lemma apply_ok:
  assumes "sh2_ok c"
  shows "sh2_ok (fst (apply_ifetch_and_step rsp c trace))"
proof (cases "pending_mem c")
  case None
  let ?c = "c\<lparr>sh_t := sh_t c + rsp_stall rsp\<rparr>"
  obtain c1 trace1 where f: "fill_icache rsp ?c trace = (c1, trace1)" by (metis prod.exhaust)
  have "sh2_ok ?c" using assms by (simp add: sh2_ok_def access_ok_def)
  with fill_icache_fields(2) [OF f] have "sh2_ok c1" by simp
  then have "sh2_ok (fst (execute_instruction (ucast (rsp_value rsp)) c1 trace1))"
    using execute_instruction_step [OF prod.collapse [symmetric]] by blast
  then show ?thesis using None f by (simp add: apply_ifetch_and_step_def Let_def)
next
  case (Some p)
  let ?c = "c\<lparr>sh_t := sh_t c + rsp_stall rsp\<rparr>"
  have "sh2_ok ?c" using assms by (simp add: sh2_ok_def access_ok_def)
  from complete_access_ok [OF this, of p] Some show ?thesis
    by (simp add: apply_ifetch_and_step_def Let_def)
qed

section \<open>Requests\<close>

text \<open>
  What \<open>memory_access\<close> hands on: the core with at most a register changed, and an access whose kind says
  whether it writes.
\<close>

definition starts_access :: "sh2_core \<Rightarrow> access \<Rightarrow> bool" where
  "starts_access c a \<longleftrightarrow>
     (case a of (c1, w, p) \<Rightarrow> (\<exists>n v. c1 = c \<or> c1 = write_reg n v c) \<and> w = is_write_kind (pm_kind p) \<and>
        valid_bus_size (pm_size p) \<and> unat (dst_reg p) < 16 \<and> (\<forall>r. post_inc_reg p = Some r \<longrightarrow> unat r < 16) \<and>
        pm_kind p \<notin> {TrapaPushSr, TrapaPushPc})"

lemma size3_valid [simp]: "valid_bus_size (size3 b lo)" "valid_bus_size 1" "valid_bus_size 2" "valid_bus_size 4"
  by (simp_all add: size3_def valid_bus_size_def)

lemma kinds_write [simp]:
  "\<not> is_write_kind (read_kind sz)" "is_write_kind (write_kind sz)"
  "read_kind sz \<noteq> TrapaPushSr" "read_kind sz \<noteq> TrapaPushPc" "write_kind sz \<noteq> TrapaPushSr" "write_kind sz \<noteq> TrapaPushPc"
  by (simp_all add: read_kind_def write_kind_def is_write_kind_def)

lemma load_access_starts:
  "load_access sz a d c = Some r \<Longrightarrow> valid_bus_size sz \<Longrightarrow> unat d < 16 \<Longrightarrow> starts_access c r"
  by (auto simp: load_access_def starts_access_def)

lemma store_access_starts:
  assumes "store_access sz a v c1 = Some r" "valid_bus_size sz" "c1 = c \<or> c1 = write_reg n w c"
  shows "starts_access c r"
  using assms
  by (auto simp: store_access_def starts_access_def)

lemma sys_pop_starts: "starts_access c (c, False, sys_pop_op instr c)"
  by (simp add: starts_access_def sys_pop_op_def Let_def is_write_kind_def)

lemma access_first_starts: "access_first instr c = Some r \<Longrightarrow> starts_access c r"
  by (auto simp: access_first_def Let_def sys_pop_starts split: if_splits
      elim!: load_access_starts store_access_starts)

lemma access_second_starts: "access_second instr c = Some r \<Longrightarrow> starts_access c r"
  by (auto simp: access_second_def Let_def split: if_splits
      elim!: load_access_starts store_access_starts)
     (auto simp: starts_access_def split: if_splits)

lemma access_third_starts: "access_third instr c = Some r \<Longrightarrow> starts_access c r"
  by (auto simp: access_third_def Let_def split: if_splits elim!: store_access_starts)
     (auto simp: starts_access_def is_write_kind_def)

lemma memory_access_starts: "memory_access instr c = Some r \<Longrightarrow> starts_access c r"
  by (auto simp: memory_access_def split: option.splits
      dest: access_first_starts access_second_starts access_third_starts)

text \<open>A trace that does not halt on faults keeps its flags.\<close>

definition same_halt :: "trace_log \<Rightarrow> trace_log \<Rightarrow> bool" where
  "same_halt tr tr' \<longleftrightarrow> halt_on_fault tr' = halt_on_fault tr \<and> (\<not> halt_on_fault tr \<longrightarrow> should_halt tr' = should_halt tr)"

lemma same_halt_add [simp]:
  "same_halt tr (add_state s tr') = same_halt tr tr'" "same_halt tr tr" "same_halt tr (add_fault f tr)"
  "same_halt tr tr' \<Longrightarrow> same_halt tr (add_fault f tr')"
  by (auto simp: same_halt_def add_state_def add_fault_def Let_def)

lemma same_halt_fault: "same_halt (add_fault f tr) tr' \<Longrightarrow> same_halt tr tr'"
  by (auto simp: same_halt_def add_fault_def Let_def split: if_splits)

lemma same_halt_trans: "same_halt a b \<Longrightarrow> same_halt b d \<Longrightarrow> same_halt a d"
  by (simp add: same_halt_def)

lemma retire_halt: "retire c tr = (c', tr') \<Longrightarrow> same_halt tr tr'"
  by (auto simp: retire_def Let_def)

lemma execute_instruction_halt: "execute_instruction instr c tr = (c', tr') \<Longrightarrow> same_halt tr tr'"
  by (auto simp: execute_instruction_eq Let_def split: prod.splits dest!: retire_halt exec_opcode_frame
      intro: same_halt_trans same_halt_fault)

lemma apply_halt: "apply_ifetch_and_step rsp c tr = (c', tr') \<Longrightarrow> same_halt tr tr'"
  by (auto simp: apply_ifetch_and_step_def fill_icache_def Let_def split: option.splits if_splits prod.splits
      dest!: retire_halt execute_instruction_halt intro: same_halt_trans same_halt_fault)

section \<open>Running ahead\<close>

text \<open>
  The effect of a run-ahead of at most \<open>k\<close> instructions that executes \<open>j\<close> of them in \<open>d\<close> ticks.
\<close>

definition ran_ahead :: "nat \<Rightarrow> nat \<Rightarrow> nat \<Rightarrow> sh2_core \<Rightarrow> sh2_core \<Rightarrow> bool" where
  "ran_ahead k j d c c' \<longleftrightarrow> j \<le> k \<and> j \<le> d \<and> d \<le> 2 * j \<and> sh_executed c' = sh_executed c + of_nat j \<and>
     sh_t c' = sh_t c + of_nat d \<and> sh_id c' = sh_id c \<and> (sh2_ok c \<longrightarrow> sh2_ok c')"

definition asks :: "sh2_core \<Rightarrow> u64 \<Rightarrow> bus_op \<Rightarrow> bool" where
  "asks c seq op \<longleftrightarrow> cpu_id op = sh_id c \<and> req_time op = sh_t c \<and> op_sequence op = seq \<and>
     valid_bus_size (op_size op) \<and> producer op = ProducerAuto \<and> kind op \<noteq> BusBarrier"

lemma asks_fetch [simp]:
  "asks c seq (bus_op_of (sh_id c) (sh_t c) seq IFetch p 2 v)"
  "asks c seq ((bus_op_of (sh_id c) (sh_t c) seq IFetch p 2 v)\<lparr>fill_cache_line := f, cache_line_size := n\<rparr>)"
  by (simp_all add: asks_def bus_op_of_def)

lemma asks_access [simp]: "asks c seq (access_op c seq w p) = valid_bus_size (pm_size p)"
  by (auto simp: asks_def access_op_def bus_op_of_def data_access_kind_def)

lemma starts_access_ok:
  assumes "starts_access c (c1, w, p)"
  shows "ran_ahead k 0 0 c (c1\<lparr>pending_mem := Some p\<rparr>)" "asks (c1\<lparr>pending_mem := Some p\<rparr>) seq (access_op c1 seq w p)"
    "w = is_write_kind (pm_kind p)"
  using assms
  by (auto simp: starts_access_def ran_ahead_def sh2_ok_def access_ok_def write_reg_def asks_def access_op_def
      bus_op_of_def data_access_kind_def)

lemma ran_ahead_step:
  assumes "one_step c tr c1 tr1" "sh2_ok c \<longrightarrow> sh2_ok c1" "ran_ahead k j d c1 c'"
  shows "ran_ahead (Suc k) (Suc j) (Suc d) c c' \<or> ran_ahead (Suc k) (Suc j) (Suc (Suc d)) c c'"
  using assms by (auto simp: one_step_def ran_ahead_def)

lemma run_ahead_effect:
  assumes "run_ahead k seq n c trace = ((op, n'), c', trace')"
  shows "\<exists>j d. ran_ahead k j d c c' \<and> n' = n + of_nat j \<and> (op = None \<longrightarrow> j = k) \<and>
    (\<forall>x. op = Some x \<longrightarrow> asks c' seq x) \<and> icache c' = icache c \<and> same_halt trace trace' \<and>
    pending_exception_vector c' = pending_exception_vector c"
  using assms
proof (induction k seq n c trace rule: run_ahead.induct)
  case (1 seq n c trace)
  then show ?case by (auto simp: ran_ahead_def)
next
  case (2 k seq n c trace)
  have stop: ?case if "op = Some x" "n' = n" "c' = c" "trace' = trace" "asks c seq x" for x
    using that by (intro exI [of _ 0]) (auto simp: ran_ahead_def)
  show ?case
  proof (cases "is_uncached_alias (sh_pc c) \<or> is_mmio (to_phys (sh_pc c))")
    case True
    with "2.prems" show ?thesis by (intro stop) auto
  next
    case cached: False
    show ?thesis
    proof (cases "cache_read (icache c) (to_phys (sh_pc c)) 2")
      case None
      with "2.prems" cached show ?thesis by (intro stop) auto
    next
      case (Some v)
      show ?thesis
      proof (cases "memory_access (ucast v) c")
        case (Some a)
        obtain c1 w p where a: "a = (c1, w, p)" by (cases a)
        have m: "starts_access c (c1, w, p)" using memory_access_starts Some a by blast
        have r: "op = Some (access_op c1 seq w p)" "n' = n" "c' = c1\<lparr>pending_mem := Some p\<rparr>" "trace' = trace"
          using "2.prems" cached \<open>cache_read _ _ _ = Some v\<close> Some a by (auto simp: Let_def)
        have "icache c' = icache c" "pending_exception_vector c' = pending_exception_vector c"
          using m r(3) by (auto simp: starts_access_def write_reg_def)
        with r starts_access_ok [OF m] show ?thesis by (intro exI [of _ 0]) auto
      next
        case None
        obtain c1 trace1 where e: "execute_instruction (ucast v) c trace = (c1, trace1)" by (metis prod.exhaust)
        have r: "run_ahead k seq (n + 1) c1 trace1 = ((op, n'), c', trace')"
          using "2.prems" cached \<open>cache_read _ _ _ = Some v\<close> None e by (simp add: Let_def)
        from "2.IH" [OF refl refl cached \<open>cache_read _ _ _ = Some v\<close> refl None e [symmetric] refl r]
        obtain j d where ih: "ran_ahead k j d c1 c'" "n' = n + 1 + of_nat j" "op = None \<longrightarrow> j = k"
            "\<forall>x. op = Some x \<longrightarrow> asks c' seq x" "icache c' = icache c1" "same_halt trace1 trace'"
            "pending_exception_vector c' = pending_exception_vector c1"
          by blast
        note step = execute_instruction_step [OF e]
        from step have "icache c1 = icache c" "pending_exception_vector c1 = pending_exception_vector c"
          by (auto simp: one_step_def)
        moreover have "same_halt trace trace'"
          using same_halt_trans [OF execute_instruction_halt [OF e] ih(6)] .
        moreover obtain d' where "ran_ahead (Suc k) (Suc j) d' c c'"
          using ran_ahead_step ih(1) step by blast
        ultimately show ?thesis
          using ih by (intro exI [of _ "Suc j"] exI [of _ d']) auto
      qed
    qed
  qed
qed

lemma produce_effect:
  assumes "produce_until_bus seq budget c trace = ((op, n), c', trace')"
  shows "\<exists>j d. ran_ahead (unat budget) j d c c' \<and> n = of_nat j \<and> (op = None \<longrightarrow> j = unat budget) \<and>
    (sh2_ok c \<longrightarrow> (\<forall>x. op = Some x \<longrightarrow> asks c' seq x)) \<and> same_halt trace trace'"
proof (cases "pending_exception_vector c")
  case None
  show ?thesis
  proof (cases "pending_mem c")
    case None
    with \<open>pending_exception_vector c = None\<close> assms
    have "run_ahead (unat budget) seq 0 c trace = ((op, n), c', trace')"
      by (simp add: produce_until_bus_def)
    from run_ahead_effect [OF this] show ?thesis by fastforce
  next
    case (Some p)
    with \<open>pending_exception_vector c = None\<close> assms show ?thesis
      by (intro exI [of _ 0]) (auto simp: produce_until_bus_def ran_ahead_def sh2_ok_def access_ok_def)
  qed
next
  case (Some v)
  define c1 where "c1 = write_reg 15 (gpr c 15 - 4) c"
  define p where "p = (mem_op_of ExceptionPushSr (to_phys (gpr c1 15)) 4 (sh_sr c1) 0)\<lparr>aux := v\<rparr>"
  have r: "op = Some (access_op c1 seq True p)" "n = 0"
    "c' = c1\<lparr>pending_mem := Some p, pending_exception_vector := None\<rparr>" "same_halt trace trace'"
    using assms Some by (auto simp: produce_until_bus_def Let_def c1_def p_def)
  have "ran_ahead k 0 0 c c'" for k
    by (auto simp: ran_ahead_def r(3) c1_def sh2_ok_def access_ok_def write_reg_def p_def)
  moreover have "asks c' seq (access_op c1 seq True p)"
    by (simp add: asks_def access_op_def bus_op_of_def data_access_kind_def r(3) c1_def write_reg_def p_def)
  ultimately show ?thesis using r by (intro exI [of _ 0]) auto
qed

end
