(* ===== verification/Sh2Arith.thy ===== *)
theory Sh2Arith
  imports Sh2Exec
begin

text \<open>
  Arithmetic of the SH-2 core: carries, borrows, overflow and long products of \<open>execute_instruction\<close>
  against integer arithmetic, and the division step.
\<close>

section \<open>Words and integers\<close>

lemma unat_bit01 [simp]: "unat (bit01 b) = of_bool b"
  by (simp add: bit01_def)

lemma one_carry:
  fixes n :: nat
  assumes "n div 2 ^ 32 \<le> 1"
  shows "n mod 2 ^ 32 + 2 ^ 32 * of_bool (n div 2 ^ 32 \<noteq> 0) = n"
proof (cases "n div 2 ^ 32 = 0")
  case True
  then show ?thesis using div_mult_mod_eq [of n "2 ^ 32"] by simp
next
  case False
  with assms have "n div 2 ^ 32 = 1" by simp
  then show ?thesis using div_mult_mod_eq [of n "2 ^ 32"] by simp
qed

text \<open>The carry of a 33-bit sum.\<close>

lemma carry_sum:
  fixes x y :: u32 and b :: bool
  defines "s \<equiv> (ucast x :: u64) + ucast y + ucast (bit01 b)"
  shows "unat x + unat y + of_bool b = unat (ucast s :: u32) + 2 ^ 32 * of_bool (drop_bit 32 s \<noteq> 0)"
proof -
  have n: "unat s = unat x + unat y + of_bool b"
    using unat_u32_less [of x] unat_u32_less [of y] by (simp add: s_def unat_word_ariths)
  have "unat (ucast s :: u32) = (unat x + unat y + of_bool b) mod 2 ^ 32"
    by (simp add: unsigned_ucast_eq take_bit_eq_mod n)
  moreover have "(drop_bit 32 s \<noteq> 0) = ((unat x + unat y + of_bool b) div 2 ^ 32 \<noteq> 0)"
  proof -
    have "unat (drop_bit 32 s) = (unat x + unat y + of_bool b) div 2 ^ 32"
      by (subst unat_drop_bit_eq) (simp only: n drop_bit_eq_div)
    then show ?thesis by (metis unat_eq_zero)
  qed
  moreover have "(unat x + unat y + of_bool b) div 2 ^ 32 \<le> 1"
    using unat_u32_less [of x] unat_u32_less [of y] by auto
  ultimately show ?thesis by (simp only: one_carry)
qed

lemma msb_bit: "((x :: u32) AND 0x80000000 \<noteq> 0) = bit x 31"
  using bit_iff_and_push_bit_not_eq_0 [of x 31] by simp

lemma msb_u32: "((x :: u32) AND 0x80000000 \<noteq> 0) = (sint x < 0)"
  by (simp add: msb_bit bit_last_iff [symmetric])

lemma sint_u32_range: "- (2 ^ 31) \<le> sint (x :: u32)" "sint (x :: u32) < 2 ^ 31"
  using sint_greater_eq [of x] sint_less [of x] by simp_all

lemma sint_wrap:
  assumes "(r :: u32) = of_int s"
  shows "\<exists>k. sint r = s + k * 2 ^ 32"
proof -
  have "sint r mod 2 ^ 32 = s mod 2 ^ 32"
    by (simp add: assms sint_sbintrunc' signed_take_bit_eq_take_bit_shift take_bit_eq_mod mod_simps)
  then obtain k where "sint r - s = 2 ^ 32 * k" by (metis mod_eq_dvd_iff dvdE)
  then show ?thesis by (intro exI [of _ k]) simp
qed

text \<open>Signed overflow of a sum or difference, from the signs.\<close>

lemma wrap_sign:
  fixes a b r k :: int
  assumes "r = a + b + k * 4294967296" "- 2147483648 \<le> r" "r < 2147483648"
    "- 2147483648 \<le> a" "a < 2147483648" "- 2147483648 \<le> b" "b \<le> 2147483648"
  shows "((a < 0) = (b < 0) \<and> (a < 0) \<noteq> (r < 0)) = (a + b < - 2147483648 \<or> 2147483648 \<le> a + b)"
proof -
  have "- 2 < k" "k < 2" using assms by linarith+
  then consider "k = - 1" | "k = 0" | "k = 1" by linarith
  then show ?thesis using assms by cases auto
qed

lemma wrap_sign_diff:
  fixes a b r k :: int
  assumes "r = a - b + k * 4294967296" "- 2147483648 \<le> r" "r < 2147483648"
    "- 2147483648 \<le> a" "a < 2147483648" "- 2147483648 \<le> b" "b < 2147483648"
  shows "((a < 0) \<noteq> (b < 0) \<and> (a < 0) \<noteq> (r < 0)) = (a - b < - 2147483648 \<or> 2147483648 \<le> a - b)"
proof -
  have "- 2 < k" "k < 2" using assms by linarith+
  then consider "k = - 1" | "k = 0" | "k = 1" by linarith
  then show ?thesis using assms by cases auto
qed

lemma wrap_halves:
  fixes h l z k :: int
  assumes "h * 4294967296 + l = (if z < 0 then z + 18446744073709551616 else z)" "0 \<le> l" "l < 4294967296"
    "0 \<le> h" "h < 4294967296" "- 9223372036854775808 \<le> z" "z < 9223372036854775808"
    "- 2147483648 \<le> h + k * 4294967296" "h + k * 4294967296 < 2147483648"
  shows "(h + k * 4294967296) * 4294967296 + l = z"
proof -
  have "- 2 < k" "k < 1" using assms by linarith+
  then consider "k = - 1" | "k = 0" by linarith
  then show ?thesis using assms by cases (auto split: if_splits)
qed

lemma add_overflow_iff: "add_overflow a b (a + b) = (sint a + sint b \<notin> {- (2 ^ 31) ..< 2 ^ 31})"
proof -
  obtain k where k: "sint (a + b) = sint a + sint b + k * 2 ^ 32"
    using sint_wrap [of "a + b" "sint a + sint b"] by auto
  have "add_overflow a b (a + b) = ((sint a < 0) = (sint b < 0) \<and> (sint a < 0) \<noteq> (sint (a + b) < 0))"
    by (simp add: add_overflow_def msb_bit msb_u32 [symmetric] bit_simps)
  also have "\<dots> = (sint a + sint b < - 2147483648 \<or> 2147483648 \<le> sint a + sint b)"
    using k sint_u32_range [of a] sint_u32_range [of b] sint_u32_range [of "a + b"]
    by (intro wrap_sign [where k = k]) simp_all
  finally show ?thesis by auto
qed

lemma sub_overflow_iff: "sub_overflow a b (a - b) = (sint a - sint b \<notin> {- (2 ^ 31) ..< 2 ^ 31})"
proof -
  obtain k where k: "sint (a - b) = sint a - sint b + k * 2 ^ 32"
    using sint_wrap [of "a - b" "sint a - sint b"] by auto
  have "sub_overflow a b (a - b) = ((sint a < 0) \<noteq> (sint b < 0) \<and> (sint a < 0) \<noteq> (sint (a - b) < 0))"
    by (simp add: sub_overflow_def msb_bit msb_u32 [symmetric] bit_simps)
  also have "\<dots> = (sint a - sint b < - 2147483648 \<or> 2147483648 \<le> sint a - sint b)"
    using k sint_u32_range [of a] sint_u32_range [of b] sint_u32_range [of "a - b"]
    by (intro wrap_sign_diff [where k = k]) simp_all
  finally show ?thesis by auto
qed

text \<open>The halves of a 64-bit product.\<close>

lemma halves_u64: "uint (ucast (drop_bit 32 (p :: u64)) :: u32) * 2 ^ 32 + uint (ucast p :: u32) = uint p"
proof -
  have "uint (drop_bit 32 p) = uint p div 2 ^ 32" by (simp only: drop_bit_eq_div uint_div) simp
  moreover have "uint p < 2 ^ 64" using uint_lt2p [of p] by simp
  then have "uint p div 2 ^ 32 < 2 ^ 32" by simp
  moreover have "0 \<le> uint p div 2 ^ 32" by (simp add: div_int_pos_iff)
  ultimately have "uint (ucast (drop_bit 32 p) :: u32) = uint p div 2 ^ 32"
    by (simp add: unsigned_ucast_eq take_bit_eq_mod mod_pos_pos_trivial)
  moreover have "uint (ucast p :: u32) = uint p mod 2 ^ 32" by (simp add: unsigned_ucast_eq take_bit_eq_mod)
  ultimately show ?thesis by (simp only: div_mult_mod_eq)
qed

lemma sint_halves:
  assumes "p = (of_int z :: u64)" "- (2 ^ 63) \<le> z" "z < 2 ^ 63"
  shows "sint (ucast (drop_bit 32 p) :: u32) * 2 ^ 32 + uint (ucast p :: u32) = z"
proof -
  define h :: u32 where "h = ucast (drop_bit 32 p)"
  have "uint p = z mod 2 ^ 64" by (simp add: assms(1) uint_word_of_int)
  then have e: "uint h * 2 ^ 32 + uint (ucast p :: u32) = z mod 2 ^ 64"
    unfolding h_def by (simp only: halves_u64)
  obtain k where k: "sint h = uint h + k * 2 ^ 32" using sint_wrap [of h "uint h"] by auto
  have l: "0 \<le> uint (ucast p :: u32)" "uint (ucast p :: u32) < 2 ^ 32" using uint_lt2p [of "ucast p :: u32"] by simp_all
  have h: "0 \<le> uint h" "uint h < 2 ^ 32" using uint_lt2p [of h] by simp_all
  have m: "z mod 2 ^ 64 = (if z < 0 then z + 2 ^ 64 else z)"
  proof (cases "z < 0")
    case True
    then have "(z + 2 ^ 64) mod 2 ^ 64 = z + 2 ^ 64" using assms(2) by (intro mod_pos_pos_trivial) simp_all
    with True show ?thesis by simp
  qed (use assms(3) in \<open>simp add: mod_pos_pos_trivial\<close>)
  have "(uint h + k * 4294967296) * 4294967296 + uint (ucast p :: u32) = z"
    using e [unfolded m] l h assms(2,3) sint_u32_range [of h, unfolded k] by (intro wrap_halves) simp_all
  with k show ?thesis unfolding h_def by simp
qed

lemma sint_product_range:
  "- (2 ^ 63) \<le> sint (a :: u32) * sint (b :: u32)" "sint (a :: u32) * sint (b :: u32) < 2 ^ 63"
proof -
  have "\<bar>sint a\<bar> \<le> 2 ^ 31" "\<bar>sint b\<bar> \<le> 2 ^ 31"
    using sint_u32_range [of a] sint_u32_range [of b] by auto
  then have "\<bar>sint a\<bar> * \<bar>sint b\<bar> \<le> 2 ^ 31 * 2 ^ 31" by (intro mult_mono) auto
  then have "\<bar>sint a * sint b\<bar> \<le> 2 ^ 62" by (simp add: abs_mult)
  then show "- (2 ^ 63) \<le> sint a * sint b" "sint a * sint b < 2 ^ 63" by auto
qed

section \<open>Decoding concrete opcodes\<close>

text \<open>
  A fact \<open>instr AND a = x\<close> refutes every other test of the if-chain whose mask and value disagree with
  it; the conditions left are numerals.
\<close>

lemma mask_clash:
  fixes instr :: u16
  assumes "instr AND a = x"
  shows "x AND b \<noteq> y AND a \<Longrightarrow> instr AND b \<noteq> y" "k AND a \<noteq> x \<Longrightarrow> instr \<noteq> k"
proof -
  have "(instr AND a) AND b = (instr AND b) AND a" by (simp add: ac_simps)
  with assms show "x AND b \<noteq> y AND a \<Longrightarrow> instr AND b \<noteq> y" by auto
  show "k AND a \<noteq> x \<Longrightarrow> instr \<noteq> k" using assms by auto
qed

section \<open>Executing a straight line\<close>

definition run_program :: "u16 list \<Rightarrow> sh2_core \<Rightarrow> sh2_core" where
  "run_program instrs c = fold (\<lambda>i c. fst (execute_instruction i c new_trace)) instrs c"

lemma run_program_simps [simp]:
  "run_program [] c = c"
  "run_program (i # is) c = run_program is (fst (execute_instruction i c new_trace))"
  by (simp_all add: run_program_def)

text \<open>An opcode of the silent groups outside a delay slot.\<close>

definition exec_silent :: "u16 \<Rightarrow> sh2_core \<Rightarrow> sh2_core option" where
  "exec_silent instr = first_some [exec_basic instr, exec_logic instr, exec_compare instr]"

lemma execute_silent:
  assumes "pending_branch_target c = None" "exec_silent instr c \<noteq> None"
  shows "fst (execute_instruction instr c trace) =
    (let c1 = the (exec_silent instr c) in c1\<lparr>sh_t := sh_t c1 + 1, sh_executed := sh_executed c1 + 1\<rparr>)"
proof -
  have c: "c\<lparr>pending_branch_target := None\<rparr> = c" using assms(1) by simp
  from assms(2) show ?thesis
    unfolding execute_instruction_eq exec_opcode_def exec_silent_def assms(1) c
    by (auto simp: settle_def retire_def Let_def)
qed

lemma set_branch [simp]:
  "pending_branch_target (advance c) = pending_branch_target c"
  "pending_branch_target (write_reg n v c) = pending_branch_target c"
  "pending_branch_target (set_sr_bit b f c) = pending_branch_target c"
  by (simp_all add: advance_def write_reg_def set_sr_bit_def)

lemma gpr_set [simp]:
  "gpr (advance c) k = gpr c k" "gpr (set_sr_bit b f c) k = gpr c k"
  "gpr (c\<lparr>sh_t := t\<rparr>) k = gpr c k" "gpr (c\<lparr>sh_executed := e\<rparr>) k = gpr c k"
  "gpr (c\<lparr>sh_pc := w\<rparr>) k = gpr c k" "gpr (c\<lparr>pending_mem := p\<rparr>) k = gpr c k"
  "gpr (c\<lparr>sh_macl := w\<rparr>) k = gpr c k" "gpr (c\<lparr>sh_mach := w\<rparr>) k = gpr c k"
  by (simp_all add: gpr_def advance_def set_sr_bit_def)

lemma gpr_write:
  assumes "unat n < length (sh_r c)"
  shows "gpr (write_reg n v c) k = (if k = n then v else gpr c k)"
  using assms by (auto simp: gpr_def write_reg_def nth_list_update word_unat_eq_iff)

lemma word_bit_tests [simp]:
  fixes x :: u32
  shows "(x OR b) AND b = b" "(x AND NOT b) AND b = 0"
  by (simp_all add: bit_eq_iff bit_simps)

lemma t_flag_set [simp]:
  "t_flag (advance c) = t_flag c" "t_flag (write_reg n v c) = t_flag c" "t_flag (set_t_flag b c) = b"
  "t_flag (c\<lparr>sh_t := t\<rparr>) = t_flag c" "t_flag (c\<lparr>sh_executed := e\<rparr>) = t_flag c"
  "t_flag (c\<lparr>sh_macl := w\<rparr>) = t_flag c" "t_flag (c\<lparr>sh_mach := w\<rparr>) = t_flag c"
  by (auto simp: sr_bit_def advance_def write_reg_def set_sr_bit_def and.assoc)

section \<open>Opcodes of the carry chain\<close>

lemma exec_clrt: "exec_silent 0x0008 c = Some (advance (set_t_flag False c))"
  by (simp add: exec_silent_def exec_basic_def Let_def)

lemma exec_addc:
  assumes "instr AND 0xF00F = 0x300E"
  shows "exec_silent instr c =
    (let n = field_n instr; sum = (ucast (gpr c n) :: u64) + ucast (gpr c (field_m instr)) + ucast (bit01 (t_flag c))
     in Some (advance (write_reg n (ucast sum) (set_t_flag (drop_bit 32 sum \<noteq> 0) c))))"
  using mask_clash [OF assms]
  by (simp add: exec_silent_def exec_basic_def assms Let_def)

lemma exec_subc:
  assumes "instr AND 0xF00F = 0x300A"
  shows "exec_silent instr c =
    (let n = field_n instr; rhs = gpr c (field_m instr) + bit01 (t_flag c)
     in Some (advance (write_reg n (gpr c n - rhs) (set_t_flag (gpr c n < rhs) c))))"
  using mask_clash [OF assms]
  by (simp add: exec_silent_def exec_basic_def exec_logic_def assms Let_def)

lemma exec_addv:
  assumes "instr AND 0xF00F = 0x300F"
  shows "exec_silent instr c =
    (let n = field_n instr; rn = gpr c n; rm = gpr c (field_m instr); out = rn + rm
     in Some (advance (write_reg n out (set_t_flag (add_overflow rn rm out) c))))"
  using mask_clash [OF assms]
  by (simp add: exec_silent_def exec_basic_def assms Let_def)

lemma exec_subv:
  assumes "instr AND 0xF00F = 0x300B"
  shows "exec_silent instr c =
    (let n = field_n instr; rn = gpr c n; rm = gpr c (field_m instr); out = rn - rm
     in Some (advance (write_reg n out (set_t_flag (sub_overflow rn rm out) c))))"
  using mask_clash [OF assms]
  by (simp add: exec_silent_def exec_basic_def exec_logic_def assms Let_def)

lemma exec_dmuls:
  assumes "instr AND 0xF00F = 0x300D"
  shows "exec_silent instr c =
    (let prod = of_int (sint (gpr c (field_n instr)) * sint (gpr c (field_m instr))) :: u64
     in Some (advance (c\<lparr>sh_mach := ucast (drop_bit 32 prod), sh_macl := ucast prod\<rparr>)))"
  using mask_clash [OF assms]
  by (simp add: exec_silent_def exec_basic_def exec_logic_def exec_compare_def assms Let_def)

lemma exec_dmulu:
  assumes "instr AND 0xF00F = 0x3005"
  shows "exec_silent instr c =
    (let prod = (ucast (gpr c (field_n instr)) :: u64) * ucast (gpr c (field_m instr))
     in Some (advance (c\<lparr>sh_mach := ucast (drop_bit 32 prod), sh_macl := ucast prod\<rparr>)))"
  using mask_clash [OF assms]
  by (simp add: exec_silent_def exec_basic_def exec_logic_def exec_compare_def assms Let_def)

section \<open>Properties\<close>

text \<open>
  (C23) Multi-word addition. \<open>CLRT\<close> followed by \<open>ADDC\<close> on the low and then on the high words adds two 64-bit
  numbers held in register pairs, whichever registers they are, as long as the low result overwrites
  neither high word; the T bit is the carry out of the sum.
\<close>

theorem addc_chain_adds_64_bits:
  assumes "lo AND 0xF00F = 0x300E" "hi AND 0xF00F = 0x300E"
    and "field_n lo \<noteq> field_n hi" "field_n lo \<noteq> field_m hi"
    and "pending_branch_target c = None" "length (sh_r c) = 16"
  shows "let c' = run_program [0x0008, lo, hi] c;
             pair = (\<lambda>d h l. unat (gpr d h) * 2 ^ 32 + unat (gpr d l))
         in pair c' (field_n hi) (field_n lo) + 2 ^ 64 * of_bool (t_flag c') =
            pair c (field_n hi) (field_n lo) + pair c (field_m hi) (field_m lo)"
proof -
  define low where "low = (ucast (gpr c (field_n lo)) :: u64) + ucast (gpr c (field_m lo)) + ucast (bit01 False)"
  define carry where "carry = (drop_bit 32 low \<noteq> 0)"
  define high where "high = (ucast (gpr c (field_n hi)) :: u64) + ucast (gpr c (field_m hi)) + ucast (bit01 carry)"
  have l: "unat (gpr c (field_n lo)) + unat (gpr c (field_m lo)) = unat (ucast low :: u32) + 2 ^ 32 * of_bool carry"
    using carry_sum [of "gpr c (field_n lo)" "gpr c (field_m lo)" False] by (simp add: low_def carry_def)
  have h: "unat (gpr c (field_n hi)) + unat (gpr c (field_m hi)) + of_bool carry =
      unat (ucast high :: u32) + 2 ^ 32 * of_bool (drop_bit 32 high \<noteq> 0)"
    using carry_sum [of "gpr c (field_n hi)" "gpr c (field_m hi)" carry] by (simp add: high_def)
  define c' where "c' = run_program [0x0008, lo, hi] c"
  have r: "gpr c' (field_n hi) = ucast high" "gpr c' (field_n lo) = ucast low" "t_flag c' = (drop_bit 32 high \<noteq> 0)"
    using assms(3-6)
    by (simp_all add: c'_def execute_silent exec_clrt exec_addc [OF assms(1)] exec_addc [OF assms(2)] Let_def
        gpr_write low_def high_def carry_def)
  show ?thesis using l h unfolding Let_def c'_def [symmetric] r by simp
qed

lemma addc_chain_adds_64_bits_witness:
  "let c = (new_sh2 0)\<lparr>sh_r := [1, 0xFFFFFFFF, 2, 3] @ replicate 12 0\<rparr>;
       c' = run_program [0x0008, 0x331E, 0x320E] c
   in unat (gpr c' 2) * 2 ^ 32 + unat (gpr c' 3) + 2 ^ 64 * of_bool (t_flag c') =
      2 * 2 ^ 32 + 3 + (1 * 2 ^ 32 + 0xFFFFFFFF)"
  using addc_chain_adds_64_bits [of "0x331E" "0x320E" "(new_sh2 0)\<lparr>sh_r := [1, 0xFFFFFFFF, 2, 3] @ replicate 12 0\<rparr>"]
  by (simp add: new_sh2_def field_n_def field_m_def gpr_def)

text \<open>
  Multi-word subtraction. \<open>CLRT\<close> and two \<open>SUBC\<close> subtract 64-bit numbers, the T bit being the borrow,
  unless the high subtrahend is all ones while the low half borrows: there \<open>Rm + T\<close> wraps to zero and
  the borrow is lost, although the difference itself is right.
\<close>

theorem subc_chain_subtracts_64_bits:
  assumes "lo AND 0xF00F = 0x300A" "hi AND 0xF00F = 0x300A"
    and "field_n lo \<noteq> field_n hi" "field_n lo \<noteq> field_m hi"
    and "pending_branch_target c = None" "length (sh_r c) = 16"
  shows "let c' = run_program [0x0008, lo, hi] c;
             pair = (\<lambda>d h l. unat (gpr d h) * 2 ^ 32 + unat (gpr d l));
             lost = (gpr c (field_m hi) = 0xFFFFFFFF \<and> gpr c (field_n lo) < gpr c (field_m lo))
         in pair c' (field_n hi) (field_n lo) + pair c (field_m hi) (field_m lo) =
            pair c (field_n hi) (field_n lo) + 2 ^ 64 * of_bool (t_flag c' \<or> lost)"
proof -
  define c' where "c' = run_program [0x0008, lo, hi] c"
  define borrow where "borrow = (gpr c (field_n lo) < gpr c (field_m lo))"
  define rhs where "rhs = gpr c (field_m hi) + bit01 borrow"
  have r: "gpr c' (field_n hi) = gpr c (field_n hi) - rhs"
    "gpr c' (field_n lo) = gpr c (field_n lo) - gpr c (field_m lo)" "t_flag c' = (gpr c (field_n hi) < rhs)"
    using assms(3-6)
    by (simp_all add: c'_def execute_silent exec_clrt exec_subc [OF assms(1)] exec_subc [OF assms(2)] Let_def
        gpr_write borrow_def rhs_def bit01_def)
  have d: "unat (x - y) + unat y = unat x + 2 ^ 32 * of_bool (x < y)" for x y :: u32
    using unat_u32_less [of x] unat_u32_less [of y]
    by (cases "x < y") (simp_all add: unat_sub_if_size word_less_nat_alt word_size)
  have c: "unat rhs + 2 ^ 32 * of_bool (borrow \<and> gpr c (field_m hi) = 0xFFFFFFFF) =
      unat (gpr c (field_m hi)) + of_bool borrow"
    using unat_u32_less [of "gpr c (field_m hi)"]
    by (auto simp: rhs_def bit01_def unat_word_ariths word_unat_eq_iff mod_Suc)
  have "borrow \<and> gpr c (field_m hi) = 0xFFFFFFFF \<Longrightarrow> rhs = 0"
    by (simp add: rhs_def bit01_def)
  then have l: "\<not> (gpr c (field_n hi) < rhs) \<or> \<not> (borrow \<and> gpr c (field_m hi) = 0xFFFFFFFF)"
    by auto
  show ?thesis
    using d [of "gpr c (field_n hi)" rhs] d [of "gpr c (field_n lo)" "gpr c (field_m lo)"] c l
    unfolding Let_def c'_def [symmetric] r borrow_def by auto
qed

lemma subc_chain_subtracts_64_bits_witness:
  "let c = (new_sh2 0)\<lparr>sh_r := [1, 5, 3, 2] @ replicate 12 0\<rparr>;
       c' = run_program [0x0008, 0x331A, 0x320A] c
   in unat (gpr c' 2) * 2 ^ 32 + unat (gpr c' 3) + (1 * 2 ^ 32 + 5) = 3 * 2 ^ 32 + 2 + 2 ^ 64 * of_bool (t_flag c')"
  using subc_chain_subtracts_64_bits [of "0x331A" "0x320A" "(new_sh2 0)\<lparr>sh_r := [1, 5, 3, 2] @ replicate 12 0\<rparr>"]
  by (simp add: new_sh2_def field_n_def field_m_def gpr_def)

text \<open>
  Signed overflow. \<open>ADDV\<close> and \<open>SUBV\<close> set the T bit exactly when the signed sum or difference does not
  fit in 32 bits, and leave the wrapped result in Rn.
\<close>

theorem addv_subv_detect_overflow:
  assumes "instr AND 0xF00F = (if sub then 0x300B else 0x300F)"
    and "pending_branch_target c = None" "length (sh_r c) = 16"
  shows "let c' = fst (execute_instruction instr c trace); x = gpr c (field_n instr); y = gpr c (field_m instr);
             exact = (if sub then sint x - sint y else sint x + sint y)
         in gpr c' (field_n instr) = of_int exact \<and> (t_flag c' \<longleftrightarrow> exact \<notin> {- (2 ^ 31) ..< 2 ^ 31})"
  using assms
  by (cases sub)
     (simp_all add: execute_silent exec_addv exec_subv Let_def gpr_write add_overflow_iff sub_overflow_iff)

lemma addv_subv_detect_overflow_witness:
  "let c' = fst (execute_instruction 0x301F ((new_sh2 0)\<lparr>sh_r := [0x7FFFFFFF, 1] @ replicate 14 0\<rparr>) new_trace)
   in gpr c' 0 = 0x80000000 \<and> t_flag c'"
  using addv_subv_detect_overflow [of "0x301F" False "(new_sh2 0)\<lparr>sh_r := [0x7FFFFFFF, 1] @ replicate 14 0\<rparr>" new_trace]
  by (simp add: new_sh2_def field_n_def field_m_def gpr_def)

text \<open>
  Long multiplication. \<open>DMULS.L\<close> and \<open>DMULU.L\<close> leave the full 64-bit product of Rn and Rm in MACH:MACL,
  signed and unsigned.
\<close>

theorem long_products_are_exact:
  assumes "instr AND 0xF00F = (if sg then 0x300D else 0x3005)" "pending_branch_target c = None"
  shows "let c' = fst (execute_instruction instr c trace); val = (if sg then sint else uint)
         in val (sh_mach c') * 2 ^ 32 + uint (sh_macl c') = val (gpr c (field_n instr)) * val (gpr c (field_m instr))"
proof (cases sg)
  case True
  show ?thesis
    using assms True sint_halves [OF refl sint_product_range, of "gpr c (field_n instr)" "gpr c (field_m instr)"]
    by (simp add: execute_silent exec_dmuls Let_def advance_def)
next
  case False
  have p: "uint ((ucast x :: u64) * ucast y) = uint x * uint y" for x y :: u32
  proof -
    have "unat x * unat y < 2 ^ 32 * 2 ^ 32" using unat_u32_less by (intro mult_strict_mono) simp_all
    then have "unat ((ucast x :: u64) * ucast y) = unat x * unat y" by (simp add: unat_word_ariths)
    then show ?thesis by (metis of_nat_mult uint_nat)
  qed
  show ?thesis
    using assms False halves_u64 [of "(ucast (gpr c (field_n instr)) :: u64) * ucast (gpr c (field_m instr))"]
    by (simp add: execute_silent exec_dmulu Let_def advance_def p)
qed

lemma long_products_are_exact_witness:
  "let c' = fst (execute_instruction 0x301D ((new_sh2 0)\<lparr>sh_r := [0xFFFFFFFE, 3] @ replicate 14 0\<rparr>) new_trace)
   in sint (sh_mach c') * 2 ^ 32 + uint (sh_macl c') = - 6"
  using long_products_are_exact [of "0x301D" True "(new_sh2 0)\<lparr>sh_r := [0xFFFFFFFE, 3] @ replicate 14 0\<rparr>" new_trace]
  by (simp add: new_sh2_def field_n_def field_m_def gpr_def)

section \<open>Findings\<close>

text \<open>
  \<open>DIV1\<close> sets Q to the borrow of the step alone: the bit shifted out of Rn, which the first assignment
  puts in Q, is overwritten instead of being combined with it. From the partial remainder -1 (Q set, M
  clear) and the divisor 5 the step computes the remainder 2 * (-1) + 5 = 3, which is not negative, and
  still leaves Q set and the quotient bit T clear.
\<close>

lemma div1_keeps_q_after_sign_change:
  "let c' = run_program [0x3104] ((new_sh2 0)\<lparr>sh_r := [5, 0xFFFFFFFF] @ replicate 14 0, sh_sr := 0x100\<rparr>)
   in gpr c' 1 = 3 \<and> q_flag c' \<and> \<not> t_flag c'"
  by code_simp

text \<open>\<open>SHAD\<close> by a negative count with five low zero bits, a full shift, leaves the register as it is.\<close>

lemma shad_full_shift_is_none:
  "gpr (run_program [0x401C] ((new_sh2 0)\<lparr>sh_r := [0x12345678, 0xFFFFFFE0] @ replicate 14 0\<rparr>)) 0 = 0x12345678"
  by code_simp

text \<open>The lost borrow of \<open>SUBC\<close>: 0 minus 0xFFFFFFFF minus 1 needs a borrow and leaves T clear.\<close>

lemma subc_loses_borrow:
  "t_flag (run_program [0x0018, 0x301A] ((new_sh2 0)\<lparr>sh_r := [0, 0xFFFFFFFF] @ replicate 14 0\<rparr>)) = False"
  by code_simp

end
