(* ===== verification/Sh2Control.thy ===== *)
theory Sh2Control
  imports Sh2Arith
begin

text \<open>
  Control of the SH-2 core: the invariant of its runs, the accounting of responses and requests, delay
  slots, exception entry and return, and the behaviours of the fetch path that depart from them.
\<close>


section \<open>The runs of a core\<close>

text \<open>
  Everything a core can be asked to do, in any order and with any responses: ask for an operation, take a
  response, request an exception, set PR. The invariant covers the core and the trace it writes.
\<close>

definition is_state :: "trace_event \<Rightarrow> bool" where
  "is_state e = (case e of StateLine s \<Rightarrow> True | _ \<Rightarrow> False)"

definition core_inv :: "sh2_core \<Rightarrow> trace_log \<Rightarrow> bool" where
  "core_inv c tr \<longleftrightarrow> sh2_ok c \<and> sh_executed c = of_nat (length (filter is_state (events tr))) \<and>
     (\<forall>s. StateLine s \<in> set (events tr) \<longrightarrow> length (snap_r s) = 16 \<and> snap_cpu s = sh_id c)"

inductive core_run :: "int \<Rightarrow> sh2_core \<Rightarrow> trace_log \<Rightarrow> bool" for cpu where
  run_reset: "core_run cpu (sh2_reset (new_sh2 cpu) pc sp) new_trace"
| run_produce: "core_run cpu c tr \<Longrightarrow> produce_until_bus seq budget c tr = (r, c', tr') \<Longrightarrow> core_run cpu c' tr'"
| run_apply: "core_run cpu c tr \<Longrightarrow> apply_ifetch_and_step rsp c tr = (c', tr') \<Longrightarrow> core_run cpu c' tr'"
| run_exception: "core_run cpu c tr \<Longrightarrow> core_run cpu (request_exception_vector v c) tr"
| run_set_pr: "core_run cpu c tr \<Longrightarrow> core_run cpu (set_pr v c) tr"

lemma core_inv_fault [simp]: "core_inv c (add_fault f tr) = core_inv c tr"
  by (simp add: core_inv_def is_state_def)

lemma core_inv_step:
  assumes "core_inv c tr" "one_step (c\<lparr>sh_t := t\<rparr>) tr c' tr'" "sh2_ok c'"
  shows "core_inv c' tr'"
proof -
  obtain fs where e: "events tr' = events tr @ map FaultLine fs @ [StateLine (snapshot c')]"
    using assms(2) by (auto simp: one_step_def)
  have "filter is_state (map FaultLine fs) = []" by (simp add: filter_empty_conv is_state_def)
  with assms e show ?thesis
    by (auto simp: core_inv_def one_step_def snapshot_def is_state_def sh2_ok_def)
qed

lemma core_inv_execute: "core_inv c tr \<Longrightarrow> execute_instruction instr c tr = (c', tr') \<Longrightarrow> core_inv c' tr'"
  using execute_instruction_step [of instr c tr c' tr'] core_inv_step [of c tr "sh_t c" c' tr']
  by (simp add: core_inv_def)

lemma core_inv_access:
  assumes "core_inv c tr" "starts_access c (c1, w, p)"
  shows "core_inv (c1\<lparr>pending_mem := Some p\<rparr>) tr"
  using assms starts_access_ok(1) [OF assms(2), of 0] by (simp add: core_inv_def ran_ahead_def)

lemma core_inv_run_ahead:
  "core_inv c tr \<Longrightarrow> run_ahead k seq n c tr = (r, c', tr') \<Longrightarrow> core_inv c' tr'"
proof (induction k arbitrary: n c tr)
  case (Suc k)
  show ?case
  proof (cases "cache_read (icache c) (to_phys (sh_pc c)) 2")
    case (Some v)
    obtain c1 tr1 where e: "execute_instruction (ucast v) c tr = (c1, tr1)" by (metis prod.exhaust)
    from Suc.prems(1) e have "core_inv c1 tr1" by (rule core_inv_execute)
    with Suc Some e show ?thesis
      by (auto simp: Let_def split: if_splits option.splits prod.splits
          dest!: memory_access_starts intro: core_inv_access)
  qed (use Suc.prems in \<open>auto simp: Let_def split: if_splits\<close>)
qed simp

lemma core_inv_produce:
  assumes "core_inv c tr" "produce_until_bus seq budget c tr = (r, c', tr')"
  shows "core_inv c' tr'"
proof (cases "pending_exception_vector c")
  case None
  with assms show ?thesis
    by (cases "pending_mem c") (auto simp: produce_until_bus_def intro: core_inv_run_ahead)
next
  case (Some v)
  with assms show ?thesis
    by (auto simp: produce_until_bus_def Let_def core_inv_def is_state_def sh2_ok_def access_ok_def write_reg_def
        valid_bus_size_def)
qed

lemma core_inv_apply:
  assumes "core_inv c tr" "apply_ifetch_and_step rsp c tr = (c', tr')"
  shows "core_inv c' tr'"
proof (rule core_inv_step [OF assms(1) apply_step [OF assms(2)]])
  show "sh2_ok c'" using apply_ok [of c rsp tr] assms by (simp add: core_inv_def)
qed

lemma core_inv_runs: "core_run cpu c tr \<Longrightarrow> core_inv c tr"
proof (induction rule: core_run.induct)
  case (run_reset pc sp)
  then show ?case by (simp add: core_inv_def sh2_ok_def sh2_reset_def new_sh2_def new_trace_def)
next
  case (run_exception c tr v)
  then show ?case by (simp add: core_inv_def sh2_ok_def access_ok_def request_exception_vector_def)
next
  case (run_set_pr c tr v)
  then show ?case by (simp add: core_inv_def sh2_ok_def access_ok_def set_pr_def)
qed (blast intro: core_inv_produce core_inv_apply)+

text \<open>
  (C7) The core keeps its invariant in every run: sixteen registers, a pending access that names existing
  registers, has a valid bus size and, for the phases of \<open>TRAPA\<close>, finds its vector number (so the optional
  is never read empty); a postponed SR restore always has its branch target; each counted instruction
  left exactly one state line, and every state line shows this core with sixteen registers.
\<close>

theorem core_invariant:
  assumes "core_run cpu c tr"
  shows "length (sh_r c) = 16 \<and>
    (case pending_mem c of None \<Rightarrow> True | Some p \<Rightarrow>
       unat (dst_reg p) < 16 \<and> (\<forall>r. post_inc_reg p = Some r \<longrightarrow> unat r < 16) \<and> valid_bus_size (pm_size p) \<and>
       (pm_kind p \<in> {TrapaPushSr, TrapaPushPc} \<longrightarrow> pending_trapa_imm c \<noteq> None)) \<and>
    (pending_rte_restore c \<longrightarrow> pending_branch_target c \<noteq> None) \<and>
    sh_executed c = of_nat (length (filter is_state (events tr))) \<and>
    (\<forall>s. StateLine s \<in> set (events tr) \<longrightarrow> length (snap_r s) = 16 \<and> snap_cpu s = sh_id c)"
  using core_inv_runs [OF assms]
  by (auto simp: core_inv_def sh2_ok_def access_ok_def split: option.splits)

lemma core_invariant_witness:
  "let c = request_exception_vector 5 (sh2_reset (new_sh2 0) 0 0x1000) in length (sh_r c) = 16"
  using core_invariant [OF run_exception [OF run_reset], of 5 0 0 "0x1000"] by (simp add: Let_def)

text \<open>
  (C17) Accounting of a response. Applying any bus response retires one step: the instruction count goes up
  by one, local time by the stall plus one tick (two for \<open>MUL.L\<close>), and the trace grows by fault lines and
  one state line that shows the core as it is afterwards.
\<close>

theorem response_accounting:
  "let (c', tr') = apply_ifetch_and_step rsp c tr
   in sh_id c' = sh_id c \<and> sh_executed c' = sh_executed c + 1 \<and>
      sh_t c' \<in> {sh_t c + rsp_stall rsp + 1, sh_t c + rsp_stall rsp + 2} \<and>
      (\<exists>fs. events tr' = events tr @ map FaultLine fs @ [StateLine (snapshot c')])"
proof -
  obtain c' tr' where a: "apply_ifetch_and_step rsp c tr = (c', tr')" by (metis prod.exhaust)
  show ?thesis using apply_step [OF a] by (simp add: a one_step_def)
qed

text \<open>
  (C18) What \<open>produce_until_bus\<close> asks for. With the invariant, any operation it returns belongs to this core,
  carries its local time and the caller's sequence number, and has a valid size; it executed at most the
  budget, counted what it executed, and took one or two ticks for each; without an operation the whole
  budget was spent.
\<close>

theorem produce_request:
  assumes "core_run cpu c tr" "produce_until_bus seq budget c tr = ((op, n), c', tr')"
  shows "sh_executed c' = sh_executed c + n \<and> unat n \<le> unat budget \<and>
    (\<exists>d. unat n \<le> d \<and> d \<le> 2 * unat n \<and> sh_t c' = sh_t c + of_nat d) \<and>
    (case op of None \<Rightarrow> unat n = unat budget
     | Some x \<Rightarrow> cpu_id x = sh_id c \<and> req_time x = sh_t c' \<and> op_sequence x = seq \<and> valid_bus_size (op_size x))"
proof -
  obtain j d where p: "ran_ahead (unat budget) j d c c'" "n = of_nat j" "op = None \<longrightarrow> j = unat budget"
    "sh2_ok c \<longrightarrow> (\<forall>x. op = Some x \<longrightarrow> asks c' seq x)"
    using produce_effect [OF assms(2)] by blast
  have "j < 2 ^ 64" using p(1) unat_u32_less [of budget] by (simp add: ran_ahead_def)
  then have n: "unat n = j" by (simp add: p(2) unat_of_nat take_bit_nat_eq_self)
  show ?thesis
    using p n core_inv_runs [OF assms(1)]
    by (auto simp: ran_ahead_def core_inv_def asks_def split: option.splits)
qed

lemma produce_request_witness:
  "let c = sh2_reset (new_sh2 1) 0x20000000 0x1000; ((op, n), c', tr') = produce_until_bus 7 16 c new_trace
   in op_sequence (the op) = 7 \<and> valid_bus_size (op_size (the op)) \<and> sh_executed c' = sh_executed c + n"
proof -
  define c where "c = sh2_reset (new_sh2 1) 0x20000000 0x1000"
  have u: "is_uncached_alias (sh_pc c)" by (simp add: c_def sh2_reset_def is_uncached_alias_def)
  have "core_run 1 c new_trace" unfolding c_def by (rule run_reset)
  moreover obtain n c' tr' x where p: "produce_until_bus 7 16 c new_trace = ((Some x, n), c', tr')"
    using u
    by (simp add: produce_until_bus_def c_def sh2_reset_def new_sh2_def Let_def run_ahead.simps(2) [of 15, simplified])
  ultimately show ?thesis
    using produce_request [of 1 c new_trace 7 16 "Some x" n c' tr'] by (simp add: c_def [symmetric] p)
qed

section \<open>Delay slots\<close>

text \<open>The branch opcodes reach the last group.\<close>

definition is_delayed :: "u16 \<Rightarrow> bool" where
  "is_delayed instr \<longleftrightarrow>
     instr AND 0xF000 \<in> {0xA000, 0xB000} \<or> instr AND 0xF0FF = 0x400B \<or> instr = 0x000B"

lemma delayed_cases:
  assumes "is_delayed instr"
  obtains a x where "(a, x) \<in> {(0xF000, 0xA000), (0xF000, 0xB000), (0xF0FF, 0x400B), (0xFFFF, 0x000B)}"
    "instr AND a = x"
proof -
  have "instr = 0x000B \<Longrightarrow> instr AND 0xFFFF = 0x000B" by simp
  with assms that show thesis unfolding is_delayed_def by blast
qed

lemma delayed_declines:
  assumes "is_delayed instr"
  shows "exec_basic instr c = None" "exec_logic instr c = None" "exec_compare instr c = None"
    "exec_cond_branch instr c = None" "exec_system instr c = None" "exec_shift instr c = None"
proof -
  obtain a x where ax: "(a, x) \<in> {(0xF000, 0xA000), (0xF000, 0xB000), (0xF0FF, 0x400B), (0xFFFF, 0x000B)}"
    and i: "instr AND a = x" using assms by (rule delayed_cases)
  note clash = mask_clash [OF i]
  have "exec_basic instr c = None \<and> exec_logic instr c = None \<and> exec_compare instr c = None \<and>
      exec_cond_branch instr c = None \<and> exec_system instr c = None \<and> exec_shift instr c = None"
    using ax
    by (elim insertE emptyE Pair_inject)
       (simp_all add: dispatch clash Let_def)
  then show "exec_basic instr c = None" "exec_logic instr c = None" "exec_compare instr c = None"
    "exec_cond_branch instr c = None" "exec_system instr c = None" "exec_shift instr c = None" by auto
qed

lemma exec_opcode_delayed: "is_delayed instr \<Longrightarrow> exec_opcode instr c tr = exec_branch instr c tr"
  by (simp add: exec_opcode_def delayed_declines)

text \<open>What a branch with a delay slot leaves for the slot.\<close>

lemma execute_branch:
  assumes "pending_branch_target c = None" "exec_opcode instr c tr = (c1, Some target, tr1)"
  shows "fst (execute_instruction instr c tr) =
    c1\<lparr>pending_branch_target := Some target, sh_t := sh_t c1 + 1, sh_executed := sh_executed c1 + 1\<rparr>"
proof -
  have c: "c\<lparr>pending_branch_target := None\<rparr> = c" using assms(1) by simp
  show ?thesis
    unfolding execute_instruction_eq assms(1) c assms(2)
    by (simp add: settle_def retire_def Let_def)
qed

lemma execute_slot:
  assumes "pending_branch_target c = Some target"
  shows "sh_pc (fst (execute_instruction instr c tr)) = target \<and>
    pending_branch_target (fst (execute_instruction instr c tr)) = None"
proof -
  obtain c1 t1 tr1 where e: "exec_opcode instr (c\<lparr>pending_branch_target := None\<rparr>) tr = (c1, t1, tr1)"
    by (metis prod_cases3)
  have "pending_branch_target c1 = None" using exec_opcode_frame [OF e] by (simp add: exec_frame_def)
  then show ?thesis
    by (simp add: execute_instruction_eq assms e settle_def restore_sr_def retire_def Let_def)
qed

text \<open>
  (C11) Delayed branches. \<open>BRA\<close>, \<open>BSR\<close>, \<open>JSR\<close> and \<open>RTS\<close> execute exactly one more instruction, at the next
  address, whatever it is, and then continue at the branch target: a branch in the slot is ignored (the
  first branch wins). \<open>BSR\<close> and \<open>JSR\<close> have set PR to the instruction after the slot.
\<close>

theorem delayed_branch:
  assumes "pending_branch_target c = None"
    and "instr AND 0xF000 \<in> {0xA000, 0xB000} \<or> instr AND 0xF0FF = 0x400B \<or> instr = 0x000B"
  shows "let c1 = fst (execute_instruction instr c tr); c2 = fst (execute_instruction slot c1 tr')
    in sh_pc c1 = sh_pc c + 2 \<and> pending_branch_target c2 = None \<and>
       sh_pc c2 = (if instr AND 0xF000 \<in> {0xA000, 0xB000} then sh_pc c + 4 + of_int (signext12 (ucast instr) * 2)
                   else if instr = 0x000B then sh_pr c else gpr c (field_n instr)) \<and>
       sh_pr c1 = (if instr AND 0xF000 = 0xB000 \<or> instr AND 0xF0FF = 0x400B then sh_pc c + 4 else sh_pr c)"
proof -
  have d: "is_delayed instr" using assms(2) by (simp add: is_delayed_def)
  obtain c1 target tr1 where e: "exec_opcode instr c tr = (c1, target, tr1)" by (metis prod_cases3)
  have i: "instr AND 0xF000 = 0xA000 \<Longrightarrow> instr \<noteq> 0x000B \<and> instr AND 0xF0FF \<noteq> 0x400B"
    "instr AND 0xF000 = 0xB000 \<Longrightarrow> instr \<noteq> 0x000B \<and> instr AND 0xF0FF \<noteq> 0x400B"
    by (intro conjI; erule mask_clash; simp)+
  have b: "target = Some (if instr AND 0xF000 \<in> {0xA000, 0xB000} then sh_pc c + 4 + of_int (signext12 (ucast instr) * 2)
         else if instr = 0x000B then sh_pr c else gpr c (field_n instr)) \<and> sh_pc c1 = sh_pc c + 2 \<and>
      sh_pr c1 = (if instr AND 0xF000 = 0xB000 \<or> instr AND 0xF0FF = 0x400B then sh_pc c + 4 else sh_pr c)"
  proof (cases "instr AND 0xF000 = 0xA000")
    case True
    with e i show ?thesis
      unfolding exec_opcode_delayed [OF d] by (simp add: exec_branch_def u32_add_i32_eq Let_def) (auto simp: advance_def)
  next
    case not_bra: False
    show ?thesis
    proof (cases "instr AND 0xF000 = 0xB000")
      case True
      with e i show ?thesis
        unfolding exec_opcode_delayed [OF d] by (simp add: exec_branch_def u32_add_i32_eq Let_def) (auto simp: advance_def)
    next
      case False
      with not_bra assms(2) have "instr AND 0xF0FF = 0x400B \<or> instr = 0x000B" by simp
      with e not_bra False show ?thesis
        unfolding exec_opcode_delayed [OF d] by (elim disjE) (auto simp: exec_branch_def Let_def advance_def)
    qed
  qed
  define c' where "c' = fst (execute_instruction instr c tr)"
  have c': "c' = c1\<lparr>pending_branch_target := target, sh_t := sh_t c1 + 1, sh_executed := sh_executed c1 + 1\<rparr>"
    using execute_branch [OF assms(1), of instr tr c1 _ tr1] e b by (auto simp: c'_def)
  show ?thesis
    unfolding Let_def c'_def [symmetric]
    using b execute_slot [of c' _ slot tr'] by (simp add: c')
qed

lemma delayed_branch_witness:
  "sh_pc (fst (execute_instruction 0xA010 (fst (execute_instruction 0xB004 ((new_sh2 0)\<lparr>sh_pc := 0x100\<rparr>) new_trace))
     new_trace)) = 0x10C"
  using delayed_branch [of "(new_sh2 0)\<lparr>sh_pc := 0x100\<rparr>" "0xB004" new_trace "0xA010" new_trace]
  by (simp add: new_sh2_def signext12_def Let_def)

section \<open>Exceptions\<close>

text \<open>One bus transaction of the core: what it asks for and the core after the response.\<close>

definition exchange :: "bus_response \<Rightarrow> sh2_core \<Rightarrow> bus_op \<times> sh2_core" where
  "exchange rsp c =
    (let ((op, n), c1, tr) = produce_until_bus 0 16 c new_trace
     in (the op, fst (apply_ifetch_and_step rsp c1 tr)))"

lemma exchange_pending:
  assumes "pending_exception_vector c = None" "pending_mem c = Some p"
  shows "exchange rsp c = (access_op c 0 (is_write_kind (pm_kind p)) p,
    (let d = complete_access p (rsp_value rsp) (c\<lparr>sh_t := sh_t c + rsp_stall rsp, pending_mem := None\<rparr>)
     in d\<lparr>sh_t := sh_t d + 1, sh_executed := sh_executed d + 1\<rparr>))"
  using assms
  by (simp add: exchange_def produce_until_bus_def apply_ifetch_and_step_def retire_def Let_def)

lemma exchange_exception:
  assumes "pending_exception_vector c = Some v"
  shows "exchange rsp c =
    (let c1 = write_reg 15 (gpr c 15 - 4) c;
         p = (mem_op_of ExceptionPushSr (to_phys (gpr c1 15)) 4 (sh_sr c1) 0)\<lparr>aux := v\<rparr>;
         d = complete_access p (rsp_value rsp)
               (c1\<lparr>pending_exception_vector := None, sh_t := sh_t c1 + rsp_stall rsp, pending_mem := None\<rparr>)
     in (access_op c1 0 True p, d\<lparr>sh_t := sh_t d + 1, sh_executed := sh_executed d + 1\<rparr>))"
  using assms
  by (simp add: exchange_def produce_until_bus_def apply_ifetch_and_step_def retire_def Let_def)

lemma access_op_fields [simp]:
  "phys_addr (access_op c seq w p) = pm_addr p" "op_data (access_op c seq w p) = pm_value p"
  "kind (access_op c seq w p) = data_access_kind (pm_addr p) w"
  by (simp_all add: access_op_def bus_op_of_def)

lemma execute_rte:
  assumes "has_exception_return_context c" "pending_branch_target c = None"
  shows "fst (execute_instruction 0x002B c tr) =
    c\<lparr>sh_pc := sh_pc c + 2, pending_mem := Some (mem_op_of RtePopPc (to_phys (gpr c 15)) 4 0 0),
      sh_t := sh_t c + 1, sh_executed := sh_executed c + 1\<rparr>"
proof -
  have c: "c\<lparr>pending_branch_target := None\<rparr> = c" using assms(2) by simp
  have "exec_opcode 0x002B c tr = exec_branch 0x002B c tr"
    by (simp add: exec_opcode_def dispatch Let_def)
  then show ?thesis
    unfolding execute_instruction_eq assms(2) c
    using assms(1) by (simp add: exec_branch_def settle_def retire_def advance_def Let_def)
qed

lemma execute_nop_slot:
  assumes "pending_branch_target c = Some target"
  shows "fst (execute_instruction 0x0009 c tr) =
    (restore_sr (c\<lparr>pending_branch_target := None\<rparr>))
      \<lparr>sh_pc := target, sh_t := sh_t c + 1, sh_executed := sh_executed c + 1\<rparr>"
  by (simp add: execute_instruction_eq assms exec_opcode_def exec_basic_def settle_def retire_def restore_sr_def
      advance_def Let_def)

text \<open>
  (C10) Exception entry and return. A requested exception takes three transactions: SR is pushed at R15 - 4,
  PC at R15 - 8, and the vector is read at VBR + 4 * vector; the core continues at the vector. \<open>RTE\<close> reads
  the two words back from where they were written, and after its delay slot PC, SR and every register are
  those at the time of the exception, whatever the stalls of the six transactions.
\<close>

theorem exception_round_trip:
  assumes "pending_exception_vector c = Some v" "pending_branch_target c = None" "length (sh_r c) = 16"
    and "rsp_value pop_pc = sh_pc c" "rsp_value pop_sr = sh_sr c"
  shows "let (push_sr, c1) = exchange r1 c; (push_pc, c2) = exchange r2 c1; (vector, c3) = exchange r3 c2;
             c4 = fst (execute_instruction 0x002B c3 tr);
             (read_pc, c5) = exchange pop_pc c4; (read_sr, c6) = exchange pop_sr c5;
             c7 = fst (execute_instruction 0x0009 c6 tr')
         in (phys_addr push_sr, op_data push_sr) = (to_phys (gpr c 15 - 4), sh_sr c) \<and>
            (phys_addr push_pc, op_data push_pc) = (to_phys (gpr c 15 - 8), sh_pc c) \<and>
            phys_addr vector = to_phys (sh_vbr c + v * 4) \<and> sh_pc c3 = rsp_value r3 \<and>
            phys_addr read_pc = phys_addr push_pc \<and> phys_addr read_sr = phys_addr push_sr \<and>
            sh_pc c7 = sh_pc c \<and> sh_sr c7 = sh_sr c \<and> sh_r c7 = sh_r c"
proof -
  let ?r = "sh_r c"
  have g: "unat (15 :: u32) = 15" by simp
  have u: "?r[15 := x, 15 := ?r ! 15] = ?r" "?r[15 := ?r ! 15] = ?r" for x by simp_all
  show ?thesis
    using assms u
    by (simp add: exchange_exception exchange_pending complete_access_def multi_step_def execute_rte
        execute_nop_slot restore_sr_def write_reg_def gpr_def Let_def split_def)
qed

definition plain_response :: "u32 \<Rightarrow> bus_response" where
  "plain_response v = inert_response 0\<lparr>rsp_value := v\<rparr>"

lemma exception_round_trip_witness:
  "let c = request_exception_vector 4 (sh2_reset (new_sh2 0) 0x100 0x1000); r = plain_response 0x400;
       c3 = snd (exchange r (snd (exchange r (snd (exchange r c)))));
       c6 = snd (exchange (plain_response 0xF0) (snd (exchange (plain_response 0x100)
              (fst (execute_instruction 0x002B c3 new_trace)))));
       c7 = fst (execute_instruction 0x0009 c6 new_trace)
   in sh_pc c3 = 0x400 \<and> sh_pc c7 = 0x100 \<and> sh_sr c7 = 0xF0 \<and> gpr c7 15 = 0x1000"
  using exception_round_trip [of "request_exception_vector 4 (sh2_reset (new_sh2 0) 0x100 0x1000)" 4
      "plain_response 0x100" "plain_response 0xF0" "plain_response 0x400" "plain_response 0x400"
      "plain_response 0x400" new_trace new_trace]
  by (simp add: split_def Let_def request_exception_vector_def sh2_reset_def new_sh2_def plain_response_def gpr_def)

section \<open>TRAPA\<close>

lemma exec_trapa:
  assumes "instr AND 0xFF00 = 0xC300"
  shows "exec_opcode instr c tr =
    (let c1 = write_reg 15 (gpr c 15 - 4) (c\<lparr>pending_trapa_imm := Some (field_imm8 instr)\<rparr>)
     in (c1\<lparr>pending_mem := Some (mem_op_of TrapaPushSr (to_phys (gpr c1 15)) 4 (sh_sr c1) 0)\<rparr>, None, tr))"
  using mask_clash [OF assms]
  by (simp add: exec_opcode_def dispatch exec_branch_def assms Let_def)

lemma execute_trapa:
  assumes "instr AND 0xFF00 = 0xC300" "pending_branch_target c = None"
  shows "fst (execute_instruction instr c tr) =
    (let c1 = write_reg 15 (gpr c 15 - 4) (c\<lparr>pending_trapa_imm := Some (field_imm8 instr)\<rparr>)
     in c1\<lparr>pending_mem := Some (mem_op_of TrapaPushSr (to_phys (gpr c1 15)) 4 (sh_sr c1) 0),
           sh_t := sh_t c + 1, sh_executed := sh_executed c + 1\<rparr>)"
proof -
  have c: "c\<lparr>pending_branch_target := None\<rparr> = c" using assms(2) by simp
  show ?thesis
    unfolding execute_instruction_eq assms(2) c exec_trapa [OF assms(1)]
    by (simp add: settle_def retire_def write_reg_def Let_def)
qed

text \<open>
  (C16) \<open>TRAPA #imm\<close>, one instruction at a time: SR goes to R15 - 4, the address of the next instruction to
  R15 - 8, control to the word at VBR + 4 * imm, and \<open>RTE\<close> brings back SR, the registers and the
  instruction after the trap.
\<close>

theorem trapa_round_trip:
  assumes "instr AND 0xFF00 = 0xC300" "pending_exception_vector c = None" "pending_branch_target c = None"
    and "length (sh_r c) = 16" "rsp_value pop_pc = sh_pc c + 2" "rsp_value pop_sr = sh_sr c"
  shows "let c0 = fst (execute_instruction instr c tr0);
             (push_sr, c1) = exchange r1 c0; (push_pc, c2) = exchange r2 c1; (vector, c3) = exchange r3 c2;
             c4 = fst (execute_instruction 0x002B c3 tr);
             (read_pc, c5) = exchange pop_pc c4; (read_sr, c6) = exchange pop_sr c5;
             c7 = fst (execute_instruction 0x0009 c6 tr')
         in (phys_addr push_sr, op_data push_sr) = (to_phys (gpr c 15 - 4), sh_sr c) \<and>
            (phys_addr push_pc, op_data push_pc) = (to_phys (gpr c 15 - 8), sh_pc c + 2) \<and>
            phys_addr vector = to_phys (sh_vbr c + (ucast instr AND 0xFF) * 4) \<and> sh_pc c3 = rsp_value r3 \<and>
            phys_addr read_pc = phys_addr push_pc \<and> phys_addr read_sr = phys_addr push_sr \<and>
            sh_pc c7 = sh_pc c + 2 \<and> sh_sr c7 = sh_sr c \<and> sh_r c7 = sh_r c"
proof -
  let ?r = "sh_r c"
  have u: "?r[15 := x, 15 := ?r ! 15] = ?r" "?r[15 := ?r ! 15] = ?r" for x by simp_all
  show ?thesis
    using assms u
    by (simp add: execute_trapa exchange_pending complete_access_def multi_step_def execute_rte
        execute_nop_slot restore_sr_def write_reg_def gpr_def field_imm8_def Let_def split_def)
qed

lemma trapa_round_trip_witness:
  "let c = sh2_reset (new_sh2 0) 0x100 0x1000; r = plain_response 0x400;
       c3 = snd (exchange r (snd (exchange r (snd (exchange r (fst (execute_instruction 0xC321 c new_trace)))))));
       c6 = snd (exchange (plain_response 0xF0) (snd (exchange (plain_response 0x102)
              (fst (execute_instruction 0x002B c3 new_trace)))));
       c7 = fst (execute_instruction 0x0009 c6 new_trace)
   in sh_pc c3 = 0x400 \<and> sh_pc c7 = 0x102 \<and> sh_sr c7 = 0xF0 \<and> gpr c7 15 = 0x1000"
  using trapa_round_trip [of "0xC321" "sh2_reset (new_sh2 0) 0x100 0x1000"
      "plain_response 0x102" "plain_response 0xF0" new_trace "plain_response 0x400" "plain_response 0x400"
      "plain_response 0x400" new_trace new_trace]
  by (simp add: split_def Let_def sh2_reset_def new_sh2_def plain_response_def gpr_def)

end
