(* ===== verification/Sh2FetchPath.thy ===== *)
theory Sh2FetchPath
  imports Sh2Control
begin

text \<open>
  The instruction fetch of the SH-2 core and the run-ahead loop: what they do to \<open>TRAPA\<close>, \<open>RTE\<close>, loads,
  the system register stack forms and delay slots, where that departs from the instruction set.
\<close>


section \<open>Where the fetch path departs from the instruction set\<close>

lemma trapa_no_access:
  assumes "instr AND 0xFF00 = 0xC300"
  shows "memory_access instr c = None"
  using mask_clash [OF assms]
  by (simp add: memory_access_def access_first_def access_second_def access_third_def is_sys_push_def
      is_sys_pop_def assms Let_def)

text \<open>The instruction a run-ahead iteration finds in the cache.\<close>

definition cached_at :: "sh2_core \<Rightarrow> u32 \<Rightarrow> u16 \<Rightarrow> bool" where
  "cached_at c a instr \<longleftrightarrow> \<not> is_uncached_alias a \<and> \<not> is_mmio (to_phys a) \<and>
     (\<exists>v. cache_read (icache c) (to_phys a) 2 = Some v \<and> ucast v = instr)"

lemma run_ahead_cached:
  assumes "cached_at c (sh_pc c) instr" "memory_access instr c = None"
  shows "run_ahead (Suc k) seq n c tr =
    run_ahead k seq (n + 1) (fst (execute_instruction instr c tr)) (snd (execute_instruction instr c tr))"
  using assms by (auto simp: cached_at_def Let_def split_def)

lemma run_ahead_cached_access:
  assumes "cached_at c (sh_pc c) instr" "memory_access instr c = Some (c1, w, p)"
  shows "run_ahead (Suc k) seq n c tr =
    ((Some (access_op c1 seq w p), n), c1\<lparr>pending_mem := Some p\<rparr>, tr)"
  using assms by (auto simp: cached_at_def Let_def split_def)

text \<open>
  The run-ahead loop does not look at \<open>pending_mem_op_\<close>, and \<open>TRAPA\<close> does not advance PC: a cached \<open>TRAPA\<close>
  is executed once per iteration of the loop, each time moving the stack pointer, instead of once.
\<close>

lemma trapa_repeats_in_run_ahead:
  assumes "instr AND 0xFF00 = 0xC300" "cached_at c (sh_pc c) instr" "pending_branch_target c = None"
    and "length (sh_r c) = 16"
  shows "let (r, c', tr') = run_ahead k seq n c tr
         in r = (None, n + of_nat k) \<and> sh_pc c' = sh_pc c \<and> gpr c' 15 = gpr c 15 - 4 * of_nat k"
  using assms
proof (induction k arbitrary: n c tr)
  case (Suc k)
  define d where "d = fst (execute_instruction instr c tr)"
  have d: "sh_pc d = sh_pc c" "icache d = icache c" "pending_branch_target d = None"
    "length (sh_r d) = 16" "gpr d 15 = gpr c 15 - 4"
    using Suc.prems unfolding d_def execute_trapa [OF Suc.prems(1,3)]
    by (simp_all add: write_reg_def gpr_def Let_def)
  have r: "run_ahead (Suc k) seq n c tr = run_ahead k seq (n + 1) d (snd (execute_instruction instr c tr))"
    unfolding d_def using Suc.prems(2) trapa_no_access [OF Suc.prems(1)] by (rule run_ahead_cached)
  have "cached_at d (sh_pc d) instr" using Suc.prems(2) d by (simp add: cached_at_def)
  from Suc.IH [OF Suc.prems(1) this d(3,4)] show ?case
    unfolding r by (auto simp: d split_def Let_def algebra_simps)
qed simp

text \<open>
  For the same reason \<open>RTE\<close> runs on: if the next instruction is not cached, the loop asks for it while the
  pop of PC is pending, and the response, an opcode, is taken as the return address.
\<close>

lemma rte_takes_opcode_as_return_address:
  assumes "cached_at c (sh_pc c) 0x002B" "has_exception_return_context c" "pending_branch_target c = None"
    and "pending_exception_vector c = None" "pending_mem c = None"
    and "\<not> is_uncached_alias (sh_pc c + 2)" "cache_read (icache c) (to_phys (sh_pc c + 2)) 2 = None"
  shows "let ((op, n), c1, tr1) = produce_until_bus seq 16 c tr;
             c2 = fst (apply_ifetch_and_step rsp c1 tr2)
         in kind (the op) = IFetch \<and> phys_addr (the op) = to_phys (sh_pc c + 2) \<and> pending_new_pc c2 = rsp_value rsp"
proof -
  define d where "d = fst (execute_instruction 0x002B c tr)"
  have d: "d = c\<lparr>sh_pc := sh_pc c + 2, pending_mem := Some (mem_op_of RtePopPc (to_phys (gpr c 15)) 4 0 0),
      sh_t := sh_t c + 1, sh_executed := sh_executed c + 1\<rparr>"
    unfolding d_def using assms(2,3) by (rule execute_rte)
  have "memory_access 0x002B c = None"
    by (simp add: memory_access_def access_first_def access_second_def access_third_def is_sys_push_def
        is_sys_pop_def Let_def)
  with assms(1) have r: "run_ahead 16 seq 0 c tr =
      run_ahead 15 seq 1 d (snd (execute_instruction 0x002B c tr))"
    using run_ahead_cached [of c "0x002B" 15 seq 0 tr] by (simp add: d_def)
  have "produce_until_bus seq 16 c tr = run_ahead 15 seq 1 d (snd (execute_instruction 0x002B c tr))"
    using assms(4,5) r by (simp add: produce_until_bus_def)
  then show ?thesis
    using assms(6,7) run_ahead.simps(2) [of 14 seq 1 d "snd (execute_instruction 0x002B c tr)"]
    by (auto simp: d Let_def split_def apply_ifetch_and_step_def retire_def complete_access_def multi_step_def
        bus_op_of_def write_reg_def)
qed

text \<open>
  A fetched word is always executed as a register instruction, and loads and stores are decoded on the
  cached path only: \<open>MOV.L @Rm,Rn\<close> is a load when its line is cached and an illegal opcode when it is the
  first instruction fetched from its line or lies in an uncached region.
\<close>

lemma fetched_load_is_illegal:
  assumes "instr AND 0xF00F = 0x6002" "pending_mem c = None" "line_data rsp = []" "ucast (rsp_value rsp) = instr"
  shows "\<exists>f. fault_reason f = ''ILLEGAL_OP'' \<and>
      FaultLine f \<in> set (events (snd (apply_ifetch_and_step rsp c tr))) \<and>
      sh_r (fst (apply_ifetch_and_step rsp c tr)) = sh_r c"
    and "memory_access instr c = load_access 4 (gpr c (field_m instr)) (field_n instr) c"
proof -
  note clash = mask_clash [OF assms(1)]
  have "exec_basic instr d = None" "exec_logic instr d = None" "exec_compare instr d = None"
    "exec_cond_branch instr d = None" "exec_system instr d = None" "exec_shift instr d = None" for d
    by (simp_all add: dispatch clash assms(1) Let_def)
  then have e: "exec_opcode instr d tr = (advance d, None, add_fault \<lparr>fault_t = sh_t d, fault_cpu = sh_id d,
      fault_pc = sh_pc d, fault_detail = ucast instr, fault_reason = ''ILLEGAL_OP''\<rparr> tr)" for d
    by (simp add: exec_opcode_def exec_branch_def clash assms(1) Let_def)
  show "\<exists>f. fault_reason f = ''ILLEGAL_OP'' \<and>
      FaultLine f \<in> set (events (snd (apply_ifetch_and_step rsp c tr))) \<and>
      sh_r (fst (apply_ifetch_and_step rsp c tr)) = sh_r c"
    using assms(2-4)
    by (simp add: apply_ifetch_and_step_def fill_icache_def execute_instruction_eq e retire_def Let_def)
       (rule exI, rule conjI [rotated], rule disjI1, rule refl, simp)
  show "memory_access instr c = load_access 4 (gpr c (field_m instr)) (field_n instr) c"
    by (simp add: memory_access_def access_first_def access_second_def is_sys_push_def is_sys_pop_def clash
        assms(1) load_access_def Let_def)
qed

text \<open>
  An exception taken between a delayed branch and its slot leaves the branch pending: the first
  instruction of the handler is executed as the slot, and control goes to the branch target.
\<close>

lemma exception_before_slot_abandons_handler:
  assumes "pending_exception_vector c = Some v" "pending_branch_target c = Some target" "length (sh_r c) = 16"
  shows "let c3 = snd (exchange r3 (snd (exchange r2 (snd (exchange r1 c)))))
         in sh_pc c3 = rsp_value r3 \<and> sh_pc (fst (execute_instruction 0x0009 c3 tr)) = target"
  using assms
  by (simp add: exchange_exception exchange_pending complete_access_def multi_step_def execute_nop_slot
      restore_sr_def write_reg_def gpr_def Let_def split_def)

text \<open>
  The stack forms \<open>STC.L SR,@-Rn\<close> and \<open>LDS.L @Rm+,PR\<close> reach \<open>execute_instruction\<close> when they are fetched
  over the bus, which advances PC; the completion of their access advances it again, so the instruction
  after them is skipped.
\<close>

lemma fetched_push_skips_an_instruction:
  assumes "pending_branch_target c = None" "pending_exception_vector c = None"
  shows "sh_pc (snd (exchange rsp (fst (execute_instruction 0x4F03 c tr)))) = sh_pc c + 4"
proof -
  have c: "c\<lparr>pending_branch_target := None\<rparr> = c" using assms(1) by simp
  have e: "exec_opcode 0x4F03 c tr =
    (let c1 = write_reg 15 (gpr c 15 - 4) c
     in (advance (c1\<lparr>pending_mem := Some (mem_op_of WriteLong (to_phys (gpr c1 15)) 4 (sh_sr c) 0)\<rparr>), None, tr))"
    by (simp add: exec_opcode_def dispatch sys_push_value_def field_n_def Let_def)
  show ?thesis
    unfolding execute_instruction_eq assms(1) c e
    using assms
    by (simp add: settle_def retire_def exchange_pending complete_access_def multi_step_def leave_slot_def
        post_increment_def load_result_def advance_def write_reg_def Let_def)
qed

text \<open>
  The pops \<open>LDC.L/LDS.L @R0+,reg\<close> leave R0 alone: their destination register defaults to 0, and a
  register that is its own destination is not incremented.
\<close>

lemma system_pop_does_not_increment_r0:
  assumes "pending_exception_vector c = None" "pending_mem c = Some (sys_pop_op 0x4026 c)"
  shows "sh_pr (snd (exchange rsp c)) = rsp_value rsp \<and> gpr (snd (exchange rsp c)) 0 = gpr c 0"
  using assms
  by (auto simp: exchange_pending complete_access_def multi_step_def leave_slot_def post_increment_def
      load_result_def restore_sr_def sys_pop_op_def sys_pop_aux_def field_n_def gpr_def advance_def Let_def
      split: option.splits)

text \<open>
  On the cached path the conditional branches \<open>0x89x1\<close> (and \<open>8B\<close>, \<open>8D\<close>, \<open>8F\<close> alike) are taken for the
  displacement store: the table calls the opcode a branch, the core writes memory.
\<close>

lemma cached_branch_is_a_store:
  "decode_family 0x8901 = Some ''BT'' \<and> memory_access 0x8901 c = store_access 2 (gpr c 9) (gpr c 0) c"
  by (simp add: decode_family_def kPatterns_def pattern_matches_def memory_access_def access_first_def
      access_second_def access_third_def store_access_def is_sys_push_def is_sys_pop_def field_n_def field_m_def Let_def)

end
