(* ===== verification/ScriptedCpu.thy ===== *)
theory ScriptedCpu
  imports BusArbiter
begin

text \<open>
  \<open>src/src/cpu/scripted_cpu.hpp\<close> and \<open>scripted_cpu.cpp\<close>: a CPU that runs a script of reads, writes,
  computes and barriers through its store buffer and its cache, one bus operation at a time.
\<close>

section \<open>Scripts and state\<close>

datatype script_op_kind = ScRead | ScWrite | ScCompute | ScBarrier

record script_op =
  so_kind :: script_op_kind
  so_vaddr :: u32
  so_size :: u8
  so_value :: u32
  so_cycles :: u32

record pending_bus_op =
  pb_op :: bus_op
  pb_script_index :: nat

record scripted_cpu =
  sc_cpu_id :: int
  sc_script :: "script_op list"
  sc_pc :: nat
  sc_sequence :: u64
  sc_local_time :: tick
  sc_store_buffer :: store_buffer
  sc_cache :: tiny_cache
  sc_last_read :: "u32 option"
  sc_next_store_id :: u64

definition new_scripted_cpu :: "int \<Rightarrow> script_op list \<Rightarrow> nat \<Rightarrow> nat \<Rightarrow> scripted_cpu" where
  "new_scripted_cpu cpu script cache_line_sz cache_line_count = \<lparr>sc_cpu_id = cpu, sc_script = script,
     sc_pc = 0, sc_sequence = 0, sc_local_time = 0, sc_store_buffer = empty_store_buffer,
     sc_cache = new_cache cache_line_sz cache_line_count, sc_last_read = None, sc_next_store_id = 1\<rparr>"

section \<open>Operations\<close>

definition sc_done :: "scripted_cpu \<Rightarrow> bool" where
  "sc_done c \<longleftrightarrow> sc_pc c \<ge> length (sc_script c)"

definition script_uncached :: "script_op \<Rightarrow> bool" where
  "script_uncached ins \<longleftrightarrow> is_uncached_alias (so_vaddr ins) \<or> is_mmio (to_phys (so_vaddr ins))"

text \<open>The bus operation of a barrier, a write and a read that misses; each takes the next sequence number.\<close>

definition issue :: "scripted_cpu \<Rightarrow> bus_op \<Rightarrow> pending_bus_op option \<times> scripted_cpu" where
  "issue c op = (Some \<lparr>pb_op = op, pb_script_index = sc_pc c\<rparr>,
     c\<lparr>sc_sequence := sc_sequence c + 1, sc_pc := sc_pc c + 1\<rparr>)"

definition issue_write :: "scripted_cpu \<Rightarrow> script_op \<Rightarrow> pending_bus_op option \<times> scripted_cpu" where
  "issue_write c ins =
    (let phys = to_phys (so_vaddr ins);
         store = sc_next_store_id c;
         c1 = c\<lparr>sc_next_store_id := store + 1,
               sc_store_buffer := sb_push (sc_store_buffer c)
                 \<lparr>store_id = store, se_phys = phys, se_size = so_size ins, se_value = so_value ins\<rparr>\<rparr>;
         c2 = (if \<not> script_uncached ins
               then c1\<lparr>sc_cache := cache_write (sc_cache c1) phys (so_size ins) (so_value ins)\<rparr> else c1);
         k = (if is_mmio phys then MmioWrite else BusWrite)
     in issue c2 ((bus_op_of (sc_cpu_id c) (sc_local_time c) (sc_sequence c) k phys (so_size ins) (so_value ins))
          \<lparr>producer_token := store\<rparr>))"

definition issue_read :: "scripted_cpu \<Rightarrow> script_op \<Rightarrow> pending_bus_op option \<times> scripted_cpu" where
  "issue_read c ins =
    (let phys = to_phys (so_vaddr ins);
         k = (if is_mmio phys then MmioRead else BusRead);
         op = bus_op_of (sc_cpu_id c) (sc_local_time c) (sc_sequence c) k phys (so_size ins) 0
     in issue c (if \<not> script_uncached ins
          then op\<lparr>fill_cache_line := True, cache_line_size := of_nat (line_size (sc_cache c))\<rparr> else op))"

text \<open>What the store buffer or the cache answers without a bus operation.\<close>

definition local_read :: "scripted_cpu \<Rightarrow> script_op \<Rightarrow> u32 option" where
  "local_read c ins =
    (if script_uncached ins then None
     else case sb_forward (sc_store_buffer c) (to_phys (so_vaddr ins)) (so_size ins) of
       Some v \<Rightarrow> Some v
     | None \<Rightarrow> cache_read (sc_cache c) (to_phys (so_vaddr ins)) (so_size ins))"

function produce :: "scripted_cpu \<Rightarrow> pending_bus_op option \<times> scripted_cpu" where
  "produce c =
    (if sc_done c then (None, c)
     else let ins = sc_script c ! sc_pc c in
       case so_kind ins of
         ScCompute \<Rightarrow> produce (c\<lparr>sc_local_time := sc_local_time c + ucast (so_cycles ins), sc_pc := sc_pc c + 1\<rparr>)
       | ScBarrier \<Rightarrow> issue c (bus_op_of (sc_cpu_id c) (sc_local_time c) (sc_sequence c) BusBarrier 0 0 0)
       | ScWrite \<Rightarrow> issue_write c ins
       | ScRead \<Rightarrow>
           (case local_read c ins of
              Some v \<Rightarrow> produce (c\<lparr>sc_last_read := Some v, sc_pc := sc_pc c + 1\<rparr>)
            | None \<Rightarrow> issue_read c ins))"
  by pat_completeness auto

termination
  by (relation "measure (\<lambda>c. length (sc_script c) - sc_pc c)") (auto simp: sc_done_def)

declare produce.simps [simp del]

text \<open>\<open>apply_response\<close>; the trace is the pointer argument, \<open>None\<close> when it is null.\<close>

definition sc_apply_response ::
    "scripted_cpu \<Rightarrow> nat \<Rightarrow> bus_response \<Rightarrow> u64 \<Rightarrow> trace_log option \<Rightarrow> scripted_cpu \<times> trace_log option" where
  "sc_apply_response c script_index rsp token trace =
    (let c1 = c\<lparr>sc_local_time := sc_local_time c + rsp_stall rsp\<rparr>;
         ins = sc_script c ! script_index;
         phys = to_phys (so_vaddr ins)
     in if so_kind ins = ScWrite then
          (c1\<lparr>sc_store_buffer := snd (sb_retire (sc_store_buffer c1) token)\<rparr>, trace)
        else if so_kind ins = ScRead then
          (let c2 = c1\<lparr>sc_last_read := Some (rsp_value rsp)\<rparr> in
           if script_uncached ins then (c2, trace)
           else if line_data rsp \<noteq> [] then
             (let expected_line_base = phys div of_nat (line_size (sc_cache c)) in
              if line_base rsp \<noteq> expected_line_base \<or> length (line_data rsp) \<noteq> line_size (sc_cache c) then
                (c2, map_option (add_fault \<lparr>fault_t = sc_local_time c2, fault_cpu = sc_cpu_id c, fault_pc = 0,
                   fault_detail = phys, fault_reason = ''CACHE_FILL_MISMATCH''\<rparr>) trace)
              else (c2\<lparr>sc_cache := fill_line (sc_cache c2) (line_base rsp) (line_data rsp)\<rparr>, trace))
           else
             (let lbase = phys div of_nat (line_size (sc_cache c)) in
              (c2\<lparr>sc_cache := cache_write (fill_line (sc_cache c2) lbase (replicate (line_size (sc_cache c)) 0))
                  phys (so_size ins) (rsp_value rsp)\<rparr>, trace)))
        else (c1, trace))"

definition store_buffer_size :: "scripted_cpu \<Rightarrow> nat" where
  "store_buffer_size c = sb_size (sc_store_buffer c)"

section \<open>Coherence of the private cache\<close>

text \<open>
  Every byte the cache holds is the byte committed memory holds. Memory is a whole number of lines,
  so a line is either inside it or reads as zeros.
\<close>

definition coherent :: "tiny_cache \<Rightarrow> committed_memory \<Rightarrow> bool" where
  "coherent c m \<longleftrightarrow> cache_wf c \<and> mem_wf m \<and> mem_size m mod line_size c = 0 \<and>
     (\<forall>q. cache_hit c q 1 \<longrightarrow> mem_hit m q 1 \<longrightarrow> cache_byte c q = mem_byte m q)"

lemma cache_read_Some: "cache_read c p n = Some v \<longleftrightarrow> cache_hit c p n \<and> v = cache_read_value c p n"
  by (auto simp: cache_read_def cache_read_value_def Let_def)

lemma coherent_read:
  assumes "coherent c m" "cache_hit c p n" "mem_hit m p n"
  shows "cache_read_value c p n = mem_read m p n"
proof -
  have "cache_byte c (p + of_nat i) = mem_byte m (p + of_nat i)" if "i < unat n" for i
    using assms that unfolding coherent_def by (simp add: cache_hit_byte memory.hit_byte)
  then show ?thesis
    using assms by (simp add: coherent_def cache.rd_bytes memory.rd_bytes cong: be_assemble_cong)
qed

lemma coherent_write:
  assumes "coherent c m" "mem_hit m p n" "cache_offset c p + unat n \<le> line_size c"
  shows "coherent (cache_write c p n v) (mem_write m p n v)"
proof -
  have wf: "cache_wf c" "mem_wf m" using assms(1) by (simp_all add: coherent_def)
  have "cache_byte (cache_write c p n v) q = mem_byte (mem_write m p n v) q"
    if h: "cache_hit c q 1" "mem_hit m q 1" for q
  proof (cases "cache_hit c p n")
    case True
    then show ?thesis
      using assms(1,2) h wf by (simp add: coherent_def cache_write_byte mem_write_byte)
  next
    case False
    have "\<not> unat (q - p) < unat n"
    proof
      assume "unat (q - p) < unat n"
      then have "cache_line_base c q = cache_line_base c p" by (rule near_same_line(1) [OF wf(1) assms(3)])
      then show False using False h(1) assms(3) by (simp add: cache_hit_conv)
    qed
    then show ?thesis
      using False assms(1,2) h by (simp add: coherent_def cache_write_def mem_write_byte)
  qed
  then show ?thesis
    using assms(1) by (simp add: coherent_def cache_wf_write memory.inv_wr cache_hit_write memory.hit_wr)
qed

lemma line_in_range:
  assumes "coherent c m" "mem_hit m q 1"
  shows "access_in_range (mem_size m) (cache_line_base c q * of_nat (line_size c)) (line_size c)"
proof -
  have wf: "cache_wf c" "mem_size m mod line_size c = 0" using assms(1) by (simp_all add: coherent_def)
  have q: "unat q < mem_size m" using assms(2) by (simp add: mem_hit_def access_in_range_def)
  have "unat q + (line_size c - 1 - unat q mod line_size c) < mem_size m"
  proof (rule block_no_overflow [OF q wf(2)])
    have "unat q mod line_size c < line_size c" using wf(1) by (simp add: cache_wf_def)
    then show "unat q mod line_size c + (line_size c - 1 - unat q mod line_size c) < line_size c" by simp
  qed
  moreover have "cache_offset c q < line_size c" "cache_offset c q \<le> unat q"
    using wf(1) cache_address_split [OF wf(1), of q] by (simp_all add: cache_geometry cache_wf_def)
  ultimately show ?thesis
    using cache_geometry(2) [OF wf(1), of q]
    by (simp add: access_in_range_def line_start(1) [OF wf(1)])
qed

lemma coherent_fill:
  assumes "coherent c m" "lbase = cache_line_base c p"
  shows "coherent (fill_line c lbase (read_block m (lbase * of_nat (line_size c)) (line_size c))) m"
proof -
  let ?d = "read_block m (lbase * of_nat (line_size c)) (line_size c)"
  let ?c = "fill_line c lbase ?d"
  have wf: "cache_wf c" "mem_wf m" using assms(1) by (simp_all add: coherent_def)
  have "cache_byte ?c q = mem_byte m q" if h: "cache_hit ?c q 1" "mem_hit m q 1" for q
  proof (cases "cache_line_base c q = lbase")
    case True
    have off: "cache_offset c q + unat (1 :: u8) \<le> line_size c" using h(1) by (simp add: cache_hit_conv)
    have "cache_read ?c q 1 = Some (mem_read m q 1)"
      unfolding True [symmetric] by (rule cache_fill_coherent [OF wf(1) line_in_range [OF assms(1) h(2)] off])
    then have "cache_read_value ?c q 1 = mem_read m q 1" by (simp add: cache_read_value_def)
    moreover have "cache_read_value ?c q 1 = ucast (cache_byte ?c q)"
      using cache_read_bytes [OF cache_wf_fill [OF wf(1)] h(1)] by (simp add: be_assemble_def)
    moreover have "mem_read m q 1 = ucast (mem_byte m q)"
      using memory.rd_bytes [OF wf(2) h(2)] by (simp add: be_assemble_def)
    ultimately have "(ucast (cache_byte ?c q) :: u32) = ucast (mem_byte m q)" by simp
    then show ?thesis by (simp add: ucast_u8_inj)
  next
    case False
    have i: "cache_index c (cache_line_base c q) \<noteq> cache_index c lbase"
      using h(1) False fill_line_nth [OF wf(1), of ?d lbase] by (auto simp: cache_hit_conv)
    then have l: "cache_lines ?c ! cache_index c (cache_line_base c q) = cache_lines c ! cache_index c (cache_line_base c q)"
      by (simp add: fill_line_def)
    then have "cache_hit c q 1" using h(1) by (simp add: cache_hit_conv)
    then show ?thesis using assms(1) h(2) l by (simp add: coherent_def cache_byte_def)
  qed
  then show ?thesis using assms(1) wf by (simp add: coherent_def cache_wf_fill)
qed

section \<open>The reference semantics of a script\<close>

text \<open>A script run against flat memory, one instruction after the other: the memory and the last value read.\<close>

definition ref_step :: "script_op \<Rightarrow> committed_memory \<times> u32 option \<Rightarrow> committed_memory \<times> u32 option" where
  "ref_step ins s =
    (case so_kind ins of
       ScWrite \<Rightarrow> (mem_write (fst s) (to_phys (so_vaddr ins)) (so_size ins) (so_value ins), snd s)
     | ScRead \<Rightarrow> (fst s, Some (mem_read (fst s) (to_phys (so_vaddr ins)) (so_size ins)))
     | _ \<Rightarrow> s)"

definition ref_run :: "script_op list \<Rightarrow> committed_memory \<Rightarrow> committed_memory \<times> u32 option" where
  "ref_run script m = fold ref_step script (m, None)"

text \<open>A cached RAM script: legal sizes, inside memory, no access across a cache line.\<close>

definition cached_script :: "nat \<Rightarrow> nat \<Rightarrow> script_op list \<Rightarrow> bool" where
  "cached_script lsize msize script \<longleftrightarrow> (\<forall>ins \<in> set script. so_kind ins = ScRead \<or> so_kind ins = ScWrite \<longrightarrow>
     \<not> script_uncached ins \<and> valid_size (so_size ins) \<and>
     access_in_range msize (to_phys (so_vaddr ins)) (unat (so_size ins)) \<and>
     unat (to_phys (so_vaddr ins)) mod lsize + unat (so_size ins) \<le> lsize)"

text \<open>The state of a CPU between two bus operations, on a memory that holds what others wrote.\<close>

definition cached_inv :: "committed_memory \<Rightarrow> bus_arbiter \<Rightarrow> scripted_cpu \<Rightarrow> bool" where
  "cached_inv m0 a c \<longleftrightarrow> coherent (sc_cache c) (arb_memory a) \<and> entries (sc_store_buffer c) = [] \<and>
     line_size (sc_cache c) < 256 \<and> sc_pc c \<le> length (sc_script c) \<and>
     cached_script (line_size (sc_cache c)) (mem_size (arb_memory a)) (sc_script c) \<and>
     (arb_memory a, sc_last_read c) = ref_run (take (sc_pc c) (sc_script c)) m0"

lemma ref_run_next:
  "pc < length script \<Longrightarrow> ref_run (take (Suc pc) script) m = ref_step (script ! pc) (ref_run (take pc script) m)"
  by (simp add: ref_run_def take_Suc_conv_app_nth)

lemma cached_ins:
  assumes "cached_inv m0 a c" "\<not> sc_done c" "so_kind (sc_script c ! sc_pc c) = ScRead \<or> so_kind (sc_script c ! sc_pc c) = ScWrite"
  shows "\<not> script_uncached (sc_script c ! sc_pc c)" "valid_size (so_size (sc_script c ! sc_pc c))"
    "mem_hit (arb_memory a) (to_phys (so_vaddr (sc_script c ! sc_pc c))) (so_size (sc_script c ! sc_pc c))"
    "cache_offset (sc_cache c) (to_phys (so_vaddr (sc_script c ! sc_pc c))) + unat (so_size (sc_script c ! sc_pc c))
      \<le> line_size (sc_cache c)"
  using assms cache_geometry(2) [of "sc_cache c"]
  by (auto simp: cached_inv_def cached_script_def sc_done_def mem_hit_def coherent_def)

text \<open>The local phase of \<open>produce\<close>: computes and reads answered by the cache keep the invariant.\<close>

lemma local_read_value:
  assumes "cached_inv m0 a c" "\<not> sc_done c" "so_kind (sc_script c ! sc_pc c) = ScRead"
    and "local_read c (sc_script c ! sc_pc c) = Some v"
  shows "v = mem_read (arb_memory a) (to_phys (so_vaddr (sc_script c ! sc_pc c))) (so_size (sc_script c ! sc_pc c))"
proof -
  have "sb_forward (sc_store_buffer c) p n = None" for p n
    using assms(1) by (simp add: cached_inv_def sb_forward_def)
  then show ?thesis
    using assms(3,4) cached_ins [OF assms(1,2)] assms(1)
    by (auto simp: local_read_def cached_inv_def cache_read_Some intro: coherent_read)
qed

definition at_bus_op :: "scripted_cpu \<Rightarrow> bool" where
  "at_bus_op c \<longleftrightarrow> sc_done c \<or> (so_kind (sc_script c ! sc_pc c) \<noteq> ScCompute \<and>
     (so_kind (sc_script c ! sc_pc c) = ScRead \<longrightarrow> local_read c (sc_script c ! sc_pc c) = None))"

lemma produce_compute:
  assumes "\<not> sc_done c" "so_kind (sc_script c ! sc_pc c) = ScCompute"
  shows "produce c = produce (c\<lparr>sc_local_time := sc_local_time c + ucast (so_cycles (sc_script c ! sc_pc c)),
    sc_pc := sc_pc c + 1\<rparr>)"
  using assms by (subst produce.simps) (simp add: Let_def)

lemma produce_local_read:
  assumes "\<not> sc_done c" "so_kind (sc_script c ! sc_pc c) = ScRead" "local_read c (sc_script c ! sc_pc c) = Some v"
  shows "produce c = produce (c\<lparr>sc_last_read := Some v, sc_pc := sc_pc c + 1\<rparr>)"
  using assms by (subst produce.simps) (simp add: Let_def)

lemma produce_local_phase:
  assumes "cached_inv m0 a c"
  shows "\<exists>c'. cached_inv m0 a c' \<and> at_bus_op c' \<and> produce c = produce c' \<and>
    sc_script c' = sc_script c \<and> sc_pc c \<le> sc_pc c'"
  using assms
proof (induction "length (sc_script c) - sc_pc c" arbitrary: c rule: less_induct)
  case less
  let ?ins = "sc_script c ! sc_pc c"
  show ?case
  proof (cases "at_bus_op c")
    case True
    then show ?thesis using less(2) by blast
  next
    case False
    then have nd: "\<not> sc_done c" by (simp add: at_bus_op_def)
    then have pc: "sc_pc c < length (sc_script c)" by (simp add: sc_done_def)
    have again: ?thesis
      if c': "produce c = produce c'" "sc_script c' = sc_script c" "sc_pc c' = sc_pc c + 1" "cached_inv m0 a c'" for c'
    proof -
      have "length (sc_script c') - sc_pc c' < length (sc_script c) - sc_pc c" using pc c' by simp
      from less(1) [OF this c'(4)] show ?thesis using c' by auto
    qed
    from False consider "so_kind ?ins = ScCompute"
      | v where "so_kind ?ins = ScRead" "local_read c ?ins = Some v"
      by (auto simp: at_bus_op_def)
    then show ?thesis
    proof cases
      case 1
      show ?thesis
        by (rule again [OF produce_compute [OF nd 1]])
           (use less(2) pc 1 in \<open>simp_all add: cached_inv_def ref_run_next ref_step_def\<close>)
    next
      case 2
      have v: "v = mem_read (arb_memory a) (to_phys (so_vaddr ?ins)) (so_size ?ins)"
        by (rule local_read_value [OF less(2) nd 2])
      have "(arb_memory a, sc_last_read c) = ref_run (take (sc_pc c) (sc_script c)) m0"
        using less(2) by (simp add: cached_inv_def)
      then have "(arb_memory a, Some v) = ref_run (take (Suc (sc_pc c)) (sc_script c)) m0"
        by (simp add: ref_run_next [OF pc] ref_step_def 2 v flip: \<open>(arb_memory a, sc_last_read c) = _\<close>)
      then show ?thesis
        by (intro again [OF produce_local_read [OF nd 2]]) (use less(2) pc in \<open>simp_all add: cached_inv_def\<close>)
    qed
  qed
qed

text \<open>One bus operation, committed and answered.\<close>

lemma at_bus_op_produce:
  assumes "at_bus_op c" "\<not> sc_done c"
  shows "produce c = (case so_kind (sc_script c ! sc_pc c) of
     ScBarrier \<Rightarrow> issue c (bus_op_of (sc_cpu_id c) (sc_local_time c) (sc_sequence c) BusBarrier 0 0 0)
   | ScWrite \<Rightarrow> issue_write c (sc_script c ! sc_pc c) | _ \<Rightarrow> issue_read c (sc_script c ! sc_pc c))"
  using assms by (subst produce.simps) (auto simp: at_bus_op_def Let_def split: script_op_kind.splits)

lemma cached_not_mmio: "\<not> script_uncached ins \<Longrightarrow> \<not> is_mmio (to_phys (so_vaddr ins))"
  by (simp add: script_uncached_def)

lemma execute_read_line:
  assumes "accepted a op" "kind op = BusRead" "\<not> is_mmio (phys_addr op)" "fill_cache_line op"
    "cache_line_size op = of_nat l" "0 < l" "l < 256"
  shows "fst (execute_commit a op tie) = \<lparr>rsp_value = mem_read (arb_memory a) (phys_addr op) (op_size op),
      rsp_stall = commit_finish a op tie - req_time op, start_time = bus_start a op,
      commit_time = commit_finish a op tie, line_base = phys_addr op div of_nat l,
      line_data = read_block (arb_memory a) (phys_addr op div of_nat l * of_nat l) l\<rparr>"
proof -
  have l: "(ucast (of_nat l :: u8) :: u32) = of_nat l" "unat (of_nat l :: u32) = l" "(of_nat l :: u8) \<noteq> 0"
    "(of_nat l :: u8) > 0"
  proof -
    have u: "unat (of_nat l :: u8) = l" using assms(7) by (simp add: unat_of_nat take_bit_nat_eq_self)
    then show nz: "(of_nat l :: u8) \<noteq> 0" using assms(6) by auto
    then show "(of_nat l :: u8) > 0" by (simp add: word_gt_0)
    show "unat (of_nat l :: u32) = l" using assms(7) by (simp add: unat_of_nat_u32)
    then show "(ucast (of_nat l :: u8) :: u32) = of_nat l"
      using u assms(7) by (simp add: word_unat_eq_iff unsigned_ucast_eq take_bit_nat_eq_self)
  qed
  show ?thesis
    using assms(2-5) l
    by (simp add: execute_accepted [OF assms(1)] Let_def split_def perform_access_def)
qed

lemma cached_at_bus:
  assumes "cached_inv m0 a c" "produce c = (Some p, c1)" "accepted a (pb_op p)" "execute_commit a (pb_op p) tie = (rsp, a1)"
  shows "\<not> sc_done c" "sc_pc c < length (sc_script c)"
    and "arb_memory a1 = (if ram_write_op (pb_op p)
      then mem_write (arb_memory a) (phys_addr (pb_op p)) (op_size (pb_op p)) (op_data (pb_op p)) else arb_memory a)"
    and "ref_run (take (Suc (sc_pc c)) (sc_script c)) m0 = ref_step (sc_script c ! sc_pc c) (arb_memory a, sc_last_read c)"
    and "entries (sc_store_buffer c) = []" "line_size (sc_cache c) < 256"
    and "cached_script (line_size (sc_cache c)) (mem_size (arb_memory a)) (sc_script c)"
proof -
  show nd: "\<not> sc_done c" using assms(2) by (subst (asm) produce.simps) (auto split: if_splits)
  then show pc: "sc_pc c < length (sc_script c)" by (simp add: sc_done_def)
  show "arb_memory a1 = (if ram_write_op (pb_op p)
      then mem_write (arb_memory a) (phys_addr (pb_op p)) (op_size (pb_op p)) (op_data (pb_op p)) else arb_memory a)"
    using execute_memory [of a "pb_op p" tie] assms(3,4) by simp
  have "ref_run (take (sc_pc c) (sc_script c)) m0 = (arb_memory a, sc_last_read c)"
    using assms(1) by (simp add: cached_inv_def)
  then show "ref_run (take (Suc (sc_pc c)) (sc_script c)) m0 = ref_step (sc_script c ! sc_pc c) (arb_memory a, sc_last_read c)"
    using ref_run_next [OF pc, of m0] by simp
qed (use assms(1) in \<open>simp_all add: cached_inv_def\<close>)

lemma cached_round_write:
  assumes inv: "cached_inv m0 a c" and at: "at_bus_op c" and p: "produce c = (Some p, c1)" and acc: "accepted a (pb_op p)"
    and e: "execute_commit a (pb_op p) tie = (rsp, a1)"
    and r: "sc_apply_response c1 (pb_script_index p) rsp (producer_token (pb_op p)) tr = (c2, tr2)"
    and k: "so_kind (sc_script c ! sc_pc c) = ScWrite"
  shows "cached_inv m0 a1 c2 \<and> sc_pc c < sc_pc c2 \<and> tr2 = tr"
proof -
  let ?ins = "sc_script c ! sc_pc c"
  note parts = cached_at_bus [OF inv p acc e]
  note nd = parts(1) and pc = parts(2) and m = parts(3)
  note ci = cached_ins [OF inv nd disjI2 [OF k]]
  have nm: "\<not> is_mmio (to_phys (so_vaddr ?ins))" by (rule cached_not_mmio [OF ci(1)])
  have pw: "issue_write c ?ins = (Some p, c1)"
    using p at_bus_op_produce [OF at nd] k by simp
  then have op: "ram_write_op (pb_op p)" "phys_addr (pb_op p) = to_phys (so_vaddr ?ins)"
      "op_size (pb_op p) = so_size ?ins" "op_data (pb_op p) = so_value ?ins" "pb_script_index p = sc_pc c"
      "producer_token (pb_op p) = sc_next_store_id c"
    using nm by (auto simp: issue_write_def issue_def Let_def ram_write_op_def bus_op_of_def)
  have c1: "sc_script c1 = sc_script c" "sc_pc c1 = sc_pc c + 1" "sc_last_read c1 = sc_last_read c"
      "sc_cache c1 = cache_write (sc_cache c) (to_phys (so_vaddr ?ins)) (so_size ?ins) (so_value ?ins)"
      "sc_store_buffer c1 = sb_push (sc_store_buffer c) \<lparr>store_id = sc_next_store_id c,
         se_phys = to_phys (so_vaddr ?ins), se_size = so_size ?ins, se_value = so_value ?ins\<rparr>"
    using pw ci(1) by (auto simp: issue_write_def issue_def Let_def)
  have "snd (sb_retire (sc_store_buffer c1) (sc_next_store_id c)) = sc_store_buffer c"
    using sb_retire_push [of "\<lparr>store_id = sc_next_store_id c, se_phys = to_phys (so_vaddr ?ins),
        se_size = so_size ?ins, se_value = so_value ?ins\<rparr>" "sc_store_buffer c"] inv
    by (simp add: c1 cached_inv_def)
  then have c2: "c2 = c1\<lparr>sc_local_time := sc_local_time c1 + rsp_stall rsp, sc_store_buffer := sc_store_buffer c\<rparr>"
      "tr2 = tr"
    using r k by (auto simp: sc_apply_response_def Let_def op c1)
  have "coherent (sc_cache c1) (arb_memory a1)"
    using inv ci(3,4) by (simp add: m op c1 cached_inv_def coherent_write)
  then show ?thesis
    using parts(2,4-7) k by (simp add: c2 c1 cached_inv_def m op ref_step_def)
qed

lemma cached_round_read:
  assumes inv: "cached_inv m0 a c" and at: "at_bus_op c" and p: "produce c = (Some p, c1)" and acc: "accepted a (pb_op p)"
    and e: "execute_commit a (pb_op p) tie = (rsp, a1)"
    and r: "sc_apply_response c1 (pb_script_index p) rsp (producer_token (pb_op p)) tr = (c2, tr2)"
    and k: "so_kind (sc_script c ! sc_pc c) = ScRead"
  shows "cached_inv m0 a1 c2 \<and> sc_pc c < sc_pc c2 \<and> tr2 = tr"
proof -
  let ?ins = "sc_script c ! sc_pc c"
  note parts = cached_at_bus [OF inv p acc e]
  note nd = parts(1) and pc = parts(2) and m = parts(3)
  let ?phys = "to_phys (so_vaddr ?ins)" and ?l = "line_size (sc_cache c)"
  note ci = cached_ins [OF inv nd disjI1 [OF k]]
  have nm: "\<not> is_mmio ?phys" by (rule cached_not_mmio [OF ci(1)])
  have l: "0 < ?l" "?l < 256" "cache_wf (sc_cache c)"
    using inv by (simp_all add: cached_inv_def coherent_def cache_wf_def)
  have pr: "issue_read c ?ins = (Some p, c1)"
    using p at_bus_op_produce [OF at nd] k by simp
  then have op: "kind (pb_op p) = BusRead" "phys_addr (pb_op p) = ?phys" "op_size (pb_op p) = so_size ?ins"
      "fill_cache_line (pb_op p)" "cache_line_size (pb_op p) = of_nat ?l" "pb_script_index p = sc_pc c"
    using nm ci(1) by (auto simp: issue_read_def issue_def Let_def bus_op_of_def)
  have c1: "sc_script c1 = sc_script c" "sc_pc c1 = sc_pc c + 1" "sc_store_buffer c1 = sc_store_buffer c"
      "sc_cache c1 = sc_cache c"
    using pr by (auto simp: issue_read_def issue_def Let_def)
  have a1: "arb_memory a1 = arb_memory a" using m op(1) by (simp add: ram_write_op_def)
  have rsp: "rsp_value rsp = mem_read (arb_memory a) ?phys (so_size ?ins)"
      "line_base rsp = cache_line_base (sc_cache c) ?phys"
      "line_data rsp = read_block (arb_memory a) (cache_line_base (sc_cache c) ?phys * of_nat ?l) ?l"
    using execute_read_line [OF acc op(1) _ op(4,5) l(1,2), of tie] nm e
    by (simp_all add: op cache_line_base_def)
  have "line_data rsp \<noteq> []" using l(1) rsp(3) by (metis length_read_block length_greater_0_conv)
  then have c2: "c2 = c1\<lparr>sc_local_time := sc_local_time c1 + rsp_stall rsp, sc_last_read := Some (rsp_value rsp),
        sc_cache := fill_line (sc_cache c1) (line_base rsp) (line_data rsp)\<rparr>" "tr2 = tr"
    using r k ci(1) by (auto simp: sc_apply_response_def Let_def op c1 rsp cache_line_base_def)
  have "coherent (sc_cache c2) (arb_memory a1)"
    unfolding c2 a1 using inv by (simp add: c1 rsp cached_inv_def coherent_fill)
  then show ?thesis
    using parts(2,4-7) k by (simp add: c2 c1 a1 cached_inv_def rsp ref_step_def)
qed

lemma cached_round:
  assumes inv: "cached_inv m0 a c" and p: "produce c = (Some p, c1)" and acc: "accepted a (pb_op p)"
    and e: "execute_commit a (pb_op p) tie = (rsp, a1)"
    and r: "sc_apply_response c1 (pb_script_index p) rsp (producer_token (pb_op p)) tr = (c2, tr2)"
  shows "cached_inv m0 a1 c2 \<and> sc_pc c < sc_pc c2 \<and> tr2 = tr"
proof -
  obtain c' where c': "cached_inv m0 a c'" "at_bus_op c'" "produce c' = (Some p, c1)" "sc_pc c \<le> sc_pc c'"
    using produce_local_phase [OF inv] p by auto
  note parts = cached_at_bus [OF c'(1,3) acc e] and here = c'(1,2,3) acc e r
  have "cached_inv m0 a1 c2 \<and> sc_pc c' < sc_pc c2 \<and> tr2 = tr"
  proof (cases "so_kind (sc_script c' ! sc_pc c')")
    case ScBarrier
    then have "p = \<lparr>pb_op = bus_op_of (sc_cpu_id c') (sc_local_time c') (sc_sequence c') BusBarrier 0 0 0,
        pb_script_index = sc_pc c'\<rparr>" "c1 = c'\<lparr>sc_sequence := sc_sequence c' + 1, sc_pc := sc_pc c' + 1\<rparr>"
      using c'(3) at_bus_op_produce [OF c'(2) parts(1)] by (simp_all add: issue_def)
    then show ?thesis
      using r c'(1) parts(2,3,4) ScBarrier
      by (auto simp: sc_apply_response_def ram_write_op_def bus_op_of_def cached_inv_def ref_step_def)
  next
    case ScCompute
    then show ?thesis using c'(2) parts(1) by (simp add: at_bus_op_def)
  qed (rule cached_round_write [OF here] cached_round_read [OF here], assumption)+
  then show ?thesis using c'(4) by simp
qed

text \<open>When nothing is left to ask for, the script has run.\<close>

lemma produce_ends:
  assumes "cached_inv m0 a c" "produce c = (None, d)"
  shows "cached_inv m0 a d" "sc_done d"
proof -
  obtain c' where c': "cached_inv m0 a c'" "at_bus_op c'" "produce c' = (None, d)"
    using produce_local_phase [OF assms(1)] assms(2) by auto
  have "sc_done c'"
  proof (rule ccontr)
    assume "\<not> sc_done c'"
    from c'(3) at_bus_op_produce [OF c'(2) this] show False
      by (auto simp: issue_def issue_write_def issue_read_def Let_def split: script_op_kind.splits if_splits)
  qed
  then have "d = c'" using c'(3) by (subst (asm) produce.simps) simp
  then show "cached_inv m0 a d" "sc_done d" using \<open>sc_done c'\<close> c'(1) by simp_all
qed

text \<open>What such a CPU asks for is never rejected for its form.\<close>

lemma ram_op_valid:
  assumes "kind op = BusRead \<or> kind op = BusWrite" "\<not> is_mmio (phys_addr op)" "valid_size (op_size op)"
  shows "validate_bus_op op = NoError"
proof -
  have "valid_bus_size (op_size op)" using assms(3) by (simp add: valid_bus_size_def valid_size_def)
  then show ?thesis using assms(1,2) by (auto simp: validate_bus_op_def)
qed

lemma produce_valid:
  assumes "cached_inv m0 a c" "produce c = (Some p, d)"
  shows "validate_bus_op (pb_op p) = NoError"
proof -
  obtain c' where c': "cached_inv m0 a c'" "at_bus_op c'" "produce c' = (Some p, d)"
    using produce_local_phase [OF assms(1)] assms(2) by auto
  have nd: "\<not> sc_done c'" using c'(3) by (subst (asm) produce.simps) (auto split: if_splits)
  let ?ins = "sc_script c' ! sc_pc c'"
  note produced = c'(3) [unfolded at_bus_op_produce [OF c'(2) nd]]
  show ?thesis
  proof (cases "so_kind (sc_script c' ! sc_pc c')")
    case ScRead
    note ci = cached_ins [OF c'(1) nd disjI1 [OF ScRead]]
    have nm: "\<not> is_mmio (to_phys (so_vaddr ?ins))" by (rule cached_not_mmio [OF ci(1)])
    have "issue_read c' ?ins = (Some p, d)" using produced ScRead by simp
    then have "kind (pb_op p) = BusRead" "phys_addr (pb_op p) = to_phys (so_vaddr ?ins)" "op_size (pb_op p) = so_size ?ins"
      using nm by (auto simp: issue_read_def issue_def Let_def bus_op_of_def)
    then show ?thesis using nm ci(2) by (intro ram_op_valid) simp_all
  next
    case ScWrite
    note ci = cached_ins [OF c'(1) nd disjI2 [OF ScWrite]]
    have nm: "\<not> is_mmio (to_phys (so_vaddr ?ins))" by (rule cached_not_mmio [OF ci(1)])
    have "issue_write c' ?ins = (Some p, d)" using produced ScWrite by simp
    then have "kind (pb_op p) = BusWrite" "phys_addr (pb_op p) = to_phys (so_vaddr ?ins)" "op_size (pb_op p) = so_size ?ins"
      using nm by (auto simp: issue_write_def issue_def Let_def bus_op_of_def)
    then show ?thesis using nm ci(2) by (intro ram_op_valid) simp_all
  next
    case ScCompute
    then show ?thesis using c'(2) nd by (simp add: at_bus_op_def)
  next
    case ScBarrier
    then show ?thesis using produced by (auto simp: issue_def bus_op_of_def validate_bus_op_def)
  qed
qed

section \<open>A rejected read\<close>

text \<open>
  A rejected read poisons the cache. A fault response carries no line, and the CPU then marks the
  whole line valid, filled with zeros around the fault value. Here the line of a rejected three-byte
  read at 16 later answers a word read at 20 with 0, although committed memory holds 0x11223344.
\<close>

theorem rejected_read_poisons_cache:
  "let a = new_bus_arbiter (mem_write (new_memory 64) 20 4 0x11223344) new_device_hub new_trace default_latency;
       rd = (\<lambda>p n. \<lparr>so_kind = ScRead, so_vaddr = p, so_size = n, so_value = 0, so_cycles = 0\<rparr>);
       (p, c1) = produce (new_scripted_cpu 0 [rd 16 3, rd 20 4] 16 4);
       rsp = fst (execute_commit a (pb_op (the p)) False);
       c2 = fst (sc_apply_response c1 (pb_script_index (the p)) rsp 0 None);
       (q, c3) = produce c2
   in rsp = inert_response 0 \<and> q = None \<and> sc_last_read c3 = Some 0 \<and> mem_read (arb_memory a) 20 4 = 0x11223344"
  by code_simp

end
