(* ===== verification/ScriptedPair.thy ===== *)
theory ScriptedPair
  imports ScriptedCpu
begin

text \<open>
  The scripted runs of \<open>src/src/core/emulator.cpp\<close>: \<open>run_scripted_pair\<close>, the scripts it is run on and
  the demo entry points. The loop has no bound in the source, so the run takes fuel: \<open>None\<close> means the
  loop is still going after that many iterations.
\<close>

section \<open>The loop\<close>

record pair_state =
  pr_cpu0 :: scripted_cpu
  pr_cpu1 :: scripted_cpu
  pr_p0 :: "pending_bus_op option"
  pr_p1 :: "pending_bus_op option"
  pr_arbiter :: bus_arbiter

text \<open>\<open>if (!p \<and> !cpu.done()) p = cpu.produce()\<close>\<close>

definition refill :: "pending_bus_op option \<Rightarrow> scripted_cpu \<Rightarrow> pending_bus_op option \<times> scripted_cpu" where
  "refill p c = (if p = None \<and> \<not> sc_done c then produce c else (p, c))"

definition watermark :: "pending_bus_op option \<Rightarrow> scripted_cpu \<Rightarrow> tick" where
  "watermark p c = (case p of Some q \<Rightarrow> req_time (pb_op q) + 1 | None \<Rightarrow> sc_local_time c)"

definition pending_list :: "pending_bus_op option \<Rightarrow> pending_bus_op option \<Rightarrow> (int \<times> pending_bus_op) list" where
  "pending_list p0 p1 = (case p0 of Some p \<Rightarrow> [(0, p)] | None \<Rightarrow> []) @ (case p1 of Some p \<Rightarrow> [(1, p)] | None \<Rightarrow> [])"

text \<open>The loop over \<open>committed\<close>: each response goes back to the CPU that asked, with the shared trace.\<close>

definition deliver :: "(int \<times> pending_bus_op) list \<Rightarrow> commit_result \<Rightarrow> pair_state \<Rightarrow> pair_state" where
  "deliver pending r s =
    (let (cpu, p) = pending ! input_index r;
         token = producer_token (pb_op p);
         trace = Some (arb_trace (pr_arbiter s))
     in if cpu = 0 then
          (let (c, tr) = sc_apply_response (pr_cpu0 s) (pb_script_index p) (response r) token trace
           in s\<lparr>pr_cpu0 := c, pr_p0 := None, pr_arbiter := (pr_arbiter s)\<lparr>arb_trace := the tr\<rparr>\<rparr>)
        else
          (let (c, tr) = sc_apply_response (pr_cpu1 s) (pb_script_index p) (response r) token trace
           in s\<lparr>pr_cpu1 := c, pr_p1 := None, pr_arbiter := (pr_arbiter s)\<lparr>arb_trace := the tr\<rparr>\<rparr>))"

text \<open>One iteration: whether the loop breaks, and the state after it.\<close>

definition pair_iteration :: "pair_state \<Rightarrow> bool \<times> pair_state" where
  "pair_iteration s =
    (let (p0, c0) = refill (pr_p0 s) (pr_cpu0 s);
         (p1, c1) = refill (pr_p1 s) (pr_cpu1 s);
         a = update_progress (update_progress (pr_arbiter s) 0 (watermark p0 c0)) 1 (watermark p1 c1);
         s1 = \<lparr>pr_cpu0 = c0, pr_cpu1 = c1, pr_p0 = p0, pr_p1 = p1, pr_arbiter = a\<rparr>
     in if p0 = None \<and> p1 = None \<and> sc_done c0 \<and> sc_done c1 then (True, s1)
        else let pending = pending_list p0 p1 in
          if pending = [] then (False, s1)
          else let (committed, a1) = commit_batch default_priority_of a (map (\<lambda>x. pb_op (snd x)) pending)
               in (False, fold (deliver pending) committed (s1\<lparr>pr_arbiter := a1\<rparr>)))"

fun run_scripted_pair :: "nat \<Rightarrow> pair_state \<Rightarrow> pair_state option" where
  "run_scripted_pair 0 s = None"
| "run_scripted_pair (Suc fuel) s =
    (let (finished, s1) = pair_iteration s in if finished then Some s1 else run_scripted_pair fuel s1)"

section \<open>The scripts\<close>

abbreviation write_op :: "u32 \<Rightarrow> u32 \<Rightarrow> script_op" where
  "write_op p v \<equiv> \<lparr>so_kind = ScWrite, so_vaddr = p, so_size = 4, so_value = v, so_cycles = 0\<rparr>"
abbreviation read_op :: "u32 \<Rightarrow> script_op" where
  "read_op p \<equiv> \<lparr>so_kind = ScRead, so_vaddr = p, so_size = 4, so_value = 0, so_cycles = 0\<rparr>"
abbreviation compute_op :: "u32 \<Rightarrow> script_op" where
  "compute_op n \<equiv> \<lparr>so_kind = ScCompute, so_vaddr = 0, so_size = 0, so_value = 0, so_cycles = n\<rparr>"
abbreviation barrier_op :: script_op where
  "barrier_op \<equiv> \<lparr>so_kind = ScBarrier, so_vaddr = 0, so_size = 0, so_value = 0, so_cycles = 0\<rparr>"

definition contention_stress_scripts :: "script_op list \<times> script_op list" where
  "contention_stress_scripts =
    (let ram = (\<lambda>i :: nat. 0x00002000 + of_nat (i mod 4 * 4));
         mmio = (\<lambda>i :: nat. 0x05FE00AC + of_nat (i mod 2 * 4))
     in (concat (map (\<lambda>i. [write_op (ram i) (0x10000000 + of_nat i), read_op (ram i),
             write_op (mmio i) (push_bit (i mod 8) 1), barrier_op]) [0..<32]),
         concat (map (\<lambda>i. [read_op (ram i), write_op (ram i) (0x20000000 + of_nat i),
             read_op (mmio i), barrier_op]) [0..<32])))"

definition vdp1_source_event_stress_scripts :: "script_op list \<times> script_op list" where
  "vdp1_source_event_stress_scripts =
    (concat (map (\<lambda>cmd. [write_op 0x05D00098 (of_nat cmd), write_op 0x05D000A0 1, read_op 0x05D00094]) [1..<7]),
     concat (map (\<lambda>cmd. [read_op 0x05FE00A4, write_op 0x05FE00A8 0x20, read_op 0x05D0009C]) [1..<7]))"

definition vdp1_source_event_stress_scripts_cpu1_owner :: "script_op list \<times> script_op list" where
  "vdp1_source_event_stress_scripts_cpu1_owner =
    (concat (map (\<lambda>cmd. [read_op 0x05FE00A4, write_op 0x05FE00A8 0x20, read_op 0x05D0009C]) [1..<7]),
     concat (map (\<lambda>cmd. [write_op 0x05D00098 (of_nat cmd), write_op 0x05D000A0 1, read_op 0x05D00094]) [1..<7]))"

definition dual_demo_scripts :: "script_op list \<times> script_op list" where
  "dual_demo_scripts =
    ([write_op 0x00001000 0xDEADBEEF, compute_op 3, write_op 0x20001000 0xC0FFEE11, write_op 0x05F00020 0x1234],
     [read_op 0x00001000, compute_op 2, read_op 0x20001000, read_op 0x05F00010])"

definition start_pair :: "script_op list \<times> script_op list \<Rightarrow> pair_state" where
  "start_pair scripts = \<lparr>pr_cpu0 = new_scripted_cpu 0 (fst scripts) 16 64,
     pr_cpu1 = new_scripted_cpu 1 (snd scripts) 16 64, pr_p0 = None, pr_p1 = None,
     pr_arbiter = new_bus_arbiter (new_memory default_memory_size) new_device_hub new_trace default_latency\<rparr>"

definition run_pair_trace :: "script_op list \<times> script_op list \<Rightarrow> nat \<Rightarrow> string option" where
  "run_pair_trace scripts fuel =
     map_option (\<lambda>s. write_jsonl (arb_trace (pr_arbiter s))) (run_scripted_pair fuel (start_pair scripts))"

definition run_dual_demo_trace :: "nat \<Rightarrow> string option" where
  "run_dual_demo_trace = run_pair_trace dual_demo_scripts"

definition run_contention_stress_trace :: "nat \<Rightarrow> string option" where
  "run_contention_stress_trace = run_pair_trace contention_stress_scripts"

definition run_vdp1_source_event_stress_trace :: "nat \<Rightarrow> string option" where
  "run_vdp1_source_event_stress_trace = run_pair_trace vdp1_source_event_stress_scripts"

definition run_vdp1_source_event_stress_trace_cpu1_owner :: "nat \<Rightarrow> string option" where
  "run_vdp1_source_event_stress_trace_cpu1_owner = run_pair_trace vdp1_source_event_stress_scripts_cpu1_owner"

section \<open>The commits leave the progress alone\<close>

lemma commit_batch_progress:
  "progress_tracking_enabled (snd (commit_batch policy a ops)) = progress_tracking_enabled a \<and>
   progress_up_to (snd (commit_batch policy a ops)) = progress_up_to a"
proof -
  let ?a = "snd (enqueue_loop (fresh_enqueue a) 0 ops)"
  have "commit_frame ?a (snd (commit_batch policy a ops))"
    unfolding commit_batch_split using batch_subset by blast
  moreover have "progress_tracking_enabled ?a = progress_tracking_enabled a \<and> progress_up_to ?a = progress_up_to a"
    using enqueue_frame [of "fresh_enqueue a" 0 ops] by (simp add: prod_eq_iff)
  ultimately show ?thesis by (simp add: commit_frame_def)
qed

lemma commit_batch_none_ready:
  assumes "\<forall>op \<in> set ops. \<not> ready a op"
  shows "fst (commit_batch policy a ops) = []"
proof (rule ccontr)
  assume "fst (commit_batch policy a ops) \<noteq> []"
  then obtain r where r: "r \<in> set (fst (commit_batch policy a ops))" by (metis last_in_set)
  from batch_results(2) [OF refl this] assms show False by (metis nth_mem)
qed

section \<open>The announced progress\<close>

lemma update_progress_0:
  "progress_up_to (update_progress (update_progress a 0 t) 1 u) 0 =
     (if progress_up_to a 0 = tick_max \<or> t > progress_up_to a 0 then t else progress_up_to a 0)"
  "progress_tracking_enabled (update_progress (update_progress a 0 t) 1 u)"
  by (simp_all add: update_progress_def Let_def is_cpu_def)

section \<open>The pending operation and the store buffer\<close>

text \<open>The store buffer holds exactly the store of the pending operation, if that is a write.\<close>

definition buffer_matches :: "pending_bus_op option \<Rightarrow> scripted_cpu \<Rightarrow> bool" where
  "buffer_matches p c \<longleftrightarrow>
     (case p of None \<Rightarrow> entries (sc_store_buffer c) = []
      | Some q \<Rightarrow> pb_script_index q < length (sc_script c) \<and>
          (if so_kind (sc_script c ! pb_script_index q) = ScWrite
           then map store_id (entries (sc_store_buffer c)) = [producer_token (pb_op q)]
           else entries (sc_store_buffer c) = []))"

lemma produce_buffer:
  assumes "entries (sc_store_buffer c) = []"
  shows "buffer_matches (fst (produce c)) (snd (produce c)) \<and> sc_script (snd (produce c)) = sc_script c"
  using assms
proof (induction "length (sc_script c) - sc_pc c" arbitrary: c rule: less_induct)
  case less
  let ?ins = "sc_script c ! sc_pc c"
  show ?case
  proof (cases "sc_done c")
    case True
    then show ?thesis using less(2) by (subst (1 2 3) produce.simps) (simp add: buffer_matches_def)
  next
    case False
    then have pc: "sc_pc c < length (sc_script c)" by (simp add: sc_done_def)
    show ?thesis
    proof (cases "so_kind ?ins = ScCompute \<or> (so_kind ?ins = ScRead \<and> local_read c ?ins \<noteq> None)")
      case True
      then obtain c' where c': "produce c = produce c'" "sc_script c' = sc_script c" "sc_pc c' = sc_pc c + 1"
          "entries (sc_store_buffer c') = []"
        using produce_compute [OF False] produce_local_read [OF False] less(2) by fastforce
      then have "length (sc_script c') - sc_pc c' < length (sc_script c) - sc_pc c" using pc by simp
      from less(1) [OF this c'(4)] show ?thesis by (simp add: c')
    next
      case nl: False
      then have "at_bus_op c" by (auto simp: at_bus_op_def)
      note pr = at_bus_op_produce [OF this False]
      show ?thesis
        using nl pc less(2) unfolding pr
        by (cases "so_kind ?ins")
           (auto simp: buffer_matches_def issue_def issue_write_def issue_read_def Let_def sb_push_def bus_op_of_def)
    qed
  qed
qed

lemma apply_buffer:
  assumes "buffer_matches (Some q) c"
  shows "buffer_matches None (fst (sc_apply_response c (pb_script_index q) rsp (producer_token (pb_op q)) tr))"
    and "sc_script (fst (sc_apply_response c (pb_script_index q) rsp (producer_token (pb_op q)) tr)) = sc_script c"
  using assms
  by (auto simp: buffer_matches_def sc_apply_response_def Let_def sb_retire_def split: if_splits)

definition pair_ok :: "pair_state \<Rightarrow> bool" where
  "pair_ok s \<longleftrightarrow> buffer_matches (pr_p0 s) (pr_cpu0 s) \<and> buffer_matches (pr_p1 s) (pr_cpu1 s)"

definition same_scripts :: "pair_state \<Rightarrow> pair_state \<Rightarrow> bool" where
  "same_scripts s s' \<longleftrightarrow> sc_script (pr_cpu0 s') = sc_script (pr_cpu0 s) \<and> sc_script (pr_cpu1 s') = sc_script (pr_cpu1 s)"

definition answers :: "(int \<times> pending_bus_op) list \<Rightarrow> commit_result \<Rightarrow> pair_state \<Rightarrow> bool" where
  "answers pending r s \<longleftrightarrow> input_index r < length pending \<and>
     (if fst (pending ! input_index r) = 0 then pr_p0 s else pr_p1 s) = Some (snd (pending ! input_index r))"

lemma deliver_ok:
  assumes "pair_ok s" "answers pending r s"
  shows "pair_ok (deliver pending r s) \<and> same_scripts s (deliver pending r s) \<and>
    (if fst (pending ! input_index r) = 0 then pr_p1 (deliver pending r s) = pr_p1 s
     else pr_p0 (deliver pending r s) = pr_p0 s)"
proof -
  obtain cpu q where p: "pending ! input_index r = (cpu, q)" by fastforce
  show ?thesis
  proof (cases "cpu = 0")
    case True
    then have "buffer_matches (Some q) (pr_cpu0 s)" using assms p by (simp add: pair_ok_def answers_def)
    from apply_buffer [OF this, of "response r" "Some (arb_trace (pr_arbiter s))"] show ?thesis
      using assms(1) p True by (simp add: deliver_def pair_ok_def same_scripts_def Let_def split_def)
  next
    case False
    then have "buffer_matches (Some q) (pr_cpu1 s)" using assms p by (simp add: pair_ok_def answers_def)
    from apply_buffer [OF this, of "response r" "Some (arb_trace (pr_arbiter s))"] show ?thesis
      using assms(1) p False by (simp add: deliver_def pair_ok_def same_scripts_def Let_def split_def)
  qed
qed

lemma deliver_all:
  assumes "pair_ok s" "distinct (map input_index rs)" "\<forall>r \<in> set rs. answers pending r s"
    "distinct (map fst pending)" "set (map fst pending) \<subseteq> {0, 1}"
  shows "pair_ok (fold (deliver pending) rs s) \<and> same_scripts s (fold (deliver pending) rs s)"
  using assms
proof (induction rs arbitrary: s)
  case (Cons r rs)
  let ?s = "deliver pending r s"
  have d: "pair_ok ?s \<and> same_scripts s ?s \<and>
    (if fst (pending ! input_index r) = 0 then pr_p1 ?s = pr_p1 s else pr_p0 ?s = pr_p0 s)"
    using Cons.prems by (intro deliver_ok) auto
  have "answers pending x ?s" if x: "x \<in> set rs" for x
  proof -
    have i: "input_index x < length pending" "input_index r < length pending" "input_index x \<noteq> input_index r"
      using x Cons.prems(2,3) by (auto simp: answers_def image_iff)
    then have "fst (pending ! input_index x) \<noteq> fst (pending ! input_index r)"
      using Cons.prems(4) by (auto simp: distinct_conv_nth)
    moreover have "fst (pending ! input_index x) \<in> {0, 1}" "fst (pending ! input_index r) \<in> {0, 1}"
      using Cons.prems(5) nth_mem [of _ "map fst pending"] i(1,2) by (metis length_map nth_map subsetD)+
    ultimately consider "fst (pending ! input_index x) = 0" "fst (pending ! input_index r) \<noteq> 0"
      | "fst (pending ! input_index x) \<noteq> 0" "fst (pending ! input_index r) = 0" by fastforce
    moreover have "answers pending x s" using x Cons.prems(3) by simp
    ultimately show ?thesis using d by cases (simp_all add: answers_def)
  qed
  then have "pair_ok (fold (deliver pending) rs ?s) \<and> same_scripts ?s (fold (deliver pending) rs ?s)"
    using d Cons.prems by (intro Cons.IH) auto
  then show ?case using d by (simp add: same_scripts_def)
qed (simp add: same_scripts_def)

lemma refill_ok:
  assumes "buffer_matches p c" "refill p c = (p', c')"
  shows "buffer_matches p' c' \<and> sc_script c' = sc_script c"
proof (cases "p = None \<and> \<not> sc_done c")
  case True
  then have "produce c = (p', c')" "entries (sc_store_buffer c) = []"
    using assms by (simp_all add: refill_def buffer_matches_def)
  then show ?thesis using produce_buffer [of c] by simp
next
  case False
  then have "p' = p" "c' = c" using assms(2) by (auto simp: refill_def)
  then show ?thesis using assms(1) by simp
qed

lemma pending_list_answers:
  assumes "i < length (pending_list p0 p1)"
  shows "(if fst (pending_list p0 p1 ! i) = 0 then p0 else p1) = Some (snd (pending_list p0 p1 ! i))"
  using assms by (cases p0; cases p1; cases i) (auto simp: pending_list_def)

lemma iteration_ok:
  assumes "pair_ok s" "pair_iteration s = (fin, s')"
  shows "pair_ok s' \<and> same_scripts s s' \<and>
    (fin \<longrightarrow> pr_p0 s' = None \<and> pr_p1 s' = None \<and> sc_done (pr_cpu0 s') \<and> sc_done (pr_cpu1 s'))"
proof -
  obtain p0 c0 p1 c1 where r: "refill (pr_p0 s) (pr_cpu0 s) = (p0, c0)" "refill (pr_p1 s) (pr_cpu1 s) = (p1, c1)"
    by fastforce
  have b: "buffer_matches p0 c0" "sc_script c0 = sc_script (pr_cpu0 s)"
      "buffer_matches p1 c1" "sc_script c1 = sc_script (pr_cpu1 s)"
    using refill_ok [OF _ r(1)] refill_ok [OF _ r(2)] assms(1) by (auto simp: pair_ok_def)
  define a where "a = update_progress (update_progress (pr_arbiter s) 0 (watermark p0 c0)) 1 (watermark p1 c1)"
  define s1 where "s1 = \<lparr>pr_cpu0 = c0, pr_cpu1 = c1, pr_p0 = p0, pr_p1 = p1, pr_arbiter = a\<rparr>"
  define pending where "pending = pending_list p0 p1"
  define res where "res = commit_batch default_priority_of a (map (\<lambda>x. pb_op (snd x)) pending)"
  let ?s2 = "s1\<lparr>pr_arbiter := snd res\<rparr>"
  have ok1: "pair_ok s1" "same_scripts s s1" using b by (simp_all add: s1_def pair_ok_def same_scripts_def)
  have "\<forall>x \<in> set (fst res). answers pending x ?s2"
  proof
    fix x assume "x \<in> set (fst res)"
    then have "input_index x < length pending" using batch_results(2) [OF res_def [THEN arg_cong [of _ _ fst]]] by auto
    then show "answers pending x ?s2"
      using pending_list_answers [of "input_index x" p0 p1] by (simp add: answers_def s1_def pending_def split: if_splits)
  qed
  moreover have "distinct (map input_index (fst res))" unfolding res_def by (rule batch_results(1)) (rule refl)
  moreover have "distinct (map fst pending)" "set (map fst pending) \<subseteq> {0, 1}"
    by (cases p0; cases p1; simp add: pending_def pending_list_def)+
  moreover have "pair_ok ?s2" using ok1(1) by (simp add: pair_ok_def)
  ultimately have f: "pair_ok (fold (deliver pending) (fst res) ?s2)"
      "same_scripts ?s2 (fold (deliver pending) (fst res) ?s2)"
    by (simp_all add: deliver_all)
  have "pair_iteration s = (if p0 = None \<and> p1 = None \<and> sc_done c0 \<and> sc_done c1 then (True, s1)
      else if pending = [] then (False, s1) else (False, fold (deliver pending) (fst res) ?s2))"
    by (simp add: pair_iteration_def r Let_def split_def a_def s1_def pending_def res_def)
  then show ?thesis
    using assms(2) f ok1 by (auto simp: s1_def same_scripts_def split: if_splits)
qed

lemma run_ok:
  assumes "pair_ok s" "run_scripted_pair fuel s = Some s'"
  shows "pair_ok s' \<and> same_scripts s s' \<and>
    pr_p0 s' = None \<and> pr_p1 s' = None \<and> sc_done (pr_cpu0 s') \<and> sc_done (pr_cpu1 s')"
  using assms
proof (induction fuel arbitrary: s)
  case (Suc fuel)
  obtain fin s1 where it: "pair_iteration s = (fin, s1)" by fastforce
  note i = iteration_ok [OF Suc.prems(1) it]
  show ?case
  proof (cases fin)
    case True
    then show ?thesis using Suc.prems(2) it i by simp
  next
    case False
    then have "run_scripted_pair fuel s1 = Some s'" using Suc.prems(2) it by simp
    from Suc.IH [OF _ this] i show ?thesis by (simp add: same_scripts_def)
  qed
qed simp

section \<open>Properties\<close>

text \<open>
  (C15) A scripted run that ends has drained. Whatever the two scripts, when the loop breaks both CPUs
  have run their whole script, no bus operation is pending and both store buffers are empty: every
  store was retired by its own response.
\<close>

theorem finished_run_has_drained:
  assumes "run_scripted_pair fuel (start_pair scripts) = Some s"
  shows "sc_script (pr_cpu0 s) = fst scripts \<and> sc_script (pr_cpu1 s) = snd scripts \<and>
    sc_done (pr_cpu0 s) \<and> sc_done (pr_cpu1 s) \<and> pr_p0 s = None \<and> pr_p1 s = None \<and>
    store_buffer_size (pr_cpu0 s) = 0 \<and> store_buffer_size (pr_cpu1 s) = 0"
proof -
  have "pair_ok (start_pair scripts)"
    by (simp add: pair_ok_def start_pair_def buffer_matches_def new_scripted_cpu_def empty_store_buffer_def)
  from run_ok [OF this assms] show ?thesis
    by (auto simp: same_scripts_def start_pair_def new_scripted_cpu_def pair_ok_def buffer_matches_def
        store_buffer_size_def sb_size_def)
qed

lemma deliver_clears:
  "pr_p0 (deliver pending r s) = (if fst (pending ! input_index r) = 0 then None else pr_p0 s)"
  "pr_p1 (deliver pending r s) = (if fst (pending ! input_index r) = 0 then pr_p1 s else None)"
  by (simp_all add: deliver_def Let_def split_def)

lemma fold_deliver_clears:
  "(pr_p0 s = None \<longrightarrow> pr_p0 (fold (deliver pending) rs s) = None) \<and>
   (pr_p1 s = None \<longrightarrow> pr_p1 (fold (deliver pending) rs s) = None)"
  by (induction rs arbitrary: s) (simp_all add: deliver_clears)

lemma fold_deliver_some:
  assumes "rs \<noteq> []"
  shows "pr_p0 (fold (deliver pending) rs s) = None \<or> pr_p1 (fold (deliver pending) rs s) = None"
proof (cases rs)
  case (Cons r rs')
  then show ?thesis
    using fold_deliver_clears [of "deliver pending r s" pending rs'] by (auto simp: deliver_clears split: if_splits)
qed (use assms in simp)

lemma tick_suc:
  fixes t :: tick
  assumes "t < 0xFFFFFFFFFFFFFFFE"
  shows "t < t + 1" and "t + 1 \<noteq> tick_max"
proof -
  have u: "unat t < 18446744073709551614" using assms by (simp add: word_less_nat_alt)
  then have n: "unat (t + 1) = unat t + 1" by (simp add: unat_word_ariths)
  then show "t < t + 1" by (simp add: word_less_nat_alt)
  show "t + 1 \<noteq> tick_max"
  proof
    assume "t + 1 = tick_max"
    then have "unat (t + 1) = unat tick_max" by (rule arg_cong)
    then show False using n u by simp
  qed
qed

lemma watermark_published:
  fixes a :: bus_arbiter and t u :: tick
  assumes "t \<noteq> tick_max" "u \<noteq> tick_max"
  defines "b \<equiv> update_progress (update_progress a 0 t) 1 u"
  shows "has_safe_horizon b" and "min t u \<le> commit_horizon b"
  using assms(1,2)
  by (auto simp: b_def progress_simps commit_horizon_def update_progress_def Let_def is_cpu_def min_def)

text \<open>Of two pending operations published with their watermarks, the earlier one is below the horizon.\<close>

lemma pair_commits:
  assumes "producer_slot x \<noteq> producer_slot y"
    and "req_time x < 0xFFFFFFFFFFFFFFFE" "req_time y < 0xFFFFFFFFFFFFFFFE"
    and "\<not> should_halt (arb_trace a)" "\<not> halt_on_fault (arb_trace a)"
  shows "fst (commit_batch policy (update_progress (update_progress a 0 (req_time x + 1)) 1 (req_time y + 1)) [x, y]) \<noteq> []"
proof -
  let ?t = "req_time x" and ?u = "req_time y"
  let ?a = "update_progress (update_progress a 0 (?t + 1)) 1 (?u + 1)"
  have tr: "arb_trace ?a = arb_trace a" by (simp add: update_progress_def Let_def)
  have lt: "?t < ?t + 1" "?u < ?u + 1" "?t + 1 \<noteq> tick_max" "?u + 1 \<noteq> tick_max"
    using tick_suc assms(2,3) by simp_all
  have "min ?t ?u < min (?t + 1) (?u + 1)" using lt(1,2) by (auto simp: min_def)
  then have h: "min ?t ?u < commit_horizon ?a"
    by (rule order_less_le_trans) (rule watermark_published(2) [OF lt(3,4)])
  have safe: "has_safe_horizon ?a" by (rule watermark_published(1) [OF lt(3,4)])
  have "slot_monotone [x, y]" using assms(1) by (simp add: slot_monotone_def)
  from batch_ready_indices [OF _ _ this, of ?a policy] assms(4,5)
  have "input_index ` set (fst (commit_batch policy ?a [x, y])) =
      {i. i < 2 \<and> (progress_tracking_enabled ?a \<longrightarrow> has_safe_horizon ?a \<and> req_time ([x, y] ! i) < commit_horizon ?a)}"
    by (simp add: tr numeral_2_eq_2)
  moreover have "0 \<in> \<dots> \<or> 1 \<in> \<dots>" using h safe by (auto simp: min_def split: if_splits)
  ultimately have "input_index ` set (fst (commit_batch policy ?a [x, y])) \<noteq> {}"
    by (metis empty_iff)
  then show ?thesis by auto
qed

text \<open>
  Progress. While both CPUs have a bus operation pending, an iteration never stalls: the earlier of
  the two requests lies below the commit horizon, so at least one operation is committed and its CPU
  freed, provided faults do not halt the run and the watermarks do not reach the counter's end.
\<close>

theorem both_pending_makes_progress:
  assumes "pr_p0 s = Some p" "pr_p1 s = Some q" "pair_iteration s = (fin, s')"
    and "producer_slot (pb_op p) \<noteq> producer_slot (pb_op q)"
    and "req_time (pb_op p) < 0xFFFFFFFFFFFFFFFE" "req_time (pb_op q) < 0xFFFFFFFFFFFFFFFE"
    and "\<not> should_halt (arb_trace (pr_arbiter s))" "\<not> halt_on_fault (arb_trace (pr_arbiter s))"
  shows "\<not> fin \<and> (pr_p0 s' = None \<or> pr_p1 s' = None)"
proof -
  let ?t = "req_time (pb_op p)" and ?u = "req_time (pb_op q)"
  let ?a = "update_progress (update_progress (pr_arbiter s) 0 (?t + 1)) 1 (?u + 1)"
  let ?ops = "[pb_op p, pb_op q]"
  have ne: "fst (commit_batch default_priority_of ?a ?ops) \<noteq> []" using assms(4-8) by (rule pair_commits)
  define res where "res = commit_batch default_priority_of ?a ?ops"
  have "pair_iteration s = (False, fold (deliver [(0, p), (1, q)]) (fst res)
      \<lparr>pr_cpu0 = pr_cpu0 s, pr_cpu1 = pr_cpu1 s, pr_p0 = Some p, pr_p1 = Some q, pr_arbiter = snd res\<rparr>)"
    using assms(1,2)
    by (simp add: pair_iteration_def refill_def Let_def watermark_def pending_list_def split_def res_def)
  then show ?thesis
    using assms(3) fold_deliver_some [of "fst res"] ne by (simp add: res_def)
qed

lemma both_pending_makes_progress_witness:
  "let s = (start_pair ([], []))\<lparr>pr_p0 := Some \<lparr>pb_op = bus_op_of 0 4 0 BusRead 16 4 0, pb_script_index = 0\<rparr>,
        pr_p1 := Some \<lparr>pb_op = bus_op_of 1 9 0 BusRead 16 4 0, pb_script_index = 0\<rparr>\<rparr>
   in pr_p0 (snd (pair_iteration s)) = None \<or> pr_p1 (snd (pair_iteration s)) = None"
  unfolding Let_def
  using both_pending_makes_progress [OF _ _ prod.collapse [symmetric],
      of "(start_pair ([], []))\<lparr>pr_p0 := Some \<lparr>pb_op = bus_op_of 0 4 0 BusRead 16 4 0, pb_script_index = 0\<rparr>,
        pr_p1 := Some \<lparr>pb_op = bus_op_of 1 9 0 BusRead 16 4 0, pb_script_index = 0\<rparr>\<rparr>"]
  by (simp add: start_pair_def producer_slot_def bus_op_of_def new_bus_arbiter_def new_trace_def)

lemma finished_run_has_drained_witness:
  "\<exists>s. run_scripted_pair 1 (start_pair ([compute_op 3], [])) = Some s \<and> sc_done (pr_cpu0 s) \<and> pr_p0 s = None"
proof -
  define c where "c = new_scripted_cpu 0 [compute_op 3] 16 64"
  have "produce c = produce (c\<lparr>sc_local_time := 3, sc_pc := 1\<rparr>)"
    by (subst produce.simps) (simp add: c_def new_scripted_cpu_def sc_done_def)
  also have "\<dots> = (None, c\<lparr>sc_local_time := 3, sc_pc := 1\<rparr>)"
    by (subst produce.simps) (simp add: c_def new_scripted_cpu_def sc_done_def)
  finally have p: "produce c = (None, c\<lparr>sc_local_time := 3, sc_pc := 1\<rparr>)" .
  have "run_scripted_pair 1 (start_pair ([compute_op 3], [])) \<noteq> None"
    unfolding One_nat_def run_scripted_pair.simps start_pair_def pair_iteration_def
    using p
    by (simp add: refill_def c_def sc_done_def new_scripted_cpu_def split_def Let_def)
  then obtain s where "run_scripted_pair 1 (start_pair ([compute_op 3], [])) = Some s" by blast
  with finished_run_has_drained [OF this] show ?thesis by blast
qed

end
