(* ===== verification/BiosRun.thy ===== *)
theory BiosRun
  imports Sh2FetchPath ScriptedPair
begin

text \<open>
  The BIOS run of \<open>src/src/core/emulator.cpp\<close> (\<open>run_bios_trace\<close>): two SH-2 cores and the arbiter, the bound of
  its loop and its termination. The loop takes fuel; one unit per iteration.
\<close>


section \<open>The loop\<close>

record bios_state =
  bs_master :: sh2_core
  bs_slave :: sh2_core
  bs_p0 :: "bus_op option"
  bs_p1 :: "bus_op option"
  bs_seq :: u64
  bs_arbiter :: bus_arbiter

text \<open>The image is written byte by byte; bytes past the end of the memory are dropped by \<open>write\<close>.\<close>

definition load_image :: "u8 list \<Rightarrow> committed_memory \<Rightarrow> committed_memory" where
  "load_image bios_image m = fold (\<lambda>i m. mem_write m (of_nat i) 1 (ucast (bios_image ! i))) [0..<length bios_image] m"

definition start_bios :: "u8 list \<Rightarrow> bios_state" where
  "start_bios bios_image = \<lparr>bs_master = sh2_reset (new_sh2 0) 0x00000000 0x0001FFF0,
     bs_slave = sh2_reset (new_sh2 1) 0x00000000 0x0001FFF0, bs_p0 = None, bs_p1 = None, bs_seq = 0,
     bs_arbiter = new_bus_arbiter (load_image bios_image (new_memory default_memory_size)) new_device_hub new_trace
       default_latency\<rparr>"

definition executed_total :: "bios_state \<Rightarrow> u64" where
  "executed_total s = sh_executed (bs_master s) + sh_executed (bs_slave s)"

text \<open>\<open>if (!p) { next = core.produce_until_bus(seq++, trace, 16); if (next.op) p = *next.op; }\<close>\<close>

definition fetch_next :: "bus_op option \<Rightarrow> sh2_core \<Rightarrow> u64 \<Rightarrow> bus_arbiter \<Rightarrow>
    bus_op option \<times> sh2_core \<times> u64 \<times> bus_arbiter" where
  "fetch_next p c seq a =
    (if p = None then
       (let ((op, n), c1, trace1) = produce_until_bus seq 16 c (arb_trace a)
        in (op, c1, seq + 1, a\<lparr>arb_trace := trace1\<rparr>))
     else (p, c, seq, a))"

definition sh2_watermark :: "bus_op option \<Rightarrow> sh2_core \<Rightarrow> tick" where
  "sh2_watermark p c = (case p of Some op \<Rightarrow> req_time op + 1 | None \<Rightarrow> sh_t c)"

definition fetch_list :: "bus_op option \<Rightarrow> bus_op option \<Rightarrow> (int \<times> bus_op) list" where
  "fetch_list p0 p1 = (case p0 of Some op \<Rightarrow> [(0, op)] | None \<Rightarrow> []) @ (case p1 of Some op \<Rightarrow> [(1, op)] | None \<Rightarrow> [])"

definition deliver_fetch :: "(int \<times> bus_op) list \<Rightarrow> commit_result \<Rightarrow> bios_state \<Rightarrow> bios_state" where
  "deliver_fetch fetches r s =
    (let trace = arb_trace (bs_arbiter s) in
     if fst (fetches ! input_index r) = 0 then
       (let (c, tr) = apply_ifetch_and_step (response r) (bs_master s) trace
        in s\<lparr>bs_master := c, bs_p0 := None, bs_arbiter := (bs_arbiter s)\<lparr>arb_trace := tr\<rparr>\<rparr>)
     else
       (let (c, tr) = apply_ifetch_and_step (response r) (bs_slave s) trace
        in s\<lparr>bs_slave := c, bs_p1 := None, bs_arbiter := (bs_arbiter s)\<lparr>arb_trace := tr\<rparr>\<rparr>))"

text \<open>The loop body; both \<open>continue\<close>s and the inner \<open>break\<close> lead back to the loop condition.\<close>

definition bios_iteration :: "bios_state \<Rightarrow> bios_state" where
  "bios_iteration s =
    (let (p0, c0, seq1, a1) = fetch_next (bs_p0 s) (bs_master s) (bs_seq s) (bs_arbiter s);
         (p1, c1, seq2, a2) = fetch_next (bs_p1 s) (bs_slave s) seq1 a1;
         a3 = update_progress (update_progress a2 0 (sh2_watermark p0 c0)) 1 (sh2_watermark p1 c1);
         fetches = fetch_list p0 p1;
         s1 = \<lparr>bs_master = c0, bs_slave = c1, bs_p0 = p0, bs_p1 = p1, bs_seq = seq2, bs_arbiter = a3\<rparr>
     in if fetches = [] then s1
        else let (committed, a4) = commit_batch default_priority_of a3 (map snd fetches)
             in fold (deliver_fetch fetches) committed (s1\<lparr>bs_arbiter := a4\<rparr>))"

fun run_bios :: "nat \<Rightarrow> u64 \<Rightarrow> bios_state \<Rightarrow> bios_state option" where
  "run_bios 0 max_steps s = (if executed_total s < max_steps then None else Some s)"
| "run_bios (Suc fuel) max_steps s =
    (if executed_total s < max_steps then run_bios fuel max_steps (bios_iteration s) else Some s)"

text \<open>The DMA probe after the loop.\<close>

definition dma_probe :: "bios_state \<Rightarrow> bus_arbiter" where
  "dma_probe s =
    (let a1 = snd (bus_commit_dma (bs_arbiter s) (bus_op_of 0 0 (bs_seq s) MmioWrite 0x05FE00AC 4 0x31))
     in snd (bus_commit_dma a1 (bus_op_of 0 1 (bs_seq s + 1) MmioRead 0x05FE00AC 4 0)))"

definition run_bios_trace :: "u8 list \<Rightarrow> u64 \<Rightarrow> nat \<Rightarrow> string option" where
  "run_bios_trace bios_image max_steps fuel =
     map_option (\<lambda>s. write_jsonl (arb_trace (dma_probe s))) (run_bios fuel max_steps (start_bios bios_image))"

section \<open>The invariant of the loop\<close>

definition cpu_ok :: "int \<Rightarrow> nat \<Rightarrow> bus_op option \<Rightarrow> sh2_core \<Rightarrow> bool" where
  "cpu_ok i B p c \<longleftrightarrow> sh2_ok c \<and> sh_id c = i \<and> unat (sh_t c) \<le> B \<and>
     (\<forall>op. p = Some op \<longrightarrow> asks c (op_sequence op) op)"

definition bus_ok :: "nat \<Rightarrow> bus_arbiter \<Rightarrow> bool" where
  "bus_ok B a \<longleftrightarrow> unat (bus_free_time a) \<le> B \<and> arb_latency a = default_latency \<and>
     \<not> halt_on_fault (arb_trace a) \<and> \<not> should_halt (arb_trace a)"

definition bios_inv :: "nat \<Rightarrow> bios_state \<Rightarrow> bool" where
  "bios_inv B s \<longleftrightarrow> cpu_ok 0 B (bs_p0 s) (bs_master s) \<and> cpu_ok 1 B (bs_p1 s) (bs_slave s) \<and> bus_ok B (bs_arbiter s)"

lemma cpu_ok_mono: "cpu_ok i B p c \<Longrightarrow> B \<le> B' \<Longrightarrow> cpu_ok i B' p c"
  by (simp add: cpu_ok_def)

lemma bus_ok_trace: "bus_ok B a \<Longrightarrow> same_halt (arb_trace a) tr \<Longrightarrow> bus_ok B (a\<lparr>arb_trace := tr\<rparr>)"
  by (simp add: bus_ok_def same_halt_def)

lemma unat_add_le: "unat (x + y :: u64) \<le> unat x + unat y"
  by (simp add: unat_word_ariths)

text \<open>A refill executes up to 16 instructions, or leaves an operation pending.\<close>

lemma fetch_next_effect:
  assumes "fetch_next p c seq a = (p', c', seq', a')" "cpu_ok i B p c" "bus_ok D a"
  shows "\<exists>j. j \<le> 16 \<and> sh_executed c' = sh_executed c + of_nat j \<and> (j = 0 \<longrightarrow> p' \<noteq> None) \<and>
    cpu_ok i (B + 32) p' c' \<and> bus_ok D a'"
proof (cases p)
  case None
  obtain r c1 tr1 where pr: "produce_until_bus seq 16 c (arb_trace a) = (r, c1, tr1)" by (metis prod_cases3)
  then have r: "p' = fst r" "c' = c1" "a' = a\<lparr>arb_trace := tr1\<rparr>"
    using assms(1) None by (auto simp: fetch_next_def split_def)
  obtain j d where e: "ran_ahead (unat (16 :: u32)) j d c c1" "fst r = None \<longrightarrow> j = unat (16 :: u32)"
    "sh2_ok c \<longrightarrow> (\<forall>x. fst r = Some x \<longrightarrow> asks c1 seq x)" "same_halt (arb_trace a) tr1"
    using produce_effect [of seq 16 c "arb_trace a" "fst r" "snd r" c1 tr1] pr by auto
  have t: "unat (sh_t c1) \<le> B + 32"
  proof -
    have "unat (of_nat d :: u64) \<le> d" by (simp add: unat_of_nat take_bit_nat_less_eq_self)
    then have "unat (sh_t c + of_nat d) \<le> unat (sh_t c) + d" using unat_add_le [of "sh_t c" "of_nat d"] by simp
    then show ?thesis using e(1) assms(2) by (simp add: ran_ahead_def cpu_ok_def)
  qed
  have "cpu_ok i (B + 32) p' c'"
    using e(1,3) assms(2) t by (auto simp: cpu_ok_def ran_ahead_def r asks_def)
  moreover have "bus_ok D a'" using bus_ok_trace [OF assms(3) e(4)] by (simp add: r)
  ultimately show ?thesis
    using e(1,2) by (intro exI [of _ j]) (auto simp: ran_ahead_def r)
next
  case (Some op)
  with assms show ?thesis
    by (intro exI [of _ 0]) (auto simp: fetch_next_def elim: cpu_ok_mono)
qed

text \<open>One response: its core retires one instruction within the bound, the rest is untouched.\<close>

definition answerable :: "nat \<Rightarrow> (int \<times> bus_op) list \<Rightarrow> bios_state \<Rightarrow> commit_result \<Rightarrow> bool" where
  "answerable C fetches s r \<longleftrightarrow>
     (case fetches ! input_index r of (i, op) \<Rightarrow>
        (if i = 0 then bs_p0 s else bs_p1 s) = Some op \<and> unat (req_time op) + unat (rsp_stall (response r)) + 2 \<le> C)"

lemma apply_cpu_ok:
  assumes "cpu_ok i B (Some op) c" "unat (req_time op) + unat (rsp_stall rsp) + 2 \<le> C"
  shows "cpu_ok i C None (fst (apply_ifetch_and_step rsp c tr)) \<and>
    sh_executed (fst (apply_ifetch_and_step rsp c tr)) = sh_executed c + 1 \<and>
    same_halt tr (snd (apply_ifetch_and_step rsp c tr))"
proof -
  obtain c' tr' where a: "apply_ifetch_and_step rsp c tr = (c', tr')" by fastforce
  note step = apply_step [OF a, unfolded one_step_def]
  have r: "req_time op = sh_t c" using assms(1) by (simp add: cpu_ok_def asks_def)
  have "unat (sh_t c + rsp_stall rsp + n) \<le> unat (sh_t c) + unat (rsp_stall rsp) + unat n" for n
    using unat_add_le [of "sh_t c + rsp_stall rsp" n] unat_add_le [of "sh_t c" "rsp_stall rsp"] by linarith
  from this [of 1] this [of 2] have "unat (sh_t c') \<le> C" using step assms(2) r by auto
  then show ?thesis
    using step apply_ok [of c rsp tr] assms(1) apply_halt [OF a] by (simp add: a cpu_ok_def)
qed

lemma deliver_fetch_inv:
  assumes "bios_inv C s" "answerable C fetches s r"
  shows "bios_inv C (deliver_fetch fetches r s) \<and> executed_total (deliver_fetch fetches r s) = executed_total s + 1 \<and>
    (if fst (fetches ! input_index r) = 0 then bs_p1 (deliver_fetch fetches r s) = bs_p1 s
     else bs_p0 (deliver_fetch fetches r s) = bs_p0 s)"
proof -
  obtain i op where f: "fetches ! input_index r = (i, op)" by fastforce
  let ?tr = "arb_trace (bs_arbiter s)"
  show ?thesis
  proof (cases "i = 0")
    case True
    with assms f have "bs_p0 s = Some op" "unat (req_time op) + unat (rsp_stall (response r)) + 2 \<le> C"
      by (simp_all add: answerable_def)
    with apply_cpu_ok [of 0 C op "bs_master s" "response r" C ?tr] assms(1) f True show ?thesis
      by (auto simp: deliver_fetch_def bios_inv_def split_def Let_def executed_total_def bus_ok_trace)
  next
    case False
    with assms f have "bs_p1 s = Some op" "unat (req_time op) + unat (rsp_stall (response r)) + 2 \<le> C"
      by (simp_all add: answerable_def)
    with apply_cpu_ok [of 1 C op "bs_slave s" "response r" C ?tr] assms(1) f False show ?thesis
      by (auto simp: deliver_fetch_def bios_inv_def split_def Let_def executed_total_def bus_ok_trace)
  qed
qed

lemma fetch_list_distinct:
  "distinct (map fst (fetch_list p0 p1))" "fst ` set (fetch_list p0 p1) \<subseteq> {0, 1}"
  by (auto simp: fetch_list_def split: option.splits)

lemma fold_deliver_inv:
  assumes "bios_inv C s" "\<forall>r \<in> set rs. input_index r < length fetches \<and> answerable C fetches s r"
    and "distinct (map input_index rs)" "distinct (map fst fetches)" "fst ` set fetches \<subseteq> {0, 1}"
  shows "bios_inv C (fold (deliver_fetch fetches) rs s) \<and>
    executed_total (fold (deliver_fetch fetches) rs s) = executed_total s + of_nat (length rs)"
  using assms
proof (induction rs arbitrary: s)
  case (Cons r rs)
  let ?s = "deliver_fetch fetches r s"
  from Cons.prems have a: "answerable C fetches s r" and l: "input_index r < length fetches" by simp_all
  note d = deliver_fetch_inv [OF Cons.prems(1) a]
  have rest: "input_index x < length fetches \<and> answerable C fetches ?s x" if x: "x \<in> set rs" for x
  proof -
    have lx: "input_index x < length fetches" and ax: "answerable C fetches s x" using Cons.prems(2) x by simp_all
    have "input_index x \<noteq> input_index r" using Cons.prems(3) x by (auto simp: image_iff)
    then have ne: "fst (fetches ! input_index x) \<noteq> fst (fetches ! input_index r)"
      using Cons.prems(4) l lx by (metis length_map nth_eq_iff_index_eq nth_map)
    have "fst (fetches ! input_index x) \<in> {0, 1}" "fst (fetches ! input_index r) \<in> {0, 1}"
      using Cons.prems(5) l lx by (auto simp: image_subset_iff)
    then have "answerable C fetches ?s x" using ax ne d by (auto simp: answerable_def split: prod.splits)
    with lx show ?thesis ..
  qed
  have "bios_inv C (fold (deliver_fetch fetches) rs ?s) \<and>
      executed_total (fold (deliver_fetch fetches) rs ?s) = executed_total ?s + of_nat (length rs)"
    using d rest Cons.prems(3-5) by (intro Cons.IH) simp_all
  then show ?case using d by simp
qed simp

text \<open>The slack of an iteration: 16 run-ahead instructions of two ticks, two latencies, one retired step.\<close>

definition iteration_slack :: nat where
  "iteration_slack = 34 + 2 * max_latency default_latency"

lemma slot_of_cpu:
  "cpu_ok 0 B (Some op) c \<Longrightarrow> producer_slot op = 0" "cpu_ok 1 B (Some op) c \<Longrightarrow> producer_slot op = 1"
  by (simp_all add: cpu_ok_def asks_def producer_slot_def)

lemma fetch_slots:
  assumes "cpu_ok 0 B p0 c0" "cpu_ok 1 B p1 c1"
  shows "slot_monotone (map snd (fetch_list p0 p1))"
  using assms by (cases p0; cases p1) (simp_all add: fetch_list_def slot_monotone_def slot_of_cpu)

lemma fetch_list_asks:
  assumes "cpu_ok 0 C p0 c0" "cpu_ok 1 C p1 c1"
  shows "\<forall>op \<in> set (map snd (fetch_list p0 p1)). unat (req_time op) \<le> C" and "length (fetch_list p0 p1) \<le> 2"
  using assms by (auto simp: fetch_list_def cpu_ok_def asks_def split: option.splits)

text \<open>One batch of at most two fetches moves the bus by at most two transfers.\<close>

lemma fetch_batch_effect:
  assumes cpus: "cpu_ok 0 (B + 32) p0 c0" "cpu_ok 1 (B + 32) p1 c1" and bus: "bus_ok B a" and B: "B + iteration_slack < 2 ^ 63"
    and res: "res = commit_batch default_priority_of a (map snd (fetch_list p0 p1))"
  shows "length (fst res) \<le> 2" and "bus_ok (B + iteration_slack) (snd res)"
    and "r \<in> set (fst res) \<Longrightarrow> unat (req_time (cr_op r)) + unat (rsp_stall (response r)) + 2 \<le> B + iteration_slack"
proof -
  let ?ops = "map snd (fetch_list p0 p1)" and ?L = "max_latency default_latency"
  note asks = fetch_list_asks [OF cpus]
  have lat: "arb_latency a = default_latency" using bus by (simp add: bus_ok_def)
  have reach: "B + 32 + length ?ops * ?L + 2 \<le> B + iteration_slack"
    using mult_le_mono1 [OF asks(2), of ?L] by (simp add: iteration_slack_def)
  then have room: "B + 32 + length ?ops * max_latency (arb_latency a) < 2 ^ 64" using B by (simp add: lat)
  have "unat (bus_free_time a) \<le> B + 32" using bus by (simp add: bus_ok_def)
  note cr = commit_batch_reach [OF this asks(1) room, where policy = default_priority_of, folded res, unfolded lat]
  show "length (fst res) \<le> 2" using cr(1) asks(2) by simp
  have n: "B + 32 + length (fst res) * ?L + 2 \<le> B + iteration_slack"
    using mult_le_mono1 [OF cr(1), of ?L] reach by linarith
  show "r \<in> set (fst res) \<Longrightarrow> unat (req_time (cr_op r)) + unat (rsp_stall (response r)) + 2 \<le> B + iteration_slack"
    using cr(3) n by fastforce
  have "unat (bus_free_time (snd res)) \<le> B + iteration_slack" using cr(2) n by simp
  then show "bus_ok (B + iteration_slack) (snd res)"
    using commit_batch_halt [of a ?ops default_priority_of] fetch_slots [OF cpus] bus
    by (auto simp: bus_ok_def res iteration_slack_def)
qed

lemma batch_answerable:
  assumes "cpu_ok 0 (B + 32) (bs_p0 s) (bs_master s)" "cpu_ok 1 (B + 32) (bs_p1 s) (bs_slave s)" "bus_ok B a"
    and "B + iteration_slack < 2 ^ 63" "res = commit_batch default_priority_of a (map snd (fetch_list (bs_p0 s) (bs_p1 s)))"
  shows "\<forall>r \<in> set (fst res). input_index r < length (fetch_list (bs_p0 s) (bs_p1 s)) \<and>
    answerable (B + iteration_slack) (fetch_list (bs_p0 s) (bs_p1 s)) s r"
proof
  let ?fs = "fetch_list (bs_p0 s) (bs_p1 s)"
  fix r assume r: "r \<in> set (fst res)"
  have ix: "input_index r < length ?fs" "cr_op r = snd (?fs ! input_index r)"
    using batch_results(2) [where policy = default_priority_of and a = a and ops = "map snd ?fs", OF refl, of r] r
    by (simp_all add: assms(5))
  have "?fs ! input_index r \<in> set ?fs" using ix(1) by simp
  then have "(if fst (?fs ! input_index r) = 0 then bs_p0 s else bs_p1 s) = Some (snd (?fs ! input_index r))"
    by (auto simp: fetch_list_def split: option.splits)
  then show "input_index r < length ?fs \<and> answerable (B + iteration_slack) ?fs s r"
    using ix fetch_batch_effect(3) [OF assms r] by (auto simp: answerable_def split: prod.splits)
qed

text \<open>When both CPUs ask, one of the two is answered.\<close>

lemma both_ask_commits:
  assumes ok: "cpu_ok 0 (B + 32) (Some x) c0" "cpu_ok 1 (B + 32) (Some y) c1" and "bus_ok B a" "B + iteration_slack < 2 ^ 63"
  shows "fst (commit_batch default_priority_of
      (update_progress (update_progress a 0 (sh2_watermark (Some x) c0)) 1 (sh2_watermark (Some y) c1)) [x, y]) \<noteq> []"
proof -
  have "unat (req_time x) \<le> B + 32" "unat (req_time y) \<le> B + 32"
    using fetch_list_asks(1) [OF ok] by (auto simp: fetch_list_def)
  then have "req_time x < 0xFFFFFFFFFFFFFFFE" "req_time y < 0xFFFFFFFFFFFFFFFE"
    using assms(4) by (simp_all add: word_less_nat_alt iteration_slack_def)
  moreover have "producer_slot x \<noteq> producer_slot y" using slot_of_cpu ok by (metis zero_neq_one)
  ultimately show ?thesis
    using pair_commits [of x y a default_priority_of] assms(3) by (simp add: sh2_watermark_def bus_ok_def)
qed

lemma bios_iteration_inv:
  assumes inv: "bios_inv B s" and B: "B + iteration_slack < 2 ^ 63"
  shows "bios_inv (B + iteration_slack) (bios_iteration s) \<and>
    (\<exists>d. 1 \<le> d \<and> d \<le> 34 \<and> executed_total (bios_iteration s) = executed_total s + of_nat d)"
proof -
  obtain p0 c0 seq1 a1 where f0: "fetch_next (bs_p0 s) (bs_master s) (bs_seq s) (bs_arbiter s) = (p0, c0, seq1, a1)"
    by (metis prod_cases4)
  obtain p1 c1 seq2 a2 where f1: "fetch_next (bs_p1 s) (bs_slave s) seq1 a1 = (p1, c1, seq2, a2)"
    by (metis prod_cases4)
  obtain j0 where j0: "j0 \<le> 16" "sh_executed c0 = sh_executed (bs_master s) + of_nat j0" "j0 = 0 \<longrightarrow> p0 \<noteq> None"
    "cpu_ok 0 (B + 32) p0 c0" "bus_ok B a1"
    using fetch_next_effect [OF f0, of 0 B B] inv unfolding bios_inv_def by blast
  obtain j1 where j1: "j1 \<le> 16" "sh_executed c1 = sh_executed (bs_slave s) + of_nat j1" "j1 = 0 \<longrightarrow> p1 \<noteq> None"
    "cpu_ok 1 (B + 32) p1 c1" "bus_ok B a2"
    using fetch_next_effect [OF f1 _ j0(5), of 1 B] inv unfolding bios_inv_def by blast
  define a3 where "a3 = update_progress (update_progress a2 0 (sh2_watermark p0 c0)) 1 (sh2_watermark p1 c1)"
  define fetches where "fetches = fetch_list p0 p1"
  define res where "res = commit_batch default_priority_of a3 (map snd fetches)"
  define s1 where "s1 = \<lparr>bs_master = c0, bs_slave = c1, bs_p0 = p0, bs_p1 = p1, bs_seq = seq2, bs_arbiter = snd res\<rparr>"
  let ?C = "B + iteration_slack"
  have it: "bios_iteration s = (if fetches = [] then s1\<lparr>bs_arbiter := a3\<rparr> else fold (deliver_fetch fetches) (fst res) s1)"
    by (simp add: bios_iteration_def f0 f1 Let_def split_def a3_def fetches_def res_def s1_def)
  have b3: "bus_ok B a3" using j1(5) by (simp add: bus_ok_def a3_def update_progress_def Let_def)
  note effect = fetch_batch_effect [OF j0(4) j1(4) b3 B, folded fetches_def, OF res_def]
  have inv1: "bios_inv ?C s1"
    using j0(4) j1(4) effect(2) by (auto simp: bios_inv_def s1_def iteration_slack_def elim: cpu_ok_mono)
  have total1: "executed_total s1 = executed_total s + of_nat (j0 + j1)"
    using j0(2) j1(2) by (simp add: executed_total_def s1_def)
  show ?thesis
  proof (cases "fetches = []")
    case True
    then have "j0 \<noteq> 0" using j0(3) by (auto simp: fetches_def fetch_list_def split: option.splits)
    moreover have "bios_inv ?C (s1\<lparr>bs_arbiter := a3\<rparr>)"
      using inv1 b3 by (simp add: bios_inv_def bus_ok_def)
    ultimately show ?thesis
      using True total1 j0(1) j1(1) by (intro conjI exI [of _ "j0 + j1"]) (simp_all add: it executed_total_def)
  next
    case False
    have ans: "\<forall>r \<in> set (fst res). input_index r < length fetches \<and> answerable ?C fetches s1 r"
      using batch_answerable [of B s1 a3 res] j0(4) j1(4) b3 B by (simp add: s1_def fetches_def res_def)
    have dist: "distinct (map input_index (fst res))"
      using batch_results(1) [where policy = default_priority_of and a = a3 and ops = "map snd fetches", OF refl]
      by (simp add: res_def)
    note del = fold_deliver_inv [OF inv1 ans dist fetch_list_distinct(1) [of p0 p1, folded fetches_def]
        fetch_list_distinct(2) [of p0 p1, folded fetches_def]]
    have "fst res \<noteq> []" if "j0 = 0" "j1 = 0"
      using both_ask_commits [of B _ c0 _ c1 a2] that j0(3,4) j1(3,4,5) B
      by (auto simp: res_def a3_def fetches_def fetch_list_def)
    then have pos: "1 \<le> j0 + j1 + length (fst res)" by (cases "j0 = 0"; cases "j1 = 0"; cases "fst res") simp_all
    show ?thesis
      using del False total1 pos effect(1) j0(1) j1(1)
      by (intro conjI exI [of _ "j0 + j1 + length (fst res)"]) (simp_all add: it)
  qed
qed

section \<open>Termination\<close>

lemma start_bios_inv: "bios_inv 0 (start_bios bios_image)"
  by (simp add: bios_inv_def start_bios_def cpu_ok_def bus_ok_def sh2_ok_def sh2_reset_def new_sh2_def
      new_bus_arbiter_def new_trace_def)

lemma slack_value: "iteration_slack = 110"
  by (simp add: iteration_slack_def max_latency_def default_latency_def)

lemma run_bios_returns:
  assumes "bios_inv B s" "B + fuel * 110 < 2 ^ 62" "unat max_steps \<le> 2 ^ 32" "unat max_steps \<le> unat (executed_total s) + fuel"
  shows "\<exists>s'. run_bios fuel max_steps s = Some s' \<and> max_steps \<le> executed_total s' \<and>
    (executed_total s < max_steps \<longrightarrow> unat (executed_total s') < unat max_steps + 34)"
  using assms
proof (induction fuel arbitrary: B s)
  case 0
  then show ?case by (auto simp: word_less_nat_alt word_le_nat_alt)
next
  case (Suc fuel)
  show ?case
  proof (cases "executed_total s < max_steps")
    case True
    obtain d where d: "1 \<le> d" "d \<le> 34" "executed_total (bios_iteration s) = executed_total s + of_nat d"
        "bios_inv (B + 110) (bios_iteration s)"
      using bios_iteration_inv [OF Suc.prems(1)] Suc.prems(2) by (auto simp: slack_value)
    have "unat (executed_total s) < 2 ^ 32" using True Suc.prems(3) by (simp add: word_less_nat_alt)
    then have e: "unat (executed_total (bios_iteration s)) = unat (executed_total s) + d"
      using d(2) by (simp add: d(3) unat_word_ariths unat_of_nat take_bit_nat_eq_self)
    obtain s' where s': "run_bios fuel max_steps (bios_iteration s) = Some s'" "max_steps \<le> executed_total s'"
        "executed_total (bios_iteration s) < max_steps \<longrightarrow> unat (executed_total s') < unat max_steps + 34"
      using Suc.IH [OF d(4)] Suc.prems e d(1) by auto
    have "unat (executed_total s') < unat max_steps + 34"
    proof (cases "executed_total (bios_iteration s) < max_steps")
      case False
      with s'(1) have "s' = bios_iteration s" by (cases fuel) auto
      then show ?thesis using e d(2) True by (simp add: word_less_nat_alt)
    qed (use s'(3) in blast)
    with s' True show ?thesis by simp
  next
    case False
    then show ?thesis by (auto simp: not_less)
  qed
qed

text \<open>
  (C19) The BIOS run ends. For any image, any step limit up to 2^32 and as many iterations as steps, the loop
  over the two cores and the arbiter reaches its limit: every iteration retires an instruction, because a
  core either runs ahead or has an operation pending, and of two pending operations at least the earlier
  one lies below the commit horizon. It overshoots the limit by fewer than 34 instructions.
\<close>

theorem bios_run_terminates:
  assumes "unat max_steps \<le> 2 ^ 32"
  shows "\<exists>s. run_bios (unat max_steps) max_steps (start_bios bios_image) = Some s \<and>
    max_steps \<le> executed_total s \<and> unat (executed_total s) < unat max_steps + 34"
proof -
  have e: "executed_total (start_bios bios_image) = 0" by (simp add: executed_total_def start_bios_def sh2_reset_def)
  have "unat max_steps * 110 < 2 ^ 62" using assms by simp
  then obtain s where s: "run_bios (unat max_steps) max_steps (start_bios bios_image) = Some s"
      "max_steps \<le> executed_total s" "0 < max_steps \<longrightarrow> unat (executed_total s) < unat max_steps + 34"
    using run_bios_returns [OF start_bios_inv [of bios_image], of "unat max_steps" max_steps] assms e by auto
  show ?thesis
  proof (cases "max_steps = 0")
    case True
    with s(1) have "s = start_bios bios_image" by simp
    with True s e show ?thesis by simp
  qed (use s in \<open>auto simp: word_neq_0_conv\<close>)
qed

lemma bios_run_terminates_witness:
  "\<exists>s. run_bios 5000 5000 (start_bios [0x00, 0x09]) = Some s \<and> 5000 \<le> executed_total s"
  using bios_run_terminates [of 5000 "[0x00, 0x09]"] by auto

end
