(* ===== verification/Busarb.thy ===== *)
theory Busarb
  imports Selection
begin

text \<open>
  The stand-alone arbiter library: \<open>src/include/busarb/busarb.hpp\<close> and
  \<open>src/src/busarb/busarb.cpp\<close>, with the Ymir timing table of \<open>ymir_timing.cpp\<close>. The timing
  callback is a parameter; what the library needs of it is the locale \<open>bounded_timing\<close>,
  interpreted on the timing table.
\<close>

section \<open>Requests and state\<close>

datatype bus_master_id = SH2_A | SH2_B | DMA

text \<open>The enumerator values of \<open>BusMasterId\<close>.\<close>

primrec master_code :: "bus_master_id \<Rightarrow> nat" where
  "master_code SH2_A = 0"
| "master_code SH2_B = 1"
| "master_code DMA = 2"

record bus_request =
  master_id :: bus_master_id
  req_addr :: u32
  is_write :: bool
  size_bytes :: u8
  now_tick :: u64

record bus_wait_result =
  should_wait :: bool
  wait_cycles :: u32

record arbiter_config =
  cfg_same_address_contention :: u32
  cfg_tie_turnaround :: u32

definition default_config :: arbiter_config where
  "default_config = \<lparr>cfg_same_address_contention = 2, cfg_tie_turnaround = 1\<rparr>"

text \<open>The callback with its context pointer is one function.\<close>

type_synonym timing_callbacks = "u32 \<Rightarrow> bool \<Rightarrow> u8 \<Rightarrow> u32"

record arbiter =
  config :: arbiter_config
  bus_free_tick :: u64
  has_last_granted_addr :: bool
  last_granted_addr :: u32
  last_granted_cpu :: "bus_master_id option"

definition new_arbiter :: "arbiter_config \<Rightarrow> arbiter" where
  "new_arbiter cfg = \<lparr>config = cfg, bus_free_tick = 0, has_last_granted_addr = False,
     last_granted_addr = 0, last_granted_cpu = None\<rparr>"

section \<open>Operations\<close>

definition query_wait :: "arbiter \<Rightarrow> bus_request \<Rightarrow> bus_wait_result" where
  "query_wait a req =
    (if now_tick req \<ge> bus_free_tick a then \<lparr>should_wait = False, wait_cycles = 0\<rparr>
     else let delta = bus_free_tick a - now_tick req
          in \<lparr>should_wait = True, wait_cycles = ucast (min delta 0xFFFFFFFF)\<rparr>)"

definition service_cycles :: "timing_callbacks \<Rightarrow> bus_request \<Rightarrow> u32" where
  "service_cycles access_cycles req = max 1 (access_cycles (req_addr req) (is_write req) (size_bytes req))"

definition actual_start :: "arbiter \<Rightarrow> u64 \<Rightarrow> u64" where
  "actual_start a tick_start = max tick_start (bus_free_tick a)"

definition grant_duration :: "timing_callbacks \<Rightarrow> arbiter \<Rightarrow> bus_request \<Rightarrow> bool \<Rightarrow> u64" where
  "grant_duration access_cycles a req had_tie =
    (let duration = ucast (service_cycles access_cycles req);
         duration = (if has_last_granted_addr a \<and> req_addr req = last_granted_addr a
                     then duration + ucast (cfg_same_address_contention (config a)) else duration)
     in if had_tie then duration + ucast (cfg_tie_turnaround (config a)) else duration)"

definition commit_grant ::
    "timing_callbacks \<Rightarrow> arbiter \<Rightarrow> bus_request \<Rightarrow> u64 \<Rightarrow> bool \<Rightarrow> arbiter" where
  "commit_grant access_cycles a req tick_start had_tie =
    a\<lparr>bus_free_tick := actual_start a tick_start + grant_duration access_cycles a req had_tie,
      has_last_granted_addr := True,
      last_granted_addr := req_addr req,
      last_granted_cpu := (if master_id req = SH2_A \<or> master_id req = SH2_B
                           then Some (master_id req) else last_granted_cpu a)\<rparr>"

primrec priority :: "bus_master_id \<Rightarrow> int" where
  "priority DMA = 2"
| "priority SH2_A = 1"
| "priority SH2_B = 1"

definition preferred_cpu :: "bus_master_id option \<Rightarrow> bus_master_id" where
  "preferred_cpu lastc = (case lastc of None \<Rightarrow> SH2_A | Some c \<Rightarrow> if c = SH2_A then SH2_B else SH2_A)"

text \<open>The body of the loop of \<open>pick_winner\<close>: does the candidate replace the current best?\<close>

definition request_beats :: "bus_master_id option \<Rightarrow> bus_request \<Rightarrow> bus_request \<Rightarrow> bool" where
  "request_beats lastc cand cur =
    (let cprio = priority (master_id cand); bprio = priority (master_id cur)
     in if cprio > bprio then True
        else if cprio < bprio then False
        else if master_id cand \<noteq> DMA \<and> master_id cur \<noteq> DMA \<and> master_id cand \<noteq> master_id cur
          then master_id cand = preferred_cpu lastc
        else if master_code (master_id cand) < master_code (master_id cur) then True
        else if master_id cand \<noteq> master_id cur then False
        else if req_addr cand < req_addr cur then True
        else if req_addr cand > req_addr cur then False
        else if is_write cand \<noteq> is_write cur \<and> is_write cand then True
        else size_bytes cand < size_bytes cur)"

definition pick_winner :: "arbiter \<Rightarrow> bus_request list \<Rightarrow> nat option" where
  "pick_winner a reqs =
    (if reqs = [] then None
     else Some (pick_best (request_beats (last_granted_cpu a)) reqs [1..<length reqs] 0))"

section \<open>The Ymir timing table\<close>

record region_timing =
  rt_start :: u32
  rt_end :: u32
  rt_read_cycles :: u32
  rt_write_cycles :: u32

abbreviation region :: "u32 \<Rightarrow> u32 \<Rightarrow> u32 \<Rightarrow> u32 \<Rightarrow> region_timing" where
  "region s e r w \<equiv> \<lparr>rt_start = s, rt_end = e, rt_read_cycles = r, rt_write_cycles = w\<rparr>"

definition kRegionTimings :: "region_timing list" where
  "kRegionTimings =
    [region 0x00000000 0x00FFFFFF 2 2, region 0x01000000 0x017FFFFF 4 2,
     region 0x01800000 0x01FFFFFF 2 2, region 0x02000000 0x02FFFFFF 2 2,
     region 0x10000000 0x1FFFFFFF 4 2, region 0x20000000 0x4FFFFFFF 2 2,
     region 0x05000000 0x057FFFFF 8 2, region 0x05800000 0x058FFFFF 40 40,
     region 0x05A00000 0x05BFFFFF 40 2, region 0x05C00000 0x05C7FFFF 22 2,
     region 0x05C80000 0x05CFFFFF 22 2, region 0x05D00000 0x05D7FFFF 14 2,
     region 0x05E00000 0x05FBFFFF 20 2, region 0x05FE0000 0x05FEFFFF 4 2,
     region 0x06000000 0x07FFFFFF 2 2, region 0xFFFFFE00 0xFFFFFFFF 2 2]"

definition ymir_access_cycles :: timing_callbacks where
  "ymir_access_cycles addr write sz =
    (case find (\<lambda>r. addr \<ge> rt_start r \<and> addr \<le> rt_end r) kRegionTimings of
       Some r \<Rightarrow> if write then rt_write_cycles r else rt_read_cycles r
     | None \<Rightarrow> if write then 2 else 4)"

section \<open>What the arbiter needs of a timing callback\<close>

definition max_duration :: "nat \<Rightarrow> arbiter_config \<Rightarrow> nat" where
  "max_duration bound cfg = bound + unat (cfg_same_address_contention cfg) + unat (cfg_tie_turnaround cfg)"

locale bounded_timing =
  fixes access_cycles :: timing_callbacks and bound :: nat
  assumes cycles_bound: "unat (access_cycles addr w sz) \<le> bound" and bound_pos: "1 \<le> bound"
begin

lemma service_bound: "1 \<le> unat (service_cycles access_cycles req) \<and> unat (service_cycles access_cycles req) \<le> bound"
  using cycles_bound [of "req_addr req" "is_write req" "size_bytes req"] bound_pos
  by (auto simp: service_cycles_def max_def word_le_nat_alt)

lemma duration_bound:
  "1 \<le> unat (grant_duration access_cycles a req tie) \<and>
   unat (grant_duration access_cycles a req tie) \<le> max_duration bound (config a)"
proof -
  let ?s = "service_cycles access_cycles req"
  let ?c = "cfg_same_address_contention (config a)" and ?t = "cfg_tie_turnaround (config a)"
  have b: "unat ?s < 4294967296" "unat ?c < 4294967296" "unat ?t < 4294967296"
    by (rule unat_u32_less)+
  have "unat (ucast ?s + ucast ?c :: u64) = unat ?s + unat ?c"
    "unat (ucast ?s + ucast ?t :: u64) = unat ?s + unat ?t"
    "unat (ucast ?s + ucast ?c + ucast ?t :: u64) = unat ?s + unat ?c + unat ?t"
    using b by (simp_all add: unat_word_ariths)
  then show ?thesis
    using service_bound [of req] by (simp add: grant_duration_def max_duration_def Let_def)
qed

end

text \<open>The bus intervals a sequence of grants occupies.\<close>

fun grant_intervals ::
    "timing_callbacks \<Rightarrow> arbiter \<Rightarrow> (bus_request \<times> u64 \<times> bool) list \<Rightarrow> (u64 \<times> u64) list" where
  "grant_intervals tc a [] = []"
| "grant_intervals tc a ((req, tick_start, had_tie) # gs) =
    (let a' = commit_grant tc a req tick_start had_tie
     in (actual_start a tick_start, bus_free_tick a') # grant_intervals tc a' gs)"

lemma config_commit [simp]: "config (commit_grant tc a req t tie) = config a"
  by (simp add: commit_grant_def)

context bounded_timing
begin

lemma commit_advances:
  assumes "unat (bus_free_tick a) \<le> T" "unat t \<le> T" "T + max_duration bound (config a) < 18446744073709551616"
  shows "actual_start a t < bus_free_tick (commit_grant access_cycles a req t tie)"
    and "unat (bus_free_tick (commit_grant access_cycles a req t tie)) \<le> T + max_duration bound (config a)"
    and "bus_free_tick a \<le> actual_start a t"
    and "bus_free_tick (commit_grant access_cycles a req t tie) - actual_start a t = grant_duration access_cycles a req tie"
proof -
  let ?d = "grant_duration access_cycles a req tie"
  have s: "unat (actual_start a t) \<le> T" using assms(1,2) by (simp add: actual_start_def max_def)
  have e: "unat (actual_start a t + ?d) = unat (actual_start a t) + unat ?d"
    using s assms(3) duration_bound [of a req tie] by (simp add: unat_word_ariths)
  show "actual_start a t < bus_free_tick (commit_grant access_cycles a req t tie)"
    using e duration_bound [of a req tie] by (simp add: commit_grant_def word_less_nat_alt)
  show "unat (bus_free_tick (commit_grant access_cycles a req t tie)) \<le> T + max_duration bound (config a)"
    using e s duration_bound [of a req tie] by (simp add: commit_grant_def)
  show "bus_free_tick a \<le> actual_start a t" by (simp add: actual_start_def)
  show "bus_free_tick (commit_grant access_cycles a req t tie) - actual_start a t = ?d"
    by (simp add: commit_grant_def)
qed

lemma intervals_disjoint:
  assumes "unat (bus_free_tick a) \<le> T" "\<forall>(req, t, tie) \<in> set gs. unat t \<le> T"
    "T + length gs * max_duration bound (config a) < 18446744073709551616"
  shows "sorted_wrt (\<lambda>x y. snd x \<le> fst y) (grant_intervals access_cycles a gs) \<and>
    (\<forall>x \<in> set (grant_intervals access_cycles a gs). bus_free_tick a \<le> fst x \<and> fst x < snd x)"
  using assms
proof (induction gs arbitrary: a T)
  case (Cons g gs)
  obtain req t tie where g: "g = (req, t, tie)" by (cases g)
  let ?a = "commit_grant access_cycles a req t tie" and ?T = "T + max_duration bound (config a)"
  have c: "actual_start a t < bus_free_tick ?a" "unat (bus_free_tick ?a) \<le> ?T" "bus_free_tick a \<le> actual_start a t"
    using Cons.prems by (auto simp: g intro!: commit_advances)
  have "sorted_wrt (\<lambda>x y. snd x \<le> fst y) (grant_intervals access_cycles ?a gs) \<and>
    (\<forall>x \<in> set (grant_intervals access_cycles ?a gs). bus_free_tick ?a \<le> fst x \<and> fst x < snd x)"
    using Cons.prems c(2) by (intro Cons.IH [of _ ?T]) fastforce+
  then show ?case
    using c(1,3) by (auto simp: g Let_def)
qed simp

end

lemma ymir_bounded: "unat (ymir_access_cycles addr w sz) \<le> 40"
  by (simp add: ymir_access_cycles_def kRegionTimings_def)

interpretation ymir: bounded_timing ymir_access_cycles 40
  by unfold_locales (simp_all add: ymir_bounded)

section \<open>The winner\<close>

text \<open>Between masters the comparison is a ranking that depends on the last CPU granted.\<close>

definition master_rank :: "bus_master_id option \<Rightarrow> bus_master_id \<Rightarrow> nat" where
  "master_rank lastc m = (if m = DMA then 0 else if m = preferred_cpu lastc then 1 else 2)"

interpretation winner: selection "\<lambda>_. True" "request_beats lastc" master_id "\<lambda>r. master_rank lastc (master_id r)"
  for lastc
proof unfold_locales
  fix c b :: bus_request
  assume "master_id c \<noteq> master_id b"
  then show "request_beats lastc c b \<longleftrightarrow> master_rank lastc (master_id c) < master_rank lastc (master_id b)"
    and "master_rank lastc (master_id c) \<noteq> master_rank lastc (master_id b)"
    by (cases "master_id c"; cases "master_id b";
        cases lastc; simp add: request_beats_def master_rank_def preferred_cpu_def)+
qed (simp add: request_beats_def)

lemma scan_indices: "reqs \<noteq> [] \<Longrightarrow> insert 0 (set [1..<length reqs]) = {..<length reqs}"
  by (cases reqs) auto

lemma request_beats_priority:
  "priority (master_id c) > priority (master_id b) \<Longrightarrow> request_beats lastc c b"
  "priority (master_id c) < priority (master_id b) \<Longrightarrow> \<not> request_beats lastc c b"
  by (simp_all add: request_beats_def)

lemma pick_winner_Some:
  assumes "reqs \<noteq> []"
  shows "pick_winner a reqs = Some (pick_best (request_beats (last_granted_cpu a)) reqs [1..<length reqs] 0)"
  using assms by (simp add: pick_winner_def)

section \<open>Properties\<close>

text \<open>
  The non-mutating query predicts the commit. It asks to wait exactly when the bus is busy
  at the request's tick; a grant committed after the returned wait starts without further delay,
  and one committed anywhere before that starts at that same tick, never earlier.
\<close>

theorem query_wait_exact:
  assumes "unat (bus_free_tick a) - unat (now_tick req) \<le> 0xFFFFFFFF"
  shows "(should_wait (query_wait a req) \<longleftrightarrow> now_tick req < bus_free_tick a) \<and>
    (\<not> should_wait (query_wait a req) \<longrightarrow> wait_cycles (query_wait a req) = 0) \<and>
    actual_start a (now_tick req + ucast (wait_cycles (query_wait a req))) =
      now_tick req + ucast (wait_cycles (query_wait a req)) \<and>
    (\<forall>t. now_tick req \<le> t \<and> t < now_tick req + ucast (wait_cycles (query_wait a req)) \<longrightarrow>
      actual_start a t = now_tick req + ucast (wait_cycles (query_wait a req)))"
proof (cases "now_tick req < bus_free_tick a")
  case True
  let ?d = "bus_free_tick a - now_tick req"
  have d: "unat ?d \<le> 0xFFFFFFFF"
    using assms unat_sub [OF less_imp_le [OF True]] by simp
  then have m: "min ?d 0xFFFFFFFF = ?d" by (simp add: min_def word_le_nat_alt)
  have "ucast (ucast ?d :: u32) = ?d"
    using d by (intro word_unat_eq_iff [THEN iffD2]) (simp add: unsigned_ucast_eq unsigned_take_bit_eq take_bit_nat_eq_self)
  then show ?thesis
    using True by (auto simp: query_wait_def Let_def m actual_start_def not_le max_def)
next
  case False
  then show ?thesis by (auto simp: query_wait_def actual_start_def not_less max_def)
qed

lemma query_wait_exact_witness:
  "let a = commit_grant ymir_access_cycles (new_arbiter default_config)
         \<lparr>master_id = SH2_A, req_addr = 0, is_write = False, size_bytes = 4, now_tick = 5\<rparr> 5 False;
       req = \<lparr>master_id = SH2_B, req_addr = 0, is_write = False, size_bytes = 4, now_tick = 6\<rparr>
   in wait_cycles (query_wait a req) = 1 \<and> actual_start a 7 = 7"
  using query_wait_exact [of "commit_grant ymir_access_cycles (new_arbiter default_config)
     \<lparr>master_id = SH2_A, req_addr = 0, is_write = False, size_bytes = 4, now_tick = 5\<rparr> 5 False"
     "\<lparr>master_id = SH2_B, req_addr = 0, is_write = False, size_bytes = 4, now_tick = 6\<rparr>"]
  by (simp add: commit_grant_def new_arbiter_def actual_start_def grant_duration_def service_cycles_def
      ymir_access_cycles_def kRegionTimings_def query_wait_def Let_def)

text \<open>
  (C32) Grants serialise the bus. With the Ymir timing table, for any sequence of grants at any
  start ticks, the bus intervals they occupy are nonempty, start no earlier than the bus is
  free, and do not overlap, each ending before the next one starts, as long as the tick
  counter cannot wrap.
\<close>

theorem grants_serialise:
  assumes "unat (bus_free_tick a) \<le> T" "\<forall>(req, t, tie) \<in> set gs. unat t \<le> T"
    "T + length gs * max_duration 40 (config a) < 18446744073709551616"
  shows "sorted_wrt (\<lambda>x y. snd x \<le> fst y) (grant_intervals ymir_access_cycles a gs) \<and>
    (\<forall>x \<in> set (grant_intervals ymir_access_cycles a gs). bus_free_tick a \<le> fst x \<and> fst x < snd x)"
  using assms by (rule ymir.intervals_disjoint)

lemma grants_serialise_witness:
  "let r = \<lparr>master_id = DMA, req_addr = 0x05800000, is_write = True, size_bytes = 4, now_tick = 0\<rparr>
   in sorted_wrt (\<lambda>x y. snd x \<le> fst y)
     (grant_intervals ymir_access_cycles (new_arbiter default_config) [(r, 3, False), (r, 0, True)])"
  using grants_serialise [of "new_arbiter default_config" 3
    "[(\<lparr>master_id = DMA, req_addr = 0x05800000, is_write = True, size_bytes = 4, now_tick = 0\<rparr>, 3, False),
      (\<lparr>master_id = DMA, req_addr = 0x05800000, is_write = True, size_bytes = 4, now_tick = 0\<rparr>, 0, True)]"]
  by (simp add: new_arbiter_def default_config_def max_duration_def)

text \<open>
  (C33) The winner of a set of requests is one of them and has the highest priority present, so a
  DMA request is never passed over for a CPU. With at most one request per master, the request
  chosen does not depend on the order they are listed in.
\<close>

theorem pick_winner_correct:
  assumes "reqs \<noteq> []"
  shows "\<exists>i < length reqs. pick_winner a reqs = Some i \<and>
      (\<forall>r \<in> set reqs. priority (master_id r) \<le> priority (master_id (reqs ! i))) \<and>
      (distinct (map master_id reqs) \<longrightarrow>
        (\<forall>reqs'. mset reqs' = mset reqs \<longrightarrow> (\<exists>j. pick_winner a reqs' = Some j \<and> reqs' ! j = reqs ! i)))"
proof -
  let ?i = "pick_best (request_beats (last_granted_cpu a)) reqs [1..<length reqs] 0"
  have "?i \<in> insert 0 (set [1..<length reqs])" by (rule pick_best_in)
  then have i: "?i < length reqs" unfolding scan_indices [OF assms] by simp
  have "\<forall>i \<in> insert 0 (set [1..<length reqs]). priority (master_id (reqs ! i)) \<le> priority (master_id (reqs ! ?i))"
    by (rule pick_best_weight [of "\<lambda>r. priority (master_id r)"]) (simp_all add: request_beats_priority)
  then have p: "\<forall>r \<in> set reqs. priority (master_id r) \<le> priority (master_id (reqs ! ?i))"
    unfolding scan_indices [OF assms] by (auto simp: in_set_conv_nth)
  have "pick_winner a reqs' = Some (pick_best (request_beats (last_granted_cpu a)) reqs' [1..<length reqs'] 0) \<and>
      reqs' ! pick_best (request_beats (last_granted_cpu a)) reqs' [1..<length reqs'] 0 = reqs ! ?i"
    if "distinct (map master_id reqs)" "mset reqs' = mset reqs" for reqs'
  proof -
    have ne: "reqs' \<noteq> []" using that(2) assms by auto
    show ?thesis
      using winner.best_order_independent [OF _ that scan_indices [OF assms] scan_indices [OF ne]]
      by (simp add: pick_winner_Some ne)
  qed
  then show ?thesis using i p unfolding pick_winner_Some [OF assms] by blast
qed

lemma pick_winner_correct_witness:
  "\<exists>i < 2. pick_winner (new_arbiter default_config)
     [\<lparr>master_id = SH2_A, req_addr = 0, is_write = False, size_bytes = 4, now_tick = 0\<rparr>,
      \<lparr>master_id = DMA, req_addr = 0, is_write = False, size_bytes = 4, now_tick = 0\<rparr>] = Some i"
  using pick_winner_correct [of "[\<lparr>master_id = SH2_A, req_addr = 0, is_write = False, size_bytes = 4, now_tick = 0\<rparr>,
      \<lparr>master_id = DMA, req_addr = 0, is_write = False, size_bytes = 4, now_tick = 0\<rparr>]" "new_arbiter default_config"]
  by auto

text \<open>
  The two CPUs alternate. Right after a grant to one CPU, a contest between one request of
  each CPU is won by the other one, in whichever order they are listed; DMA grants in between
  do not change whose turn it is.
\<close>

theorem cpu_alternation:
  assumes "master_id x = SH2_A" "master_id y = SH2_B" "reqs \<in> {[x, y], [y, x]}" "master_id r \<noteq> DMA"
    "master_id d = DMA"
  shows "map_option (\<lambda>i. master_id (reqs ! i)) (pick_winner (commit_grant tc a r t tie) reqs) =
      Some (if master_id r = SH2_A then SH2_B else SH2_A) \<and>
    pick_winner (commit_grant tc (commit_grant tc a r t tie) d t' tie') reqs =
      pick_winner (commit_grant tc a r t tie) reqs"
  using assms by (cases "master_id r")
    (auto simp: pick_winner_def commit_grant_def request_beats_def preferred_cpu_def)

lemma cpu_alternation_witness:
  "let x = \<lparr>master_id = SH2_A, req_addr = 0, is_write = False, size_bytes = 4, now_tick = 0\<rparr>;
       y = x\<lparr>master_id := SH2_B\<rparr>
   in pick_winner (commit_grant ymir_access_cycles (new_arbiter default_config) x 0 False) [x, y] = Some 1"
  using cpu_alternation [of "\<lparr>master_id = SH2_A, req_addr = 0, is_write = False, size_bytes = 4, now_tick = 0\<rparr>"
     "\<lparr>master_id = SH2_B, req_addr = 0, is_write = False, size_bytes = 4, now_tick = 0\<rparr>" _
     "\<lparr>master_id = SH2_A, req_addr = 0, is_write = False, size_bytes = 4, now_tick = 0\<rparr>"
     "\<lparr>master_id = DMA, req_addr = 0, is_write = False, size_bytes = 4, now_tick = 0\<rparr>", OF _ _ insertI1]
  by (simp add: pick_winner_def commit_grant_def request_beats_def preferred_cpu_def)

text \<open>
  Several requests of one master to one address are not ordered: a word write beats a byte
  read because it writes, and the byte read beats the word write because it is narrower, so
  whichever is listed last wins.
\<close>

theorem same_master_tie_depends_on_order:
  "let w = \<lparr>master_id = m, req_addr = p, is_write = True, size_bytes = 4, now_tick = t\<rparr>;
       r = \<lparr>master_id = m, req_addr = p, is_write = False, size_bytes = 1, now_tick = t\<rparr>
   in pick_winner a [w, r] = Some 1 \<and> pick_winner a [r, w] = Some 1"
  by (simp add: pick_winner_def request_beats_def Let_def)

end
