(* ===== verification/TraceReplay.thy ===== *)
theory TraceReplay
  imports Busarb Trace "HOL-Library.Product_Lexorder" "HOL-Library.List_Lexorder" "HOL-Library.Char_ord" "HOL-Library.RBT"
begin

text \<open>
  The offline replay tool \<open>src/tools/trace_replay/trace_replay.cpp\<close> up to its report: the scanner of
  JSON lines, the numeric parsers, the two loaders of trace records with their diagnostics, the
  command line, and the part of \<open>main\<close> that sorts and filters the records. A file is the list of
  its bytes, or \<open>None\<close> when it cannot be opened; \<open>std::size_t\<close> counters are natural numbers. The
  rest of \<open>main\<close> is in \<open>ReplayReport\<close>.
\<close>

section \<open>Records and options\<close>

record trace_record =
  tr_seq :: u64
  tr_master :: string
  tick_first_attempt :: u64
  tick_complete :: u64
  tr_addr :: u32
  addr_text :: string
  tr_size :: u8
  tr_rw :: string
  tr_kind :: string
  tr_service_cycles :: u32
  tr_retries :: u32
  source_line :: nat

record options =
  input_path :: string
  annotated_output_path :: "string option"
  summary_output_path :: "string option"
  top_k :: nat
  summary_only :: bool
  include_model_comparison :: bool
  annotated_limit :: "nat option"

definition default_options :: options where
  "default_options = \<lparr>input_path = [], annotated_output_path = None, summary_output_path = None,
     top_k = 20, summary_only = False, include_model_comparison = False, annotated_limit = None\<rparr>"

section \<open>Scanning a line\<close>

abbreviation quote :: char where "quote \<equiv> CHR 0x22"
abbreviation tab :: char where "tab \<equiv> CHR 0x09"

text \<open>\<open>std::string_view::find (needle, pos)\<close> for a non-empty needle.\<close>

definition find_text :: "string \<Rightarrow> string \<Rightarrow> nat \<Rightarrow> nat option" where
  "find_text needle hay pos =
     find (\<lambda>i. take (length needle) (drop i hay) = needle) [pos..<length hay]"

definition find_value_span :: "string \<Rightarrow> string \<Rightarrow> string option" where
  "find_value_span line key =
    (let needle = [quote] @ key @ [quote]
     in case find_text needle line 0 of None \<Rightarrow> None
        | Some key_pos \<Rightarrow>
          (case find_text '':'' line (key_pos + length needle) of None \<Rightarrow> None
           | Some colon \<Rightarrow>
             (case dropWhile (\<lambda>c. c = CHR '' '' \<or> c = tab) (drop (colon + 1) line) of
                [] \<Rightarrow> None
              | c # rest \<Rightarrow>
                if c = quote
                then (if quote \<in> set rest then Some (takeWhile (\<lambda>c. c \<noteq> quote) rest) else None)
                else Some (takeWhile (\<lambda>c. c \<noteq> CHR '','' \<and> c \<noteq> CHR ''}'') (c # rest)))))"

section \<open>Numbers\<close>

text \<open>
  \<open>std::from_chars\<close> on an unsigned integer: the longest run of digits of the base is the numeral;
  no digit is \<open>invalid_argument\<close>, a value past the type's range is \<open>result_out_of_range\<close>.
\<close>

definition digit_value :: "char \<Rightarrow> nat option" where
  "digit_value c =
    (let n = of_char c :: nat
     in if 48 \<le> n \<and> n \<le> 57 then Some (n - 48)
        else if 65 \<le> n \<and> n \<le> 90 then Some (n - 55)
        else if 97 \<le> n \<and> n \<le> 122 then Some (n - 87)
        else None)"

definition is_digit :: "nat \<Rightarrow> char \<Rightarrow> bool" where
  "is_digit base c = (case digit_value c of None \<Rightarrow> False | Some d \<Rightarrow> d < base)"

definition numeral_value :: "nat \<Rightarrow> string \<Rightarrow> nat" where
  "numeral_value base cs = foldl (\<lambda>v c. v * base + the (digit_value c)) 0 cs"

definition from_chars :: "nat \<Rightarrow> nat \<Rightarrow> string \<Rightarrow> (nat \<times> string) option" where
  "from_chars base limit text =
    (let digits = takeWhile (is_digit base) text
     in if digits = [] \<or> limit \<le> numeral_value base digits then None
        else Some (numeral_value base digits, dropWhile (is_digit base) text))"

definition parse_u64 :: "string \<Rightarrow> u64 option" where
  "parse_u64 text =
    (case from_chars 10 (2 ^ 64) text of Some (v, []) \<Rightarrow> Some (of_nat v) | _ \<Rightarrow> None)"

definition parse_addr :: "string \<Rightarrow> u32 option" where
  "parse_addr text =
    (let trimmed = (if take 2 text = ''0x'' \<or> take 2 text = ''0X'' then drop 2 text else text)
     in case from_chars 16 (2 ^ 32) trimmed of Some (v, []) \<Rightarrow> Some (of_nat v) | _ \<Rightarrow> None)"

definition hex_digit :: "nat \<Rightarrow> char" where
  "hex_digit d = ''0123456789ABCDEF'' ! d"

text \<open>The loop writes digit \<open>i\<close> at position \<open>9 - i\<close>, so the text reads from digit 7 down to digit 0.\<close>

definition to_hex32 :: "u32 \<Rightarrow> string" where
  "to_hex32 value =
     ''0x'' @ map (\<lambda>i. hex_digit (unat (drop_bit (i * 4) value AND 0xF))) (rev [0..<8])"

section \<open>Classification\<close>

definition parse_record :: "string \<Rightarrow> nat \<Rightarrow> trace_record option" where
  "parse_record line line_number =
    (case (find_value_span line ''seq'', find_value_span line ''master'',
           find_value_span line ''tick_first_attempt'', find_value_span line ''tick_complete'',
           find_value_span line ''addr'', find_value_span line ''size'', find_value_span line ''rw'',
           find_value_span line ''kind'', find_value_span line ''service_cycles'',
           find_value_span line ''retries'') of
       (Some sq, Some m, Some tfa, Some tc, Some a, Some sz, Some rw, Some k, Some sc, Some rt) \<Rightarrow>
         (case (parse_u64 sq, parse_u64 tfa, parse_u64 tc, parse_addr a, parse_u64 sz, parse_u64 sc,
                parse_u64 rt) of
            (Some sq, Some tfa, Some tc, Some addr, Some sz, Some sc, Some rt) \<Rightarrow>
              Some \<lparr>tr_seq = sq, tr_master = m, tick_first_attempt = tfa, tick_complete = tc,
                tr_addr = addr, addr_text = a, tr_size = ucast sz, tr_rw = rw, tr_kind = k,
                tr_service_cycles = ucast sc, tr_retries = ucast rt, source_line = line_number\<rparr>
          | _ \<Rightarrow> None)
     | _ \<Rightarrow> None)"

definition parse_master :: "string \<Rightarrow> bus_master_id option" where
  "parse_master master =
    (if master = ''MSH2'' then Some SH2_A
     else if master = ''SSH2'' then Some SH2_B
     else if master = ''DMA'' then Some DMA
     else None)"

definition region_name :: "u32 \<Rightarrow> string" where
  "region_name addr =
    (if addr \<le> 0x00FFFFFF then ''BIOS ROM''
     else if 0x01000000 \<le> addr \<and> addr \<le> 0x017FFFFF then ''SMPC''
     else if 0x01800000 \<le> addr \<and> addr \<le> 0x01FFFFFF then ''Backup RAM''
     else if 0x02000000 \<le> addr \<and> addr \<le> 0x02FFFFFF then ''Low WRAM''
     else if 0x10000000 \<le> addr \<and> addr \<le> 0x1FFFFFFF then ''MINIT/SINIT''
     else if 0x20000000 \<le> addr \<and> addr \<le> 0x4FFFFFFF then ''A-Bus CS0/CS1''
     else if 0x05000000 \<le> addr \<and> addr \<le> 0x057FFFFF then ''A-Bus dummy''
     else if 0x05800000 \<le> addr \<and> addr \<le> 0x058FFFFF then ''CD Block CS2''
     else if 0x05A00000 \<le> addr \<and> addr \<le> 0x05BFFFFF then ''SCSP''
     else if 0x05C00000 \<le> addr \<and> addr \<le> 0x05C7FFFF then ''VDP1 VRAM''
     else if 0x05C80000 \<le> addr \<and> addr \<le> 0x05CFFFFF then ''VDP1 FB''
     else if 0x05D00000 \<le> addr \<and> addr \<le> 0x05D7FFFF then ''VDP1 regs''
     else if 0x05E00000 \<le> addr \<and> addr \<le> 0x05FBFFFF then ''VDP2''
     else if 0x05FE0000 \<le> addr \<and> addr \<le> 0x05FEFFFF then ''SCU regs''
     else if 0x06000000 \<le> addr \<and> addr \<le> 0x07FFFFFF then ''High WRAM''
     else if 0xFFFFFE00 \<le> addr \<and> addr \<le> 0xFFFFFFFF then ''SH-2 on-chip regs''
     else ''Unmapped'')"

definition is_high_wram :: "u32 \<Rightarrow> bool" where
  "is_high_wram addr \<longleftrightarrow> 0x06000000 \<le> addr \<and> addr \<le> 0x07FFFFFF"

definition classify_cache_bucket :: "u32 \<Rightarrow> u32 \<Rightarrow> string" where
  "classify_cache_bucket addr cycles =
    (if \<not> is_high_wram addr then ''not_applicable''
     else if cycles = 1 then ''cache_hit''
     else if cycles = 2 then ''uncached_or_through''
     else if cycles = 4 then ''cache_miss_half''
     else if cycles = 8 then ''cache_miss_full''
     else ''anomaly'')"

definition json_escape :: "string \<Rightarrow> string" where
  "json_escape input =
     concat (map (\<lambda>c. if c = quote \<or> c = CHR 0x5C then [CHR 0x5C, c] else [c]) input)"

definition estimate_local_wait_cycles ::
    "trace_record \<Rightarrow> trace_record option \<Rightarrow> arbiter_config \<Rightarrow> u32" where
  "estimate_local_wait_cycles r previous cfg =
    (case previous of None \<Rightarrow> 0
     | Some p \<Rightarrow>
       (let wait = (if tr_addr p = tr_addr r then cfg_same_address_contention cfg else 0);
            prev_master = parse_master (tr_master p);
            cur_master = parse_master (tr_master r);
            sh2_tie = (prev_master \<noteq> None \<and> cur_master \<noteq> None \<and>
              tick_first_attempt p = tick_first_attempt r \<and>
              the prev_master \<noteq> DMA \<and> the cur_master \<noteq> DMA \<and> the prev_master \<noteq> the cur_master)
        in if sh2_tie then wait + cfg_tie_turnaround cfg else wait))"

definition size_label :: "u8 \<Rightarrow> string" where
  "size_label sz =
    (if sz = 1 then ''B'' else if sz = 2 then ''W'' else if sz = 4 then ''L'' else dec_word sz)"

section \<open>Loading\<close>

record input_stats =
  total_events :: nat
  malformed_lines :: nat
  duplicate_seq_count :: nat
  non_monotonic_seq_count :: nat

definition no_stats :: input_stats where
  "no_stats = \<lparr>total_events = 0, malformed_lines = 0, duplicate_seq_count = 0,
     non_monotonic_seq_count = 0\<rparr>"

text \<open>The locals of the two loaders with what they fill.\<close>

record loader =
  loaded :: "trace_record list"
  stats :: input_stats
  seen_seq_values :: "u64 list"
  previous_seq :: "u64 option"

definition new_loader :: "trace_record list \<Rightarrow> input_stats \<Rightarrow> loader" where
  "new_loader records st = \<lparr>loaded = records, stats = st, seen_seq_values = [], previous_seq = None\<rparr>"

definition count_event :: "loader \<Rightarrow> loader" where
  "count_event l = l\<lparr>stats := (stats l)\<lparr>total_events := total_events (stats l) + 1\<rparr>\<rparr>"

definition count_malformed :: "loader \<Rightarrow> loader" where
  "count_malformed l = l\<lparr>stats := (stats l)\<lparr>malformed_lines := malformed_lines (stats l) + 1\<rparr>\<rparr>"

definition keep_record :: "trace_record \<Rightarrow> loader \<Rightarrow> loader" where
  "keep_record r l =
    (let s0 = stats l;
         s1 = (if tr_seq r \<in> set (seen_seq_values l)
               then s0\<lparr>duplicate_seq_count := duplicate_seq_count s0 + 1\<rparr> else s0);
         s2 = (case previous_seq l of
                 Some p \<Rightarrow> if tr_seq r \<le> p
                           then s1\<lparr>non_monotonic_seq_count := non_monotonic_seq_count s1 + 1\<rparr> else s1
               | None \<Rightarrow> s1)
     in \<lparr>loaded = loaded l @ [r], stats = s2,
         seen_seq_values = List.insert (tr_seq r) (seen_seq_values l),
         previous_seq = Some (tr_seq r)\<rparr>)"

definition text_of :: "u8 list \<Rightarrow> string" where
  "text_of bytes = map (\<lambda>b. char_of (unat b)) bytes"

text \<open>Repeated \<open>std::getline\<close>: a final line without a newline counts, an empty remainder does not.\<close>

function getlines :: "string \<Rightarrow> string list" where
  "getlines text =
    (if text = [] then []
     else takeWhile (\<lambda>c. c \<noteq> newline) text # getlines (drop 1 (dropWhile (\<lambda>c. c \<noteq> newline) text)))"
  by pat_completeness auto
termination
proof (relation "measure length", goal_cases)
  case (2 cs)
  then have "0 < length cs" by simp
  moreover have "length (dropWhile (\<lambda>c. c \<noteq> newline) cs) \<le> length cs" by (rule length_dropWhile_le)
  ultimately show ?case unfolding in_measure length_drop by linarith
qed simp

declare getlines.simps [simp del]

definition jsonl_line :: "loader \<Rightarrow> nat \<times> string \<Rightarrow> loader" where
  "jsonl_line l numbered =
    (case numbered of (line_number, line) \<Rightarrow>
       if line = [] then l
       else (let l = count_event l
             in case parse_record line line_number of
                  None \<Rightarrow> count_malformed l
                | Some r \<Rightarrow> keep_record r l))"

definition load_jsonl_records ::
    "u8 list option \<Rightarrow> trace_record list \<Rightarrow> input_stats \<Rightarrow> bool \<times> trace_record list \<times> input_stats" where
  "load_jsonl_records input records st =
    (case input of
       None \<Rightarrow> (False, records, st)
     | Some bytes \<Rightarrow>
       (let l = foldl jsonl_line (new_loader records st) (enumerate 1 (getlines (text_of bytes)))
        in (True, loaded l, stats l)))"

definition decode_master :: "u8 \<Rightarrow> string option" where
  "decode_master v =
    (if v = 0 then Some ''MSH2'' else if v = 1 then Some ''SSH2'' else if v = 2 then Some ''DMA'' else None)"

definition decode_rw :: "u8 \<Rightarrow> string option" where
  "decode_rw v = (if v = 0 then Some ''R'' else if v = 1 then Some ''W'' else None)"

definition decode_kind :: "u8 \<Rightarrow> string option" where
  "decode_kind v =
    (if v = 0 then Some ''ifetch'' else if v = 1 then Some ''read'' else if v = 2 then Some ''write''
     else if v = 3 then Some ''mmio_read'' else if v = 4 then Some ''mmio_write'' else None)"

record binary_record =
  raw_seq :: u64
  raw_tick_first_attempt :: u64
  raw_tick_complete :: u64
  raw_service_cycles :: u64
  raw_retries :: u64
  raw_addr :: u32
  raw_size :: u8
  raw_master :: u8
  raw_rw :: u8
  raw_kind :: u8

text \<open>
  The bytes of a record are read into the struct: five 64-bit fields, one 32-bit field and four
  bytes, little-endian and without padding (48 bytes, as the source asserts).
\<close>

definition little_endian :: "u8 list \<Rightarrow> ('w :: len) word" where
  "little_endian bytes = foldr (\<lambda>b w. ucast b OR push_bit 8 w) bytes 0"

definition field_at :: "nat \<Rightarrow> nat \<Rightarrow> u8 list \<Rightarrow> ('w :: len) word" where
  "field_at offset n bytes = little_endian (take n (drop offset bytes))"

definition raw_record :: "u8 list \<Rightarrow> binary_record" where
  "raw_record bytes =
    \<lparr>raw_seq = field_at 0 8 bytes, raw_tick_first_attempt = field_at 8 8 bytes,
     raw_tick_complete = field_at 16 8 bytes, raw_service_cycles = field_at 24 8 bytes,
     raw_retries = field_at 32 8 bytes, raw_addr = field_at 40 4 bytes,
     raw_size = field_at 44 1 bytes, raw_master = field_at 45 1 bytes,
     raw_rw = field_at 46 1 bytes, raw_kind = field_at 47 1 bytes\<rparr>"

definition binary_record_size :: nat where
  "binary_record_size = 48"

definition accept_raw :: "binary_record \<Rightarrow> nat \<Rightarrow> trace_record option" where
  "accept_raw raw index =
    (case (decode_master (raw_master raw), decode_rw (raw_rw raw), decode_kind (raw_kind raw)) of
       (Some m, Some rw, Some k) \<Rightarrow>
         if raw_size raw = 1 \<or> raw_size raw = 2 \<or> raw_size raw = 4
         then Some \<lparr>tr_seq = raw_seq raw, tr_master = m,
           tick_first_attempt = raw_tick_first_attempt raw, tick_complete = raw_tick_complete raw,
           tr_addr = raw_addr raw, addr_text = to_hex32 (raw_addr raw), tr_size = raw_size raw,
           tr_rw = rw, tr_kind = k, tr_service_cycles = ucast (raw_service_cycles raw),
           tr_retries = ucast (raw_retries raw), source_line = index + 1\<rparr>
         else None
     | _ \<Rightarrow> None)"

definition binary_step :: "nat \<Rightarrow> u8 list \<Rightarrow> loader \<Rightarrow> loader" where
  "binary_step index bytes l =
    (let l = count_event l
     in case accept_raw (raw_record bytes) index of
          None \<Rightarrow> count_malformed l
        | Some r \<Rightarrow> keep_record r l)"

function binary_records :: "u8 list \<Rightarrow> nat \<Rightarrow> loader \<Rightarrow> bool \<times> loader" where
  "binary_records bytes index l =
    (if bytes = [] then (True, l)
     else if length bytes < binary_record_size then (False, l)
     else binary_records (drop binary_record_size bytes) (index + 1)
            (binary_step index (take binary_record_size bytes) l))"
  by pat_completeness auto
termination
  by (relation "measure (\<lambda>(bytes, _). length bytes)") (auto simp: binary_record_size_def)

declare binary_records.simps [simp del]

definition header_accepted :: "u8 list \<Rightarrow> bool" where
  "header_accepted header \<longleftrightarrow>
     length header = 8 \<and> text_of (take 4 header) = ''BTR1'' \<and>
     (field_at 4 2 header :: u16) = 1 \<and>
     unat (field_at 6 2 header :: u16) = binary_record_size"

definition load_binary_records ::
    "u8 list option \<Rightarrow> trace_record list \<Rightarrow> input_stats \<Rightarrow> bool \<times> trace_record list \<times> input_stats" where
  "load_binary_records input records st =
    (case input of
       None \<Rightarrow> (False, records, st)
     | Some bytes \<Rightarrow>
       if \<not> header_accepted (take 8 bytes) then (False, records, st)
       else (case binary_records (drop 8 bytes) 0 (new_loader records st) of
               (ok, l) \<Rightarrow> (ok, loaded l, stats l)))"

definition load_input_records ::
    "(string \<Rightarrow> u8 list option) \<Rightarrow> string \<Rightarrow> trace_record list \<Rightarrow> input_stats \<Rightarrow>
     bool \<times> trace_record list \<times> input_stats" where
  "load_input_records files path records st =
    (if 4 \<le> length path \<and> drop (length path - 4) path = ''.bin''
     then load_binary_records (files path) records st
     else load_jsonl_records (files path) records st)"

section \<open>The command line\<close>

datatype option_outcome = ShowHelp | Rejected | Accepted options

text \<open>The loop over \<open>argv[1 ..]\<close>; an option that takes a value consumes the next argument.\<close>

fun parse_arguments :: "string list \<Rightarrow> options \<Rightarrow> option_outcome" where
  "parse_arguments [] opts = (if input_path opts = [] then Rejected else Accepted opts)"
| "parse_arguments (arg # rest) opts =
    (if arg = ''--help'' \<or> arg = ''-h'' then ShowHelp
     else if arg = ''--annotated-output'' then
       (case rest of [] \<Rightarrow> Rejected
        | v # rest' \<Rightarrow> parse_arguments rest' (opts\<lparr>annotated_output_path := Some v\<rparr>))
     else if arg = ''--summary-output'' then
       (case rest of [] \<Rightarrow> Rejected
        | v # rest' \<Rightarrow> parse_arguments rest' (opts\<lparr>summary_output_path := Some v\<rparr>))
     else if arg = ''--summary-only'' then parse_arguments rest (opts\<lparr>summary_only := True\<rparr>)
     else if arg = ''--include-model-comparison'' then
       parse_arguments rest (opts\<lparr>include_model_comparison := True\<rparr>)
     else if arg = ''--annotated-limit'' then
       (case rest of [] \<Rightarrow> Rejected
        | v # rest' \<Rightarrow>
          (case parse_u64 v of None \<Rightarrow> Rejected
           | Some n \<Rightarrow> parse_arguments rest' (opts\<lparr>annotated_limit := Some (unat n)\<rparr>)))
     else if arg = ''--top'' \<or> arg = ''--top-k'' then
       (case rest of [] \<Rightarrow> Rejected
        | v # rest' \<Rightarrow>
          (case parse_u64 v of None \<Rightarrow> Rejected
           | Some n \<Rightarrow> parse_arguments rest' (opts\<lparr>top_k := unat n\<rparr>)))
     else if arg \<noteq> [] \<and> hd arg \<noteq> CHR ''-'' then parse_arguments rest (opts\<lparr>input_path := arg\<rparr>)
     else Rejected)"

definition parse_options :: "string list \<Rightarrow> option_outcome" where
  "parse_options arguments =
    (if arguments = [] then Rejected else parse_arguments arguments default_options)"

section \<open>The dataset of a replay\<close>

text \<open>\<open>std::map\<close> is a red-black tree in the order of its keys, strings of unsigned characters.\<close>

type_synonym 'v table = "(string, 'v) RBT.rbt"
type_synonym distribution = "nat table"

definition bump :: "string \<Rightarrow> distribution \<Rightarrow> distribution" where
  "bump k m = RBT.insert k (case RBT.lookup m k of None \<Rightarrow> 1 | Some n \<Rightarrow> n + 1) m"

record dataset =
  filtered_records :: "trace_record list"
  master_distribution :: distribution
  region_distribution :: distribution
  size_distribution :: distribution
  rw_distribution :: distribution
  access_kind_distribution :: distribution
  master_region_distribution :: distribution
  cache_bucket_distribution :: distribution
  master_region_kind_bucket_distribution :: distribution
  excluded_reason_counts :: distribution
  known_gap_bucket_counts :: distribution

definition no_dataset :: dataset where
  "no_dataset = \<lparr>filtered_records = [], master_distribution = RBT.empty,
     region_distribution = RBT.empty, size_distribution = RBT.empty, rw_distribution = RBT.empty,
     access_kind_distribution = RBT.empty, master_region_distribution = RBT.empty,
     cache_bucket_distribution = RBT.empty, master_region_kind_bucket_distribution = RBT.empty,
     excluded_reason_counts = RBT.empty, known_gap_bucket_counts = RBT.empty\<rparr>"

text \<open>The comparator of \<open>std::stable_sort\<close> is the lexicographic order of these pairs.\<close>

definition replay_order :: "trace_record list \<Rightarrow> trace_record list" where
  "replay_order records = sort_key (\<lambda>r. (tick_complete r, tr_seq r)) records"

definition include_record :: "dataset \<Rightarrow> trace_record \<Rightarrow> dataset" where
  "include_record d r =
    (if parse_master (tr_master r) = None
     then d\<lparr>excluded_reason_counts := bump ''invalid_master'' (excluded_reason_counts d)\<rparr>
     else let region = region_name (tr_addr r);
              bucket = classify_cache_bucket (tr_addr r) (tr_service_cycles r)
      in d\<lparr>filtered_records := filtered_records d @ [r],
           master_distribution := bump (tr_master r) (master_distribution d),
           region_distribution := bump region (region_distribution d),
           size_distribution := bump (size_label (tr_size r)) (size_distribution d),
           rw_distribution := bump (tr_rw r) (rw_distribution d),
           access_kind_distribution := bump (tr_kind r) (access_kind_distribution d),
           master_region_distribution :=
             bump (tr_master r @ '' | '' @ region) (master_region_distribution d),
           cache_bucket_distribution := bump bucket (cache_bucket_distribution d),
           master_region_kind_bucket_distribution :=
             bump (tr_master r @ '' | '' @ region @ '' | '' @ tr_kind r @ '' | '' @ bucket)
               (master_region_kind_bucket_distribution d),
           known_gap_bucket_counts :=
             (if tr_size r = 1
              then bump ''byte_access_wait_check_gap_candidate'' (known_gap_bucket_counts d)
              else known_gap_bucket_counts d)\<rparr>)"

definition add_count :: "string \<Rightarrow> nat \<Rightarrow> distribution \<Rightarrow> distribution" where
  "add_count k n m = RBT.insert k (case RBT.lookup m k of None \<Rightarrow> n | Some c \<Rightarrow> c + n) m"

definition build_dataset :: "trace_record list \<Rightarrow> input_stats \<Rightarrow> dataset" where
  "build_dataset records st =
    (let d = foldl include_record no_dataset (replay_order records)
     in d\<lparr>excluded_reason_counts :=
            add_count ''malformed_line'' (malformed_lines st) (excluded_reason_counts d)\<rparr>)"

definition excluded_events :: "dataset \<Rightarrow> input_stats \<Rightarrow> nat" where
  "excluded_events d st =
    (if total_events st \<ge> length (filtered_records d)
     then total_events st - length (filtered_records d) else 0)"

text \<open>
  The first ten fields of a row of the annotated output; the report's own fields follow after a comma.
\<close>

definition text_field :: "string \<Rightarrow> string \<Rightarrow> string" where
  "text_field key v = [quote] @ key @ [quote] @ '':'' @ [quote] @ json_escape v @ [quote]"

definition number_field :: "string \<Rightarrow> string \<Rightarrow> string" where
  "number_field key v = [quote] @ key @ [quote] @ '':'' @ v"

definition annotated_row_head :: "trace_record \<Rightarrow> string" where
  "annotated_row_head r = ''{'' @
     number_field ''seq'' (dec_word (tr_seq r)) @ '','' @
     text_field ''master'' (tr_master r) @ '','' @
     number_field ''tick_first_attempt'' (dec_word (tick_first_attempt r)) @ '','' @
     number_field ''tick_complete'' (dec_word (tick_complete r)) @ '','' @
     text_field ''addr'' (addr_text r) @ '','' @
     number_field ''size'' (dec_word (tr_size r)) @ '','' @
     text_field ''rw'' (tr_rw r) @ '','' @
     text_field ''kind'' (tr_kind r) @ '','' @
     number_field ''service_cycles'' (dec_word (tr_service_cycles r)) @ '','' @
     number_field ''retries'' (dec_word (tr_retries r))"

section \<open>Printing and parsing numbers\<close>

lemma digit_value_digit_char [simp]: "d < 10 \<Longrightarrow> digit_value (digit_char d) = Some d"
  by (simp add: digit_value_def digit_char_def Let_def)

lemma digit_char_not_quote [simp]: "d < 10 \<Longrightarrow> digit_char d \<noteq> quote"
  by (auto simp: digit_char_def dest: arg_cong [where f = "of_char :: char \<Rightarrow> nat"])

lemma numeral_value_append:
  "numeral_value b (xs @ ys) = foldl (\<lambda>v c. v * b + the (digit_value c)) (numeral_value b xs) ys"
  by (simp add: numeral_value_def)

lemma dec_not_empty [simp]: "dec n \<noteq> []"
  by (subst dec.simps) simp

lemma is_digit_digit_char [simp]: "d < 10 \<Longrightarrow> is_digit 10 (digit_char d)"
  by (simp add: is_digit_def)

lemma dec_digits: "list_all (is_digit 10) (dec n)"
proof (induction n rule: dec.induct)
  case (1 n)
  then show ?case
    by (subst dec.simps) simp
qed

lemma dec_value [simp]: "numeral_value 10 (dec n) = n"
proof (induction n rule: dec.induct)
  case (1 n)
  then show ?case
    by (subst dec.simps) (auto simp: numeral_value_append, simp add: numeral_value_def)
qed

lemma from_chars_all:
  assumes "list_all (is_digit b) cs" "cs \<noteq> []" "numeral_value b cs < limit"
  shows "from_chars b limit cs = Some (numeral_value b cs, [])"
  using assms by (simp add: from_chars_def list_all_iff takeWhile_eq_all_conv [THEN iffD2])

lemma from_chars_whole:
  "from_chars b limit cs = Some (v, []) \<longleftrightarrow>
     list_all (is_digit b) cs \<and> cs \<noteq> [] \<and> v = numeral_value b cs \<and> v < limit"
proof
  assume "from_chars b limit cs = Some (v, [])"
  then have "\<forall>c \<in> set cs. is_digit b c" and "takeWhile (is_digit b) cs \<noteq> []"
    and "numeral_value b (takeWhile (is_digit b) cs) < limit"
    and "v = numeral_value b (takeWhile (is_digit b) cs)"
    by (auto simp: from_chars_def Let_def split: if_splits)
  moreover have "takeWhile (is_digit b) cs = cs"
    using \<open>\<forall>c \<in> set cs. is_digit b c\<close> by (simp add: takeWhile_eq_all_conv)
  ultimately show "list_all (is_digit b) cs \<and> cs \<noteq> [] \<and> v = numeral_value b cs \<and> v < limit"
    by (simp add: list_all_iff)
qed (use from_chars_all in auto)

lemma parse_u64_iff:
  "parse_u64 s = Some w \<longleftrightarrow> s \<noteq> [] \<and> list_all (is_digit 10) s \<and> numeral_value 10 s = unat w"
proof
  assume "parse_u64 s = Some w"
  then obtain v where "from_chars 10 (2 ^ 64) s = Some (v, [])" and w: "w = of_nat v"
    by (auto simp: parse_u64_def split: option.splits prod.splits list.splits)
  then show "s \<noteq> [] \<and> list_all (is_digit 10) s \<and> numeral_value 10 s = unat w"
    by (simp add: from_chars_whole unat_of_nat take_bit_nat_eq_self)
next
  assume a: "s \<noteq> [] \<and> list_all (is_digit 10) s \<and> numeral_value 10 s = unat w"
  then have "from_chars 10 (2 ^ 64) s = Some (unat w, [])"
    using unsigned_less [of w] by (simp add: from_chars_whole)
  then show "parse_u64 s = Some w" by (simp add: parse_u64_def)
qed

lemma parse_u64_dec_word [simp]:
  fixes w :: "('w :: len) word"
  assumes "LENGTH('w) \<le> 64"
  shows "parse_u64 (dec_word w) = Some (ucast w)"
proof -
  have "unat w < 2 ^ 64"
    by (rule less_le_trans [OF unsigned_less power_increasing [OF assms]]) simp
  then have "unat (ucast w :: u64) = unat w"
    by (simp add: unsigned_ucast_eq take_bit_nat_eq_self)
  then show ?thesis
    by (simp add: parse_u64_iff dec_word_def dec_digits)
qed

subsection \<open>Hexadecimal\<close>

lemma below_16: "d < 16 \<Longrightarrow> d \<in> set [0..<16]" for d :: nat
  by simp

lemma hex_digit_value [simp]: "d < 16 \<Longrightarrow> digit_value (hex_digit d) = Some d"
  by (drule below_16) (auto simp: upt_rec hex_digit_def digit_value_def)

lemma hex_digits_value:
  "numeral_value 16 (map (\<lambda>i. hex_digit (n div 16 ^ i mod 16)) (rev [0..<k])) = n mod 16 ^ k"
proof (induction k arbitrary: n)
  case (Suc k)
  have "rev [0..<Suc k] = map Suc (rev [0..<k]) @ [0]"
    by (simp add: upt_conv_Cons rev_map [symmetric] map_Suc_upt del: upt_Suc)
  then have "numeral_value 16 (map (\<lambda>i. hex_digit (n div 16 ^ i mod 16)) (rev [0..<Suc k])) =
      numeral_value 16 (map (\<lambda>i. hex_digit (n div 16 div 16 ^ i mod 16)) (rev [0..<k])) * 16 + n mod 16"
    by (simp add: numeral_value_append o_def div_mult2_eq)
  also have "\<dots> = n mod 16 ^ Suc k"
    by (simp add: Suc.IH mod_mult2_eq)
  finally show ?case .
qed (simp add: numeral_value_def)

lemma hex_nibble: "unat (drop_bit (i * 4) (w :: u32) AND 0xF) = unat w div 16 ^ i mod 16"
proof -
  have "drop_bit (i * 4) w AND 0xF = take_bit 4 (drop_bit (i * 4) w)"
    by (simp only: take_bit_eq_mask) (simp add: mask_eq_exp_minus_1)
  moreover have "unat (take_bit 4 (drop_bit (i * 4) w)) = take_bit 4 (drop_bit (i * 4) (unat w))"
    by (simp only: unsigned_take_bit_eq unsigned_drop_bit_eq) (simp add: take_bit_nat_eq_self unat_u32_less)
  moreover have "(2 :: nat) ^ (i * 4) = 16 ^ i"
    by (simp add: power_mult mult.commute [of i])
  ultimately show ?thesis
    by (simp only: take_bit_eq_mod drop_bit_eq_div) simp
qed

lemma to_hex32_eq:
  "to_hex32 w = ''0x'' @ map (\<lambda>i. hex_digit (unat w div 16 ^ i mod 16)) (rev [0..<8])"
  by (simp only: to_hex32_def hex_nibble)

lemma parse_addr_to_hex32: "parse_addr (to_hex32 w) = Some w"
proof -
  let ?h = "map (\<lambda>i. hex_digit (unat w div 16 ^ i mod 16)) (rev [0..<8])"
  have v: "numeral_value 16 ?h = unat w"
    using unat_u32_less [of w] by (simp only: hex_digits_value) simp
  have "from_chars 16 (2 ^ 32) ?h = Some (unat w, [])"
    unfolding from_chars_whole v
    using unat_u32_less [of w] by (simp add: list_all_iff is_digit_def)
  moreover have "to_hex32 w = ''0x'' @ ?h" by (rule to_hex32_eq)
  ultimately show ?thesis
    by (simp only: parse_addr_def) simp
qed

section \<open>Reading a field back\<close>

text \<open>The search as a recursion on the remaining text, which carries the proofs.\<close>

fun locate :: "string \<Rightarrow> string \<Rightarrow> string option" where
  "locate needle [] = None"
| "locate needle (c # cs) =
    (if take (length needle) (c # cs) = needle then Some (c # cs) else locate needle cs)"

definition value_at :: "string \<Rightarrow> string option" where
  "value_at t =
    (case dropWhile (\<lambda>c. c = CHR '' '' \<or> c = tab) t of
       [] \<Rightarrow> None
     | c # rest \<Rightarrow>
       if c = quote
       then (if quote \<in> set rest then Some (takeWhile (\<lambda>c. c \<noteq> quote) rest) else None)
       else Some (takeWhile (\<lambda>c. c \<noteq> CHR '','' \<and> c \<noteq> CHR ''}'') (c # rest)))"

lemma find_text_step:
  "find_text n h p =
    (if p < length h then if take (length n) (drop p h) = n then Some p else find_text n h (Suc p)
     else None)"
  by (simp add: find_text_def upt_conv_Cons)

lemma find_text_locate:
  "find_text n h p = map_option (\<lambda>s. length h - length s) (locate n (drop p h))"
proof (induction "drop p h" arbitrary: p)
  case Nil
  then show ?case by (subst find_text_step) simp
next
  case (Cons c cs)
  then have l: "p < length h" and cs: "cs = drop (Suc p) h"
    by (metis drop_all list.distinct(1) not_le, metis drop_Suc drop_tl list.sel(3))
  have "find_text n h p =
      (if take (length n) (c # cs) = n then Some p else find_text n h (Suc p))"
    by (subst find_text_step) (simp add: l Cons.hyps(2))
  moreover have "length h - length (c # cs) = p"
    using l by (simp add: Cons.hyps(2))
  moreover have "find_text n h (Suc p) = map_option (\<lambda>s. length h - length s) (locate n (drop (Suc p) h))"
    using cs by (rule Cons.hyps(1))
  ultimately show ?case
    by (simp add: Cons.hyps(2) [symmetric] flip: cs)
qed

lemma locate_suffix: "locate n h = Some s \<Longrightarrow> \<exists>k \<le> length h. s = drop k h"
proof (induction h)
  case (Cons c h)
  show ?case
  proof (cases "take (length n) (c # h) = n")
    case True
    then show ?thesis using Cons.prems by (intro exI [of _ 0]) simp
  next
    case False
    then obtain k where "k \<le> length h" "s = drop k h"
      using Cons by auto
    then show ?thesis by (intro exI [of _ "Suc k"]) simp
  qed
qed simp

lemma locate_not_empty: "locate n h \<noteq> Some []"
  by (induction h) auto

lemma drop_located: "locate n h = Some s \<Longrightarrow> drop (length h - length s + k) h = drop k s"
  by (drule locate_suffix) (auto simp: add.commute)

lemma find_value_span_locate:
  "find_value_span line key =
    (case locate ([quote] @ key @ [quote]) line of None \<Rightarrow> None
     | Some s \<Rightarrow>
       (case locate '':'' (drop (length key + 2) s) of None \<Rightarrow> None | Some t \<Rightarrow> value_at (tl t)))"
proof (cases "locate ([quote] @ key @ [quote]) line")
  case (Some s)
  let ?p = "length line - length s + (length key + 2)"
  have d: "drop ?p line = drop (length key + 2) s"
    by (rule drop_located [OF Some])
  note D = drop_located [OF Some]
  show ?thesis
  proof (cases "locate '':'' (drop (length key + 2) s)")
    case (Some t)
    have "drop (length line - length t + 1) line = tl t"
    proof -
      obtain k where "t = drop k (drop (length key + 2) s)"
        using locate_suffix [OF Some] by auto
      then have "t = drop (length line - length s + (k + (length key + 2))) line"
        by (simp only: D drop_drop)
      then have "t = drop (k + ?p) line" by (simp only: ac_simps)
      moreover have "t \<noteq> []"
        using Some by (auto simp: locate_not_empty)
      ultimately have "length line - length t = k + ?p" "t = drop (k + ?p) line" by auto
      then show ?thesis by (simp add: drop_Suc tl_drop)
    qed
    then show ?thesis
      using \<open>locate ([quote] @ key @ [quote]) line = Some s\<close> Some d
      by (simp add: find_value_span_def find_text_locate value_at_def)
  qed (use Some d in \<open>simp add: find_value_span_def find_text_locate\<close>)
qed (simp add: find_value_span_def find_text_locate)

text \<open>
  A search for a quoted key skips text without quotes, and skips a quoted string that is another text.
\<close>

abbreviation quoted :: "string \<Rightarrow> string" where
  "quoted s \<equiv> [quote] @ s @ [quote]"

lemma locate_unquoted:
  "quote \<notin> set u \<Longrightarrow> locate (quoted key) (u @ h) = locate (quoted key) h"
  by (induction u) auto

lemma take_eq_quoted:
  assumes "quote \<notin> set s" "quote \<notin> set key"
  shows "take (Suc (length key)) (s @ quote # h) = key @ [quote] \<longleftrightarrow> s = key"
proof
  assume "take (Suc (length key)) (s @ quote # h) = key @ [quote]"
  then have "s @ quote # h = key @ quote # drop (Suc (length key)) (s @ quote # h)"
    by (metis append.assoc append_Cons append_Nil append_take_drop_id)
  moreover have "takeWhile (\<lambda>c. c \<noteq> quote) (s @ quote # h) = s"
    and "takeWhile (\<lambda>c. c \<noteq> quote) (key @ quote # drop (Suc (length key)) (s @ quote # h)) = key"
    using assms by (auto simp: takeWhile_append)
  ultimately show "s = key" by simp
qed simp

lemma locate_quoted:
  assumes "quote \<notin> set s" "quote \<notin> set key"
  shows "locate (quoted key) (quote # s @ quote # h) =
    (if s = key then Some (quote # s @ quote # h) else locate (quoted key) (quote # h))"
proof -
  have "locate (quoted key) (s @ quote # h) = locate (quoted key) (quote # h)"
    using assms(1) by (rule locate_unquoted)
  then show ?thesis
    using take_eq_quoted [OF assms, of h] by (simp del: take_append)
qed

definition starts_quoted :: "string \<Rightarrow> bool" where
  "starts_quoted h \<longleftrightarrow> take 1 h = [quote]"

definition plain :: "string \<Rightarrow> bool" where
  "plain s \<longleftrightarrow> list_all (\<lambda>c. c \<noteq> quote \<and> c \<noteq> CHR 0x5C) s"

lemma starts_quoted_field [simp]:
  "starts_quoted (number_field k v @ h)" "starts_quoted (text_field k v @ h)"
  "starts_quoted (number_field k v)"
  by (simp_all add: starts_quoted_def number_field_def text_field_def)

lemma starts_quotedD: "starts_quoted h \<Longrightarrow> \<exists>t. h = quote # t"
  by (cases h) (auto simp: starts_quoted_def)

lemma plain_no_quote: "plain s \<Longrightarrow> quote \<notin> set s"
  by (auto simp: plain_def list_all_iff)

lemma plain_escape: "plain s \<Longrightarrow> json_escape s = s"
  by (induction s) (auto simp: plain_def json_escape_def)

lemma locate_skip:
  assumes "plain k" "plain key" "k \<noteq> key"
  shows "locate (quoted key) (quote # k @ quote # h) = locate (quoted key) (quote # h)"
  by (simp only: locate_quoted [OF plain_no_quote [OF assms(1)] plain_no_quote [OF assms(2)]] assms if_False)

definition seek :: "string \<Rightarrow> string \<Rightarrow> string option" where
  "seek key h = locate (quoted key) h"

lemma skip_number:
  assumes "plain k" "plain key" "plain v" "k \<noteq> key" "hd key \<noteq> CHR '':''" "starts_quoted h"
  shows "seek key (number_field k v @ CHR '','' # h) = seek key h"
proof -
  obtain t where h: "h = quote # t" using assms(6) starts_quotedD by blast
  have "locate (quoted key) (number_field k v @ CHR '','' # h) =
      locate (quoted key) (quote # ('':'' @ v @ '','') @ quote # t)"
    using locate_skip [OF assms(1,2,4), of "'':'' @ v @ '','' @ h"] by (simp add: number_field_def h)
  also have "\<dots> = locate (quoted key) (quote # t)"
    using assms(2,3,5) by (intro locate_skip) (auto simp: plain_def)
  finally show ?thesis by (simp only: h seek_def)
qed

lemma skip_text:
  assumes "plain k" "plain key" "plain v" "k \<noteq> key" "v \<noteq> key" "hd key \<noteq> CHR '':''" "hd key \<noteq> CHR '',''"
    and "starts_quoted h"
  shows "seek key (text_field k v @ CHR '','' # h) = seek key h"
proof -
  obtain t where h: "h = quote # t" using assms(8) starts_quotedD by blast
  have "locate (quoted key) (text_field k v @ CHR '','' # h) =
      locate (quoted key) (quote # '':'' @ quote # v @ quote # '','' @ h)"
    using locate_skip [OF assms(1,2,4), of "'':'' @ quote # v @ quote # '','' @ h"] assms(3)
    by (simp add: text_field_def plain_escape)
  also have "\<dots> = locate (quoted key) (quote # v @ quote # '','' @ h)"
    using assms(2,6) by (intro locate_skip) (auto simp: plain_def)
  also have "\<dots> = locate (quoted key) (quote # '','' @ h)"
    using assms by (intro locate_skip)
  also have "\<dots> = locate (quoted key) h"
    unfolding h using assms(2,7) by (intro locate_skip) (auto simp: plain_def)
  finally show ?thesis unfolding seek_def .
qed

lemma seek_brace: "seek key (CHR ''{'' # h) = seek key h"
  by (simp add: seek_def)

lemma find_number:
  "quote \<notin> set k \<Longrightarrow> seek k (number_field k v @ h) = Some (number_field k v @ h)"
  by (simp add: seek_def number_field_def)

lemma find_text_field:
  "quote \<notin> set k \<Longrightarrow> seek k (text_field k v @ h) = Some (text_field k v @ h)"
  by (simp add: seek_def text_field_def)

lemma span_number:
  assumes "seek key line = Some (number_field key v @ CHR '','' # h)"
    and "list_all (is_digit 10) v" "v \<noteq> []"
  shows "find_value_span line key = Some v"
proof -
  have d: "c \<noteq> CHR '','' \<and> c \<noteq> CHR ''}'' \<and> c \<noteq> CHR '' '' \<and> c \<noteq> tab \<and> c \<noteq> quote" if "c \<in> set v" for c
    using assms(2) that by (auto simp: list_all_iff is_digit_def digit_value_def)
  obtain c cs where v: "v = c # cs" using assms(3) by (cases v) auto
  then have "value_at (v @ CHR '','' # h) = Some v"
    using d by (simp add: value_at_def takeWhile_append)
  then show ?thesis
    using assms(1) by (simp add: find_value_span_locate seek_def number_field_def)
qed

lemma span_text:
  assumes "seek key line = Some (text_field key v @ h)" "plain v"
  shows "find_value_span line key = Some v"
proof -
  have "value_at (quote # v @ quote # h) = Some v"
    using plain_no_quote [OF assms(2)] by (auto simp: value_at_def takeWhile_append)
  then show ?thesis
    using assms by (simp add: find_value_span_locate seek_def text_field_def plain_escape)
qed

lemma dec_word_field: "list_all (is_digit 10) (dec_word w)" "dec_word w \<noteq> []" "plain (dec_word w)"
proof -
  show d: "list_all (is_digit 10) (dec_word w)" and "dec_word w \<noteq> []"
    by (simp_all add: dec_word_def dec_digits)
  show "plain (dec_word w)"
    using d by (auto simp: plain_def list_all_iff is_digit_def digit_value_def)
qed

lemma hex_digit_plain: "d < 16 \<Longrightarrow> hex_digit d \<noteq> quote \<and> hex_digit d \<noteq> CHR 0x5C"
  using hex_digit_value [of d] by (auto simp: digit_value_def)

lemma to_hex32_plain: "plain (to_hex32 w)"
  unfolding to_hex32_eq plain_def by (simp add: hex_digit_plain list_all_iff)

text \<open>What the binary loader accepts, as the texts of a row see it.\<close>

lemma decode_results:
  "decode_master v = Some m \<Longrightarrow> m \<in> {''MSH2'', ''SSH2'', ''DMA''}"
  "decode_rw v = Some w \<Longrightarrow> w \<in> {''R'', ''W''}"
  "decode_kind v = Some k \<Longrightarrow> k \<in> {''ifetch'', ''read'', ''write'', ''mmio_read'', ''mmio_write''}"
  unfolding decode_master_def decode_rw_def decode_kind_def
  by (simp_all split: if_splits)

lemma accept_rawE:
  assumes "accept_raw raw i = Some r"
  obtains m w k where "decode_master (raw_master raw) = Some m" "decode_rw (raw_rw raw) = Some w"
    "decode_kind (raw_kind raw) = Some k" "raw_size raw = 1 \<or> raw_size raw = 2 \<or> raw_size raw = 4"
    "r = \<lparr>tr_seq = raw_seq raw, tr_master = m,
       tick_first_attempt = raw_tick_first_attempt raw, tick_complete = raw_tick_complete raw,
       tr_addr = raw_addr raw, addr_text = to_hex32 (raw_addr raw), tr_size = raw_size raw,
       tr_rw = w, tr_kind = k, tr_service_cycles = ucast (raw_service_cycles raw),
       tr_retries = ucast (raw_retries raw), source_line = i + 1\<rparr>"
  using assms unfolding accept_raw_def by (simp split: option.splits if_split_asm)

lemma accept_rawD:
  assumes "accept_raw raw i = Some r"
  shows "tr_master r \<in> {''MSH2'', ''SSH2'', ''DMA''}" "tr_rw r \<in> {''R'', ''W''}"
    "tr_kind r \<in> {''ifetch'', ''read'', ''write'', ''mmio_read'', ''mmio_write''}"
    "addr_text r = to_hex32 (tr_addr r)" "source_line r = i + 1"
  by (rule accept_rawE [OF assms], simp only: trace_record.select_convs decode_results)+

lemma texts_plain:
  "m \<in> {''MSH2'', ''SSH2'', ''DMA''} \<Longrightarrow> plain m"
  "w \<in> {''R'', ''W''} \<Longrightarrow> plain w"
  "k \<in> {''ifetch'', ''read'', ''write'', ''mmio_read'', ''mmio_write''} \<Longrightarrow> plain k"
  by (auto simp: plain_def)

lemma plain_keys:
  "plain ''seq''" "plain ''master''" "plain ''tick_first_attempt''" "plain ''tick_complete''"
  "plain ''addr''" "plain ''size''" "plain ''rw''" "plain ''kind''" "plain ''service_cycles''"
  "plain ''retries''"
  by (simp_all add: plain_def)

text \<open>The keys of a record, none of which is the text of a field.\<close>

definition record_key :: "string \<Rightarrow> bool" where
  "record_key key \<longleftrightarrow> plain key \<and>
     hd key \<notin> {CHR '':'', CHR '','', CHR ''0'', CHR ''M'', CHR ''S'', CHR ''D'', CHR ''R'', CHR ''W''} \<and>
     key \<notin> {''ifetch'', ''read'', ''write'', ''mmio_read'', ''mmio_write''}"

lemma record_keys:
  "record_key ''seq''" "record_key ''master''" "record_key ''tick_first_attempt''"
  "record_key ''tick_complete''" "record_key ''addr''" "record_key ''size''" "record_key ''rw''"
  "record_key ''kind''" "record_key ''service_cycles''" "record_key ''retries''"
  by (simp_all add: record_key_def plain_def)

lemma hd_to_hex32: "hd (to_hex32 a) = CHR ''0''"
  unfolding to_hex32_def by (simp only: append_Cons list.sel)

lemma key_not_value:
  assumes "record_key key"
  shows "m \<in> {''MSH2'', ''SSH2'', ''DMA''} \<Longrightarrow> m \<noteq> key"
    and "w \<in> {''R'', ''W''} \<Longrightarrow> w \<noteq> key"
    and "k \<in> {''ifetch'', ''read'', ''write'', ''mmio_read'', ''mmio_write''} \<Longrightarrow> k \<noteq> key"
    and "to_hex32 a \<noteq> key"
proof -
  have h: "hd key \<notin> {CHR '':'', CHR '','', CHR ''0'', CHR ''M'', CHR ''S'', CHR ''D'', CHR ''R'', CHR ''W''}"
    and k: "key \<notin> {''ifetch'', ''read'', ''write'', ''mmio_read'', ''mmio_write''}"
    using assms by (simp_all only: record_key_def simp_thms)
  show "m \<in> {''MSH2'', ''SSH2'', ''DMA''} \<Longrightarrow> m \<noteq> key"
    and "w \<in> {''R'', ''W''} \<Longrightarrow> w \<noteq> key"
    using h by fastforce+
  show "k \<in> {''ifetch'', ''read'', ''write'', ''mmio_read'', ''mmio_write''} \<Longrightarrow> k \<noteq> key"
    using k by (rule contrapos_nn) (simp only:)
  show "to_hex32 a \<noteq> key"
    using h hd_to_hex32 [of a] by (metis insertI1 insertI2)
qed

text \<open>A row as the list of its fields: the key, whether it is a number, the value.\<close>

fun row_text :: "(string \<times> bool \<times> string) list \<Rightarrow> string \<Rightarrow> string" where
  "row_text [] tail = tail"
| "row_text ((k, numeric, v) # fs) tail =
    (if numeric then number_field k v else text_field k v) @ CHR '','' # row_text fs tail"

definition field_ok :: "string \<Rightarrow> string \<times> bool \<times> string \<Rightarrow> bool" where
  "field_ok key f = (case f of (k, numeric, v) \<Rightarrow> plain k \<and> plain v \<and>
     (if numeric then list_all (is_digit 10) v \<and> v \<noteq> [] else v \<noteq> key))"

lemma row_starts_quoted: "fs \<noteq> [] \<Longrightarrow> starts_quoted (row_text fs tail)"
  by (cases fs) auto

lemma row_lookup:
  assumes "record_key key" "list_all (field_ok key) fs" "map_of fs key = Some (numeric, v)"
    and "seek key line = seek key (row_text fs tail)"
  shows "find_value_span line key = Some v"
  using assms(2-4)
proof (induction fs)
  case (Cons f fs)
  obtain k n u where f: "f = (k, n, u)" by (cases f)
  have ok: "plain k" "plain u" "n \<Longrightarrow> list_all (is_digit 10) u" "n \<Longrightarrow> u \<noteq> []" "\<not> n \<Longrightarrow> u \<noteq> key"
    using Cons.prems(1) by (auto simp: f field_ok_def)
  show ?case
  proof (cases "k = key")
    case True
    then have v: "n = numeric" "u = v" using Cons.prems(2) by (auto simp: f)
    have q: "quote \<notin> set key" using assms(1) by (simp add: record_key_def plain_no_quote)
    show ?thesis
    proof (cases n)
      case n: True
      then have "seek key line = Some (number_field key v @ CHR '','' # row_text fs tail)"
        using Cons.prems(3) True v find_number [OF q] by (simp add: f)
      then show ?thesis by (rule span_number) (use ok n v in simp_all)
    next
      case n: False
      then have "seek key line = Some (text_field key v @ CHR '','' # row_text fs tail)"
        using Cons.prems(3) True v find_text_field [OF q] by (simp add: f)
      then show ?thesis by (rule span_text) (use ok v in simp)
    qed
  next
    case False
    then have m: "map_of fs key = Some (numeric, v)" using Cons.prems(2) by (simp add: f)
    then have s: "starts_quoted (row_text fs tail)" by (intro row_starts_quoted) auto
    have "seek key (row_text (f # fs) tail) = seek key (row_text fs tail)"
    proof (cases n)
      case True
      show ?thesis unfolding f row_text.simps if_P [OF True]
        by (rule skip_number) (use assms(1) ok s False in \<open>auto simp: record_key_def\<close>)
    next
      case n: False
      show ?thesis unfolding f row_text.simps if_not_P [OF n]
        by (rule skip_text) (use assms(1) ok(1,2) ok(5) [OF n] s False in \<open>auto simp: record_key_def\<close>)
    qed
    then show ?thesis
      using Cons.IH m Cons.prems(1,3) by simp
  qed
qed simp

definition record_fields :: "trace_record \<Rightarrow> (string \<times> bool \<times> string) list" where
  "record_fields r =
    [(''seq'', True, dec_word (tr_seq r)),
     (''master'', False, tr_master r),
     (''tick_first_attempt'', True, dec_word (tick_first_attempt r)),
     (''tick_complete'', True, dec_word (tick_complete r)),
     (''addr'', False, addr_text r),
     (''size'', True, dec_word (tr_size r)),
     (''rw'', False, tr_rw r),
     (''kind'', False, tr_kind r),
     (''service_cycles'', True, dec_word (tr_service_cycles r)),
     (''retries'', True, dec_word (tr_retries r))]"

lemma record_lookup:
  "map_option snd (map_of (record_fields r) ''seq'') = Some (dec_word (tr_seq r))"
  "map_option snd (map_of (record_fields r) ''master'') = Some (tr_master r)"
  "map_option snd (map_of (record_fields r) ''tick_first_attempt'') = Some (dec_word (tick_first_attempt r))"
  "map_option snd (map_of (record_fields r) ''tick_complete'') = Some (dec_word (tick_complete r))"
  "map_option snd (map_of (record_fields r) ''addr'') = Some (addr_text r)"
  "map_option snd (map_of (record_fields r) ''size'') = Some (dec_word (tr_size r))"
  "map_option snd (map_of (record_fields r) ''rw'') = Some (tr_rw r)"
  "map_option snd (map_of (record_fields r) ''kind'') = Some (tr_kind r)"
  "map_option snd (map_of (record_fields r) ''service_cycles'') = Some (dec_word (tr_service_cycles r))"
  "map_option snd (map_of (record_fields r) ''retries'') = Some (dec_word (tr_retries r))"
  by (simp_all add: record_fields_def)

lemma annotated_row_fields: "annotated_row_head r @ '','' @ tail = CHR ''{'' # row_text (record_fields r) tail"
  by (simp add: annotated_row_head_def record_fields_def)

lemma row_field:
  assumes "tr_master r \<in> {''MSH2'', ''SSH2'', ''DMA''}" "tr_rw r \<in> {''R'', ''W''}"
    "tr_kind r \<in> {''ifetch'', ''read'', ''write'', ''mmio_read'', ''mmio_write''}"
    "addr_text r = to_hex32 (tr_addr r)" "record_key key"
    and "map_of (record_fields r) key = Some (numeric, v)"
  shows "find_value_span (annotated_row_head r @ '','' @ tail) key = Some v"
proof (rule row_lookup [OF assms(5) _ assms(6)])
  note p = texts_plain(1) [OF assms(1)] texts_plain(2) [OF assms(2)] texts_plain(3) [OF assms(3)]
    to_hex32_plain
  note d = key_not_value(1) [OF assms(5,1)] key_not_value(2) [OF assms(5,2)]
    key_not_value(3) [OF assms(5,3)] key_not_value(4) [OF assms(5)]
  show "list_all (field_ok key) (record_fields r)"
    unfolding record_fields_def assms(4)
    by (simp add: field_ok_def p d dec_word_field plain_keys)
  show "seek key (annotated_row_head r @ '','' @ tail) = seek key (row_text (record_fields r) tail)"
    unfolding annotated_row_fields by (rule seek_brace)
qed

text \<open>
  The two input formats agree: a record the binary loader accepts, written as a row of the
  annotated output, is read back by the JSON-lines parser as the same record, whatever the report
  appends to the row.
\<close>

theorem annotated_row_round_trip:
  assumes "accept_raw raw index = Some r"
  shows "parse_record (annotated_row_head r @ '','' @ tail) (index + 1) = Some r"
proof -
  note v = accept_rawD [OF assms]
  have "ucast (ucast (tr_size r) :: u64) = tr_size r" "ucast (ucast (tr_service_cycles r) :: u64) = tr_service_cycles r"
    "ucast (ucast (tr_retries r) :: u64) = tr_retries r"
    by (auto intro!: bit_word_eqI simp: bit_simps)
  moreover have "parse_addr (addr_text r) = Some (tr_addr r)"
    by (simp only: v(4) parse_addr_to_hex32)
  moreover have "find_value_span (annotated_row_head r @ '','' @ tail) key = Some u"
    if "record_key key" "map_option snd (map_of (record_fields r) key) = Some u" for key u
    using that row_field [OF v(1-4) that(1)] by auto
  note row = this [OF record_keys(1) record_lookup(1)] this [OF record_keys(2) record_lookup(2)]
    this [OF record_keys(3) record_lookup(3)] this [OF record_keys(4) record_lookup(4)]
    this [OF record_keys(5) record_lookup(5)] this [OF record_keys(6) record_lookup(6)]
    this [OF record_keys(7) record_lookup(7)] this [OF record_keys(8) record_lookup(8)]
    this [OF record_keys(9) record_lookup(9)] this [OF record_keys(10) record_lookup(10)]
  ultimately show ?thesis
    unfolding parse_record_def row by (simp add: v(5) trace_record.equality)
qed

theorem annotated_row_round_trip_witness:
  "parse_record (annotated_row_head
     \<lparr>tr_seq = 7, tr_master = ''SSH2'', tick_first_attempt = 10, tick_complete = 12,
       tr_addr = 0x06004000, addr_text = to_hex32 0x06004000, tr_size = 4, tr_rw = ''R'',
       tr_kind = ''ifetch'', tr_service_cycles = 2, tr_retries = 0, source_line = 3 + 1\<rparr> @
     '','' @ ''tail}'') (3 + 1) =
   Some \<lparr>tr_seq = 7, tr_master = ''SSH2'', tick_first_attempt = 10, tick_complete = 12,
       tr_addr = 0x06004000, addr_text = to_hex32 0x06004000, tr_size = 4, tr_rw = ''R'',
       tr_kind = ''ifetch'', tr_service_cycles = 2, tr_retries = 0, source_line = 3 + 1\<rparr>"
  by (rule annotated_row_round_trip
      [where raw = "\<lparr>raw_seq = 7, raw_tick_first_attempt = 10, raw_tick_complete = 12,
         raw_service_cycles = 2, raw_retries = 0, raw_addr = 0x06004000, raw_size = 4,
         raw_master = 1, raw_rw = 0, raw_kind = 0\<rparr>"])
    (simp add: accept_raw_def decode_master_def decode_rw_def decode_kind_def)

section \<open>What the loaders report\<close>

text \<open>How often a sequence number does not exceed its predecessor.\<close>

fun descents :: "u64 list \<Rightarrow> nat" where
  "descents (a # b # xs) = (if b \<le> a then 1 else 0) + descents (b # xs)"
| "descents _ = 0"

lemma descents_snoc:
  "descents (xs @ [y]) = descents xs + (if xs \<noteq> [] \<and> y \<le> last xs then 1 else 0)"
  by (induction xs rule: descents.induct) auto

lemma descents_zero: "descents xs = 0 \<longleftrightarrow> sorted_wrt (<) xs"
proof (induction xs rule: descents.induct)
  case (1 a b xs)
  have "a < b \<Longrightarrow> (\<forall>x \<in> set xs. b < x) \<Longrightarrow> (\<forall>x \<in> set xs. a < x)"
    using less_trans by blast
  then show ?case using 1 by (auto simp: not_le)
qed auto

definition seqs :: "loader \<Rightarrow> u64 list" where
  "seqs l = map tr_seq (loaded l)"

definition accounted :: "loader \<Rightarrow> bool" where
  "accounted l \<longleftrightarrow>
     total_events (stats l) = length (loaded l) + malformed_lines (stats l) \<and>
     duplicate_seq_count (stats l) + card (set (seqs l)) = length (seqs l) \<and>
     non_monotonic_seq_count (stats l) = descents (seqs l) \<and>
     set (seen_seq_values l) = set (seqs l) \<and>
     previous_seq l = (if seqs l = [] then None else Some (last (seqs l)))"

lemma new_loader_accounted: "accounted (new_loader [] no_stats)"
  by (simp add: accounted_def new_loader_def no_stats_def seqs_def)

lemma new_loader_stats: "stats (new_loader records st) = st"
  by (simp add: new_loader_def)

lemma malformed_accounted: "accounted l \<Longrightarrow> accounted (count_malformed (count_event l))"
  by (simp add: accounted_def count_malformed_def count_event_def seqs_def)

lemma keep_record_accounted:
  assumes "accounted l"
  shows "accounted (keep_record r (count_event l))"
proof -
  have "seqs (keep_record r (count_event l)) = seqs l @ [tr_seq r]"
    by (simp add: keep_record_def count_event_def seqs_def Let_def)
  then show ?thesis
    using assms
    by (cases "seqs l = []")
      (auto simp: accounted_def keep_record_def count_event_def descents_snoc Let_def insert_absorb
        seqs_def)
qed

text \<open>
  The contract of the two record sources: an item is skipped, counted as malformed, or kept.
\<close>

locale record_source =
  fixes read_item :: "'a \<Rightarrow> loader \<Rightarrow> loader"
    and skipped :: "'a \<Rightarrow> bool"
    and accepted :: "'a \<Rightarrow> trace_record option"
  assumes skips: "skipped x \<Longrightarrow> read_item x l = l"
    and rejects: "\<not> skipped x \<Longrightarrow> accepted x = None \<Longrightarrow> read_item x l = count_malformed (count_event l)"
    and keeps: "\<not> skipped x \<Longrightarrow> accepted x = Some r \<Longrightarrow> read_item x l = keep_record r (count_event l)"
begin

lemma read_item_accounted: "accounted l \<Longrightarrow> accounted (read_item x l)"
  by (cases "skipped x"; cases "accepted x")
    (simp_all add: skips rejects keeps malformed_accounted keep_record_accounted)

lemma read_item_total:
  "total_events (stats (read_item x l)) = total_events (stats l) + (if skipped x then 0 else 1)"
  by (cases "skipped x"; cases "accepted x")
    (simp_all add: skips rejects keeps count_malformed_def count_event_def keep_record_def Let_def
      split: option.splits)

lemma read_all_accounted: "accounted l \<Longrightarrow> accounted (foldl (\<lambda>l x. read_item x l) l xs)"
  by (induction xs arbitrary: l) (simp_all add: read_item_accounted)

text \<open>Reading a whole sequence: one verdict for each item that is not skipped, and what becomes of the verdicts.\<close>

lemma read_all_verdicts:
  assumes "l' = foldl (\<lambda>l x. read_item x l) l xs" "verdicts = map accepted (filter (\<lambda>x. \<not> skipped x) xs)"
  shows "loaded l' = loaded l @ map the (filter (\<lambda>v. v \<noteq> None) verdicts) \<and>
    total_events (stats l') = total_events (stats l) + length verdicts \<and>
    malformed_lines (stats l') = malformed_lines (stats l) + length (filter (\<lambda>v. v = None) verdicts)"
  unfolding assms
proof (induction xs arbitrary: l)
  case (Cons x xs)
  have "loaded (read_item x l) = loaded l @ (if skipped x then [] else case accepted x of None \<Rightarrow> [] | Some r \<Rightarrow> [r])"
    "total_events (stats (read_item x l)) = total_events (stats l) + (if skipped x then 0 else 1)"
    "malformed_lines (stats (read_item x l)) = malformed_lines (stats l) + (if \<not> skipped x \<and> accepted x = None then 1 else 0)"
    by (cases "skipped x"; cases "accepted x";
      simp add: skips rejects keeps count_malformed_def count_event_def keep_record_def Let_def split: option.splits)+
  then show ?case using Cons [of "read_item x l"] by (auto split: option.splits)
qed simp

end

interpretation jsonl: record_source "\<lambda>x l. jsonl_line l x" "\<lambda>x. snd x = []"
    "\<lambda>x. parse_record (snd x) (fst x)"
  by unfold_locales (auto simp: jsonl_line_def Let_def)

interpretation btr1: record_source "\<lambda>x. binary_step (fst x) (snd x)" "\<lambda>x. False"
    "\<lambda>x. accept_raw (raw_record (snd x)) (fst x)"
  by unfold_locales (auto simp: binary_step_def Let_def)

lemma binary_records_accounted:
  "accounted l \<Longrightarrow> accounted (snd (binary_records bytes index l))"
proof (induction bytes index l rule: binary_records.induct)
  case (1 bytes index l)
  show ?case
    using 1 btr1.read_item_accounted [of l "(index, take binary_record_size bytes)"]
    by (subst binary_records.simps) simp
qed

lemma binary_records_whole:
  "fst (binary_records bytes index l) \<longleftrightarrow> binary_record_size dvd length bytes"
proof (induction bytes index l rule: binary_records.induct)
  case (1 bytes index l)
  show ?case
  proof (cases "bytes = [] \<or> length bytes < binary_record_size")
    case True
    then show ?thesis
      by (subst binary_records.simps) (auto dest: dvd_imp_le)
  next
    case False
    then have "fst (binary_records bytes index l) \<longleftrightarrow>
        binary_record_size dvd length (drop binary_record_size bytes)"
      using 1 by (subst binary_records.simps) simp
    also have "\<dots> \<longleftrightarrow> binary_record_size dvd length bytes"
      using False by (simp add: dvd_minus_self)
    finally show ?thesis .
  qed
qed

lemma binary_records_total:
  "total_events (stats (snd (binary_records bytes index l))) =
     total_events (stats l) + length bytes div binary_record_size"
proof (induction bytes index l rule: binary_records.induct)
  case (1 bytes index l)
  show ?case
  proof (cases "bytes = [] \<or> length bytes < binary_record_size")
    case True
    then show ?thesis by (subst binary_records.simps) (auto simp: binary_record_size_def)
  next
    case False
    then have "length bytes div binary_record_size = Suc (length (drop binary_record_size bytes) div binary_record_size)"
      by (simp add: le_div_geq binary_record_size_def)
    then show ?thesis
      using 1 False btr1.read_item_total [of "(index, take binary_record_size bytes)" l]
      by (subst binary_records.simps) simp
  qed
qed

text \<open>
  (C40) A BTR1 file is accepted exactly when its eight-byte header is the expected one and the rest
  is a whole number of 48-byte records; every whole record after a good header is counted as an
  event, also in a file rejected for a truncated last record.
\<close>

theorem binary_file_accepted_iff_whole_records:
  "(fst (load_binary_records (Some bytes) records st) \<longleftrightarrow>
      header_accepted (take 8 bytes) \<and> (length bytes - 8) mod 48 = 0) \<and>
   total_events (snd (snd (load_binary_records (Some bytes) records st))) =
     total_events st + (if header_accepted (take 8 bytes) then (length bytes - 8) div 48 else 0)"
proof -
  let ?r = "binary_records (drop 8 bytes) 0 (new_loader records st)"
  obtain ok l where r: "?r = (ok, l)" by (cases ?r)
  have "ok \<longleftrightarrow> (length bytes - 8) mod 48 = 0"
    using binary_records_whole [of "drop 8 bytes" 0 "new_loader records st"]
    by (simp add: r binary_record_size_def dvd_eq_mod_eq_0)
  moreover have "total_events (stats l) = total_events st + (length bytes - 8) div 48"
    using binary_records_total [of "drop 8 bytes" 0 "new_loader records st"]
    by (simp add: r binary_record_size_def new_loader_stats)
  ultimately show ?thesis
    by (simp add: load_binary_records_def r)
qed

lemma loaded_accounted:
  obtains ok l where "load_input_records files path [] no_stats = (ok, loaded l, stats l)" "accounted l"
proof -
  let ?new = "new_loader [] no_stats"
  note n = new_loader_accounted
  have "\<exists>ok l. load_jsonl_records input [] no_stats = (ok, loaded l, stats l) \<and> accounted l" for input
  proof (cases input)
    case None
    then show ?thesis
      using n by (intro exI [of _ False] exI [of _ ?new]) (simp add: load_jsonl_records_def new_loader_def)
  next
    case (Some bytes)
    then show ?thesis
      using jsonl.read_all_accounted [OF n]
      by (intro exI [of _ True] exI [of _ "foldl jsonl_line ?new (enumerate 1 (getlines (text_of bytes)))"])
        (simp add: load_jsonl_records_def Let_def)
  qed
  moreover have "\<exists>ok l. load_binary_records input [] no_stats = (ok, loaded l, stats l) \<and> accounted l" for input
  proof (cases "\<exists>bytes. input = Some bytes \<and> header_accepted (take 8 bytes)")
    case False
    then show ?thesis
      using n by (intro exI [of _ False] exI [of _ ?new])
        (auto simp: load_binary_records_def new_loader_def split: option.splits)
  next
    case True
    then obtain bytes where b: "input = Some bytes" "header_accepted (take 8 bytes)" by blast
    obtain ok l where r: "binary_records (drop 8 bytes) 0 ?new = (ok, l)" by fastforce
    then have "accounted l" using binary_records_accounted [OF n, of "drop 8 bytes" 0] by simp
    then show ?thesis
      by (intro exI [of _ ok] exI [of _ l]) (simp add: load_binary_records_def b r)
  qed
  ultimately show thesis
    using that unfolding load_input_records_def by metis
qed

text \<open>The whole records of a BTR1 body, and what its loop makes of them.\<close>

definition record_bytes :: "u8 list \<Rightarrow> nat \<Rightarrow> u8 list" where
  "record_bytes bytes k = take 48 (drop (48 * k) bytes)"

lemma record_bytes_Suc: "record_bytes bytes (Suc k) = record_bytes (drop 48 bytes) k"
  by (simp add: record_bytes_def add.commute)

lemma binary_records_fold:
  "snd (binary_records bytes index l) = foldl (\<lambda>l x. binary_step (fst x) (snd x) l) l
     (map (\<lambda>k. (index + k, record_bytes bytes k)) [0..<length bytes div 48])"
proof (induction bytes index l rule: binary_records.induct)
  case (1 bytes index l)
  show ?case
  proof (cases "bytes = [] \<or> length bytes < binary_record_size")
    case True
    then show ?thesis by (subst binary_records.simps) (auto simp: binary_record_size_def)
  next
    case False
    then have "length bytes div 48 = Suc (length (drop 48 bytes) div 48)"
      by (simp add: le_div_geq binary_record_size_def)
    then have "map (\<lambda>k. (index + k, record_bytes bytes k)) [0..<length bytes div 48] =
        (index, take 48 bytes) # map (\<lambda>k. (index + 1 + k, record_bytes (drop 48 bytes) k)) [0..<length (drop 48 bytes) div 48]"
      by (simp only: upt_rec [of 0] map_Suc_upt [symmetric] map_map zero_less_Suc if_True list.map comp_def)
        (simp add: record_bytes_Suc, simp add: record_bytes_def)
    then show ?thesis
      using 1 False by (subst binary_records.simps) (simp add: binary_record_size_def)
  qed
qed

text \<open>
  What a file says, apart from the loaders: its events in order, each the record it stands for or \<open>None\<close> when it is
  malformed. In JSON lines they are the lines that are not empty, numbered from one; in a binary file with a good header
  the whole records of 48 bytes after it.
\<close>

definition file_events :: "string \<Rightarrow> u8 list \<Rightarrow> trace_record option list" where
  "file_events path bytes =
    (if 4 \<le> length path \<and> drop (length path - 4) path = ''.bin'' then
       (if header_accepted (take 8 bytes)
        then map (\<lambda>k. accept_raw (raw_record (record_bytes (drop 8 bytes) k)) k) [0..<(length bytes - 8) div 48] else [])
     else map (\<lambda>(n, line). parse_record line n) (filter (\<lambda>(n, line). line \<noteq> []) (enumerate 1 (getlines (text_of bytes)))))"

text \<open>The records among the events that repeat the sequence number of an earlier one.\<close>

definition repeated :: "u64 list \<Rightarrow> nat" where
  "repeated xs = length (filter (\<lambda>k. xs ! k \<in> set (take k xs)) [0..<length xs])"

lemma repeated_card: "repeated xs + card (set xs) = length xs"
proof (induction xs rule: rev_induct)
  case (snoc x xs)
  have "filter (\<lambda>k. (xs @ [x]) ! k \<in> set (take k (xs @ [x]))) [0..<length xs] =
      filter (\<lambda>k. xs ! k \<in> set (take k xs)) [0..<length xs]"
    by (rule filter_cong) (auto simp: nth_append)
  then have "repeated (xs @ [x]) = repeated xs + (if x \<in> set xs then 1 else 0)" by (simp add: repeated_def)
  then show ?case using snoc by (simp add: insert_absorb)
qed (simp add: repeated_def)

lemma loaded_events:
  assumes "files path = Some bytes" "load_input_records files path [] no_stats = (ok, records, st)"
  shows "records = map the (filter (\<lambda>v. v \<noteq> None) (file_events path bytes)) \<and>
    total_events st = length (file_events path bytes) \<and>
    malformed_lines st = length (filter (\<lambda>v. v = None) (file_events path bytes))"
proof (cases "4 \<le> length path \<and> drop (length path - 4) path = ''.bin''")
  case True
  let ?new = "new_loader [] no_stats"
  obtain good l where r: "binary_records (drop 8 bytes) 0 ?new = (good, l)" by fastforce
  show ?thesis
  proof (cases "header_accepted (take 8 bytes)")
    case False
    then have "records = []" "st = no_stats" "file_events path bytes = []"
      using True assms by (simp_all add: load_input_records_def load_binary_records_def file_events_def)
    then show ?thesis by (simp add: no_stats_def)
  next
    case header: True
    have e: "file_events path bytes =
        map (\<lambda>k. accept_raw (raw_record (record_bytes (drop 8 bytes) k)) k) [0..<(length bytes - 8) div 48]"
      using True header by (simp add: file_events_def)
    have "records = loaded l" "st = stats l"
      using True header assms by (simp_all add: load_input_records_def load_binary_records_def r)
    moreover have "l = foldl (\<lambda>l x. binary_step (fst x) (snd x) l) ?new
        (map (\<lambda>k. (0 + k, record_bytes (drop 8 bytes) k)) [0..<length (drop 8 bytes) div 48])"
      using binary_records_fold [of "drop 8 bytes" 0 ?new] by (simp only: r snd_conv)
    from btr1.read_all_verdicts [OF this refl]
    have "loaded l = map the (filter (\<lambda>v. v \<noteq> None) (file_events path bytes)) \<and>
        total_events (stats l) = length (file_events path bytes) \<and>
        malformed_lines (stats l) = length (filter (\<lambda>v. v = None) (file_events path bytes))"
      unfolding e by (simp add: new_loader_def no_stats_def comp_def)
    ultimately show ?thesis by simp
  qed
next
  case False
  let ?l = "foldl jsonl_line (new_loader [] no_stats) (enumerate 1 (getlines (text_of bytes)))"
  have e: "file_events path bytes = map (\<lambda>x. parse_record (snd x) (fst x))
      (filter (\<lambda>x. \<not> snd x = []) (enumerate 1 (getlines (text_of bytes))))"
    unfolding file_events_def if_not_P [OF False] split_def ..
  have "records = loaded ?l" "st = stats ?l"
    using False assms by (auto simp: load_input_records_def load_jsonl_records_def Let_def)
  then show ?thesis
    using jsonl.read_all_verdicts [OF refl e, of "new_loader [] no_stats"] by (simp add: new_loader_def no_stats_def)
qed

text \<open>
  (C39) The diagnostics of a load, in either format, are those of the file. A file that cannot be read gives nothing. Otherwise
  the records are exactly the events of the file that are not malformed, in their order; every event is counted, and every
  malformed one; the duplicate count is how many records repeat the sequence number of an earlier one and is zero exactly
  when the sequence numbers are distinct; the non-monotonic count is the number of descents and is
  zero exactly when they strictly increase.
\<close>

theorem load_diagnostics_are_exact:
  "case load_input_records files path [] no_stats of (ok, records, st) \<Rightarrow>
     let events = (case files path of None \<Rightarrow> [] | Some bytes \<Rightarrow> file_events path bytes)
     in records = map the (filter (\<lambda>v. v \<noteq> None) events) \<and>
        total_events st = length events \<and>
        malformed_lines st = length (filter (\<lambda>v. v = None) events) \<and>
        total_events st = length records + malformed_lines st \<and>
        duplicate_seq_count st = repeated (map tr_seq records) \<and>
        duplicate_seq_count st = length records - card (set (map tr_seq records)) \<and>
        (duplicate_seq_count st = 0 \<longleftrightarrow> distinct (map tr_seq records)) \<and>
        non_monotonic_seq_count st = descents (map tr_seq records) \<and>
        (non_monotonic_seq_count st = 0 \<longleftrightarrow> sorted_wrt (<) (map tr_seq records))"
proof -
  obtain ok l where l: "load_input_records files path [] no_stats = (ok, loaded l, stats l)"
    and a: "accounted l" by (rule loaded_accounted)
  let ?events = "case files path of None \<Rightarrow> [] | Some bytes \<Rightarrow> file_events path bytes"
  have "loaded l = map the (filter (\<lambda>v. v \<noteq> None) ?events) \<and> total_events (stats l) = length ?events \<and>
      malformed_lines (stats l) = length (filter (\<lambda>v. v = None) ?events)"
  proof (cases "files path")
    case None
    then have "loaded l = []" "stats l = no_stats"
      using l by (simp_all add: load_input_records_def load_jsonl_records_def load_binary_records_def split: if_splits)
    then show ?thesis by (simp add: None no_stats_def)
  next
    case (Some bytes)
    then show ?thesis using loaded_events [OF Some l] by simp
  qed
  moreover have "duplicate_seq_count (stats l) = 0 \<longleftrightarrow> distinct (seqs l)"
    using a card_distinct [of "seqs l"] distinct_card [of "seqs l"] by (auto simp: accounted_def)
  moreover have "duplicate_seq_count (stats l) = length (seqs l) - card (set (seqs l))"
    "duplicate_seq_count (stats l) = repeated (seqs l)"
    using a repeated_card [of "seqs l"] unfolding accounted_def by linarith+
  moreover have "non_monotonic_seq_count (stats l) = 0 \<longleftrightarrow> sorted_wrt (<) (seqs l)"
    using a descents_zero [of "seqs l"] by (simp add: accounted_def)
  moreover have "length (seqs l) = length (loaded l)" by (simp add: seqs_def)
  ultimately show ?thesis
    using a unfolding l prod.case Let_def accounted_def seqs_def [symmetric] by (intro conjI) metis+
qed

section \<open>What the dataset holds\<close>

definition count_of :: "string \<Rightarrow> distribution \<Rightarrow> nat" where
  "count_of k m = (case RBT.lookup m k of None \<Rightarrow> 0 | Some n \<Rightarrow> n)"

definition valid_master :: "trace_record \<Rightarrow> bool" where
  "valid_master r \<longleftrightarrow> parse_master (tr_master r) \<noteq> None"

lemma count_of_bump: "count_of k (bump k' m) = count_of k m + (if k = k' then 1 else 0)"
  by (simp add: count_of_def bump_def split: option.splits)

lemma count_of_add_count:
  "count_of k (add_count k' n m) = count_of k m + (if k = k' then n else 0)"
  by (simp add: count_of_def add_count_def split: option.splits)

lemma include_all:
  "filtered_records (foldl include_record d rs) = filtered_records d @ filter valid_master rs"
  "count_of ''invalid_master'' (excluded_reason_counts (foldl include_record d rs)) =
     count_of ''invalid_master'' (excluded_reason_counts d) + length (filter (\<lambda>r. \<not> valid_master r) rs)"
  "count_of ''malformed_line'' (excluded_reason_counts (foldl include_record d rs)) =
     count_of ''malformed_line'' (excluded_reason_counts d)"
  "count_of m (master_distribution (foldl include_record d rs)) =
     count_of m (master_distribution d) + length (filter (\<lambda>r. tr_master r = m) (filter valid_master rs))"
  by (induction rs arbitrary: d)
    (simp_all add: include_record_def valid_master_def count_of_bump Let_def)

text \<open>
  (C35) The dataset of a replay: the included records are the loaded ones with a known master, ordered
  by completion tick and then sequence number; every event of the input is included or counted under
  one of the two exclusion reasons; and the distribution over masters counts the included records.
\<close>

theorem dataset_accounts_for_every_event:
  "case load_input_records files path [] no_stats of (ok, records, st) \<Rightarrow>
     let d = build_dataset records st; included = filtered_records d
     in sorted (map (\<lambda>r. (tick_complete r, tr_seq r)) included) \<and>
        mset included = filter_mset valid_master (mset records) \<and>
        total_events st = length included + excluded_events d st \<and>
        excluded_events d st = count_of ''invalid_master'' (excluded_reason_counts d) +
          count_of ''malformed_line'' (excluded_reason_counts d) \<and>
        (\<forall>m. count_of m (master_distribution d) = length (filter (\<lambda>r. tr_master r = m) included))"
proof -
  obtain ok l where l: "load_input_records files path [] no_stats = (ok, loaded l, stats l)"
    and a: "accounted l" by (rule loaded_accounted)
  let ?rs = "loaded l" and ?k = "\<lambda>r. (tick_complete r, tr_seq r)"
  have f: "filtered_records (build_dataset ?rs (stats l)) = filter valid_master (replay_order ?rs)"
    and i: "count_of ''invalid_master'' (excluded_reason_counts (build_dataset ?rs (stats l))) =
      length (filter (\<lambda>r. \<not> valid_master r) (replay_order ?rs))"
    and x: "count_of ''malformed_line'' (excluded_reason_counts (build_dataset ?rs (stats l))) =
      malformed_lines (stats l)"
    and m: "count_of m (master_distribution (build_dataset ?rs (stats l))) =
      length (filter (\<lambda>r. tr_master r = m) (filter valid_master (replay_order ?rs)))" for m
    by (simp_all add: build_dataset_def include_all count_of_add_count no_dataset_def Let_def)
      (simp_all add: count_of_def)
  have s: "sorted (map ?k (filter valid_master (replay_order ?rs)))"
    unfolding replay_order_def by (intro sorted_filter sorted_sort_key)
  have p: "mset (filter valid_master (replay_order ?rs)) = filter_mset valid_master (mset ?rs)"
    by (simp add: replay_order_def)
  have len: "length (filter valid_master (replay_order ?rs)) +
      length (filter (\<lambda>r. \<not> valid_master r) (replay_order ?rs)) = length ?rs"
    using sum_length_filter_compl [of valid_master "replay_order ?rs"] by (simp add: replay_order_def)
  show ?thesis
    using a s p len by (simp add: l f i x m accounted_def excluded_events_def)
qed

section \<open>Regions\<close>

text \<open>
  The names of the report follow the timing table of \<open>busarb\<close>: an address is unmapped exactly when
  no row of the table holds it, and High WRAM is the row the cache classification tests.
\<close>

lemma table_step:
  "b \<longleftrightarrow> b' \<Longrightarrow> x \<noteq> u \<Longrightarrow> (y = u \<longleftrightarrow> q = None) \<Longrightarrow>
     ((if b then x else y) = u) \<longleftrightarrow> ((if b' then Some p else q) = None)"
  by simp

lemma region_name_unmapped_iff:
  "region_name addr = ''Unmapped'' \<longleftrightarrow>
     find (\<lambda>r. addr \<ge> rt_start r \<and> addr \<le> rt_end r) kRegionTimings = None"
  unfolding region_name_def kRegionTimings_def find.simps region_timing.simps
  by ((rule table_step, simp, simp)+) simp

lemma estimate_is_bounded:
  assumes "unat (cfg_same_address_contention cfg) + unat (cfg_tie_turnaround cfg) < 2 ^ 32"
  shows "unat (estimate_local_wait_cycles r previous cfg) \<le>
    unat (cfg_same_address_contention cfg) + unat (cfg_tie_turnaround cfg)"
proof -
  have "unat (cfg_same_address_contention cfg + cfg_tie_turnaround cfg) =
      unat (cfg_same_address_contention cfg) + unat (cfg_tie_turnaround cfg)"
    using assms by (simp add: unat_word_ariths)
  then show ?thesis
    by (simp add: estimate_local_wait_cycles_def Let_def split: option.split)
qed

section \<open>Where the parsers are laxer than the format\<close>

text \<open>The size of a JSON line is truncated to eight bits and not checked: 260 is read as 4.\<close>

lemma oversized_access_is_truncated:
  "parse_u64 ''260'' = Some 260" "ucast (260 :: u64) = (4 :: u8)"
  by (simp_all add: parse_u64_iff numeral_value_def is_digit_def digit_value_def Let_def)

text \<open>A value that spells a later key hides that key: the retries are read from the next field.\<close>

lemma value_shadows_key:
  "find_value_span (text_field ''kind'' ''retries'' @ '','' @ number_field ''service_cycles'' ''9'' @ '','' @
     number_field ''retries'' ''0'' @ ''}'') ''retries'' = Some ''9''"
  by code_simp

text \<open>
  The field order of BTR1 records: the documented layout has the address at byte 24, where the
  struct of the loader has the low half of the service cycles, so the address of a file written as
  documented is loaded as its service cycles.
\<close>

lemma little_endian_append:
  "(little_endian (xs @ ys) :: ('w :: len) word) =
     little_endian xs OR push_bit (8 * length xs) (little_endian ys)"
  by (induction xs) (simp_all add: little_endian_def push_bit_or or.assoc push_bit_push_bit add.commute)

lemma little_endian_low:
  "(ucast (little_endian bs :: u64) :: u32) = little_endian bs"
proof (induction bs)
  case (Cons b bs)
  have "(ucast (ucast b OR push_bit 8 w :: u64) :: u32) = ucast b OR push_bit 8 (ucast w)" for w :: u64
    by (rule bit_word_eqI) (auto simp: bit_simps)
  then show ?case using Cons by (simp add: little_endian_def)
qed (simp add: little_endian_def)

lemma documented_address_is_loaded_as_service_cycles:
  assumes "32 \<le> length bytes"
  shows "ucast (raw_service_cycles (raw_record bytes)) = (field_at 24 4 bytes :: u32)"
proof -
  have s: "take 8 (drop 24 bytes) = take 4 (drop 24 bytes) @ take 4 (drop 28 bytes)"
    using take_add [of 4 4 "drop 24 bytes"] by simp
  have "push_bit 32 (w :: u32) = 0" for w
    by (rule bit_word_eqI) (simp add: bit_simps)
  moreover have "length (take 4 (drop 24 bytes)) = 4" using assms by simp
  ultimately have "(little_endian (take 8 (drop 24 bytes)) :: u32) = little_endian (take 4 (drop 24 bytes))"
    unfolding s little_endian_append by simp
  then show ?thesis
    by (simp add: raw_record_def field_at_def little_endian_low)
qed

end
