(* ===== verification/CommandLine.thy ===== *)
theory CommandLine
  imports BiosRun TraceReplay
begin

text \<open>
  The program around the runs: \<open>main\<close> (\<open>src/src/main.cpp\<close>), \<open>RunConfig\<close>, \<open>Emulator::run\<close> and
  \<open>maybe_write_trace\<close> (\<open>emulator.hpp\<close>, \<open>emulator.cpp\<close>), \<open>read_binary_file\<close> (\<open>file_io.cpp\<close>) and the
  calls that show a frame (\<open>sdl_window.cpp\<close>). The files, and what SDL answers, are the \<open>host\<close>
  parameter; what a run prints, writes and calls is its value.
\<close>

section \<open>The host\<close>

text \<open>
  \<open>host_file\<close>: the content of a file that can be opened for reading; \<open>host_writable\<close>: an output stream
  on this path opens; the rest is the build's SDL switch and the two SDL results the code looks at.
\<close>

record host =
  host_file :: "string \<Rightarrow> u8 list option"
  host_writable :: "string \<Rightarrow> bool"
  host_has_sdl2 :: bool
  host_sdl_init :: bool
  host_sdl_window :: bool

datatype sdl_call =
    SDL_Init | SDL_Quit
  | SDL_CreateWindow int int | SDL_DestroyWindow
  | SDL_CreateRenderer | SDL_DestroyRenderer
  | SDL_CreateTexture int int | SDL_DestroyTexture
  | SDL_UpdateTexture "u32 list" int | SDL_RenderClear | SDL_RenderCopy | SDL_RenderPresent
  | SDL_Delay int

record effects =
  ef_stdout :: string
  ef_stderr :: string
  ef_files :: "(string \<times> string) list"
  ef_sdl :: "sdl_call list"

definition no_effects :: effects where
  "no_effects = \<lparr>ef_stdout = [], ef_stderr = [], ef_files = [], ef_sdl = []\<rparr>"

datatype host_error = InvalidArgument | OutOfRange | RuntimeError string

definition read_binary_file :: "host \<Rightarrow> string \<Rightarrow> host_error + u8 list" where
  "read_binary_file h path =
    (case host_file h path of
       None \<Rightarrow> Inl (RuntimeError (''Failed to open file: '' @ path))
     | Some bytes \<Rightarrow> Inr bytes)"

text \<open>A stream that does not open swallows what is written to it.\<close>

definition write_text :: "host \<Rightarrow> string \<Rightarrow> string \<Rightarrow> effects \<Rightarrow> effects" where
  "write_text h path content ef =
    (if host_writable h path then ef\<lparr>ef_files := ef_files ef @ [(path, content)]\<rparr> else ef)"

definition present_framebuffer_if_available :: "host \<Rightarrow> int \<Rightarrow> int \<Rightarrow> u32 list \<Rightarrow> bool \<Rightarrow> sdl_call list" where
  "present_framebuffer_if_available h width height pixels headless =
    (if headless \<or> \<not> host_has_sdl2 h then []
     else if \<not> host_sdl_init h then [SDL_Init]
     else if \<not> host_sdl_window h then [SDL_Init, SDL_CreateWindow width height, SDL_Quit]
     else [SDL_Init, SDL_CreateWindow width height, SDL_CreateRenderer, SDL_CreateTexture width height,
           SDL_UpdateTexture pixels (width * 4), SDL_RenderClear, SDL_RenderCopy, SDL_RenderPresent, SDL_Delay 300,
           SDL_DestroyTexture, SDL_DestroyRenderer, SDL_DestroyWindow, SDL_Quit])"

section \<open>The configuration\<close>

record run_config =
  headless :: bool
  bios_path :: string
  trace_path :: string
  max_steps :: u64
  dual_demo :: bool

definition default_run_config :: run_config where
  "default_run_config = \<lparr>headless = False, bios_path = [], trace_path = [], max_steps = 20000, dual_demo = True\<rparr>"

text \<open>
  \<open>std::stoull\<close>: white space, an optional sign, the longest run of digits; what follows is ignored. A
  minus sign negates the value modulo \<open>2 ^ 64\<close>.
\<close>

definition is_space :: "char \<Rightarrow> bool" where
  "is_space c \<longleftrightarrow> (let n = of_char c :: nat in n = 32 \<or> 9 \<le> n \<and> n \<le> 13)"

definition stoull :: "string \<Rightarrow> host_error + u64" where
  "stoull text =
    (let s = dropWhile is_space text;
         negative = s \<noteq> [] \<and> hd s = CHR ''-'';
         t = (if s \<noteq> [] \<and> (hd s = CHR ''-'' \<or> hd s = CHR ''+'') then tl s else s);
         digits = takeWhile (is_digit 10) t;
         v = numeral_value 10 digits
     in if digits = [] then Inl InvalidArgument
        else if 2 ^ 64 \<le> v then Inl OutOfRange
        else Inr (if negative then - of_nat v else of_nat v))"

datatype command = ShowUsage | BadNumber host_error | Run run_config

text \<open>The loop over \<open>argv[1 ..]\<close>: an argument it does not know, or an option without its value, is skipped.\<close>

fun parse_args :: "string list \<Rightarrow> run_config \<Rightarrow> command" where
  "parse_args [] cfg = Run cfg"
| "parse_args (arg # rest) cfg =
    (if arg = ''--bios'' \<and> rest \<noteq> [] then parse_args (tl rest) (cfg\<lparr>bios_path := hd rest, dual_demo := False\<rparr>)
     else if arg = ''--trace'' \<and> rest \<noteq> [] then parse_args (tl rest) (cfg\<lparr>trace_path := hd rest\<rparr>)
     else if arg = ''--headless'' then parse_args rest (cfg\<lparr>headless := True\<rparr>)
     else if arg = ''--max-steps'' \<and> rest \<noteq> [] then
       (case stoull (hd rest) of
          Inl e \<Rightarrow> BadNumber e
        | Inr n \<Rightarrow> parse_args (tl rest) (cfg\<lparr>max_steps := n\<rparr>))
     else if arg = ''--dual-demo'' then parse_args rest (cfg\<lparr>dual_demo := True\<rparr>)
     else if arg = ''--help'' then ShowUsage
     else parse_args rest cfg)"

section \<open>The program\<close>

text \<open>\<open>maybe_write_trace\<close> is declared, defined and not called.\<close>

definition maybe_write_trace :: "host \<Rightarrow> run_config \<Rightarrow> trace_log \<Rightarrow> effects \<Rightarrow> effects" where
  "maybe_write_trace h cfg trace ef =
    (if trace_path cfg = [] then ef else write_text h (trace_path cfg) (write_jsonl trace) ef)"

text \<open>
  \<open>Emulator::run\<close>, with the fuel of the run it chooses: \<open>None\<close> when the fuel does not end it, an error
  when the exception leaves it, or the exit code and the effects.
\<close>

definition emulator_run :: "host \<Rightarrow> nat \<Rightarrow> run_config \<Rightarrow> (host_error + int \<times> effects) option" where
  "emulator_run h fuel cfg =
    (if dual_demo cfg \<or> bios_path cfg = [] then
       (case run_dual_demo_trace fuel of
          None \<Rightarrow> None
        | Some demo_trace \<Rightarrow>
            (let ef = no_effects\<lparr>ef_stdout := ''Running deterministic dual-CPU demo'' @ [newline] @ demo_trace\<rparr>
             in Some (Inr (0, if trace_path cfg = [] then ef else write_text h (trace_path cfg) demo_trace ef))))
     else
       (case read_binary_file h (bios_path cfg) of
          Inl e \<Rightarrow> Some (Inl e)
        | Inr bios \<Rightarrow>
            (case run_bios_trace bios (max_steps cfg) fuel of
               None \<Rightarrow> None
             | Some bios_trace \<Rightarrow>
                 (let ef = (if trace_path cfg = [] then no_effects
                            else write_text h (trace_path cfg) bios_trace no_effects);
                      framebuffer = replicate (320 * 240) 0xFF101020
                  in Some (Inr (0, ef\<lparr>ef_sdl :=
                       present_framebuffer_if_available h 320 240 framebuffer (headless cfg)\<rparr>))))))"

text \<open>An exception that leaves \<open>main\<close> ends the process through \<open>std::terminate\<close>.\<close>

datatype process_end = Exited int effects | Terminated host_error

definition usage :: string where
  "usage = ''Usage: saturnemu --bios <path> [--headless] [--trace trace.jsonl] [--max-steps N] [--dual-demo]'' @ [newline]"

definition what :: "host_error \<Rightarrow> string" where
  "what e = (case e of InvalidArgument \<Rightarrow> ''stoull'' | OutOfRange \<Rightarrow> ''stoull'' | RuntimeError text \<Rightarrow> text)"

definition saturnemu_main :: "host \<Rightarrow> nat \<Rightarrow> string list \<Rightarrow> process_end option" where
  "saturnemu_main h fuel arguments =
    (case parse_args arguments default_run_config of
       ShowUsage \<Rightarrow> Some (Exited 0 (no_effects\<lparr>ef_stdout := usage\<rparr>))
     | BadNumber e \<Rightarrow> Some (Terminated e)
     | Run cfg \<Rightarrow>
         (case emulator_run h fuel cfg of
            None \<Rightarrow> None
          | Some (Inl e) \<Rightarrow> Some (Exited 1 (no_effects\<lparr>ef_stderr := ''Fatal: '' @ what e @ [newline]\<rparr>))
          | Some (Inr (code, ef)) \<Rightarrow> Some (Exited code ef)))"

section \<open>The command line\<close>

lemma stoull_dec_word: "stoull (dec_word w) = Inr w" for w :: u64
proof -
  have d: "list_all (is_digit 10) (dec_word w)" "dec_word w \<noteq> []" by (simp_all add: dec_word_def dec_digits)
  then have c: "is_digit 10 (hd (dec_word w))" by (cases "dec_word w") auto
  then have "\<not> is_space (hd (dec_word w))" "hd (dec_word w) \<noteq> CHR ''-''" "hd (dec_word w) \<noteq> CHR ''+''"
    by (auto simp: is_digit_def digit_value_def is_space_def Let_def split: if_splits)
  moreover have "takeWhile (is_digit 10) (dec_word w) = dec_word w"
    using d(1) by (simp add: takeWhile_eq_all_conv list_all_iff)
  moreover have "dropWhile is_space (dec_word w) = dec_word w"
    using d(2) calculation(1) by (cases "dec_word w") auto
  moreover have "numeral_value 10 (dec_word w) = unat w" "unat w < 2 ^ 64"
    using unsigned_less [of w] by (simp_all add: dec_word_def)
  ultimately show ?thesis using d(2) by (simp add: stoull_def Let_def takeWhile_eq_all_conv [THEN iffD2])
qed

text \<open>Arguments that ask for a configuration.\<close>

definition config_args :: "run_config \<Rightarrow> string list" where
  "config_args cfg =
     (if headless cfg then [''--headless''] else []) @ [''--bios'', bios_path cfg] @
     (if dual_demo cfg then [''--dual-demo''] else []) @ [''--trace'', trace_path cfg] @
     [''--max-steps'', dec_word (max_steps cfg)]"

lemma parse_config_args: "parse_args (config_args cfg) default_run_config = Run cfg"
  by (simp add: config_args_def default_run_config_def stoull_dec_word)

text \<open>
  The step count is parsed outside the \<open>try\<close> block: a value that is not a number ends the process
  through \<open>std::terminate\<close> instead of the exit code 1 and the message every other error gets.
\<close>

lemma bad_step_count_terminates:
  assumes "stoull v = Inl e"
  shows "saturnemu_main h fuel (''--max-steps'' # v # rest) = Some (Terminated e)"
  using assms by (simp add: saturnemu_main_def)

lemma bad_step_count_example:
  "saturnemu_main h fuel [''--bios'', ''saturn.bin'', ''--max-steps'', ''fast''] = Some (Terminated InvalidArgument)"
proof -
  have "stoull ''fast'' = Inl InvalidArgument" by code_simp
  then show ?thesis by (simp add: saturnemu_main_def)
qed

text \<open>A step count that is too long is refused, a negative one wraps around, and what follows the digits is ignored.\<close>

lemma step_count_examples:
  "stoull ''99999999999999999999'' = Inl OutOfRange" "stoull ''-1'' = Inr (- 1)" "stoull '' 12k'' = Inr 12"
  by (simp_all add: stoull_def is_digit_def digit_value_def numeral_value_def is_space_def Let_def)

lemma bios_trace_produced:
  assumes "unat n \<le> 2 ^ 32"
  shows "\<exists>text. run_bios_trace bios_image n (unat n) = Some text"
proof -
  have e: "executed_total (start_bios bios_image) = 0" by (simp add: executed_total_def start_bios_def sh2_reset_def)
  have "unat n * 110 < 2 ^ 62" using assms by simp
  then show ?thesis
    using run_bios_returns [OF start_bios_inv [of bios_image], of "unat n" n] assms e
    by (auto simp: run_bios_trace_def)
qed

text \<open>
  (C20) A BIOS run from the command line ends and keeps its promises. Arguments that select a readable image and at
  most \<open>2 ^ 32\<close> steps lead to exit code 0 within as many iterations as steps; nothing is printed, the only
  file written is the trace, a headless run does not call SDL, and a run that starts SDL ends with
  \<open>SDL_Quit\<close> and destroys the window it got.
\<close>

theorem bios_command_ends:
  assumes "parse_args arguments default_run_config = Run cfg" "\<not> dual_demo cfg" "bios_path cfg \<noteq> []"
    and "host_file h (bios_path cfg) = Some bios" "unat (max_steps cfg) \<le> 2 ^ 32"
  shows "\<exists>ef. saturnemu_main h (unat (max_steps cfg)) arguments = Some (Exited 0 ef) \<and>
    ef_stdout ef = [] \<and> ef_stderr ef = [] \<and>
    map fst (ef_files ef) = (if trace_path cfg \<noteq> [] \<and> host_writable h (trace_path cfg) then [trace_path cfg] else []) \<and>
    (headless cfg \<longrightarrow> ef_sdl ef = []) \<and>
    (ef_sdl ef \<noteq> [] \<and> host_sdl_init h \<longrightarrow>
      last (ef_sdl ef) = SDL_Quit \<and> count_list (ef_sdl ef) SDL_DestroyWindow = of_bool (host_sdl_window h))"
proof -
  obtain trace where t: "run_bios_trace bios (max_steps cfg) (unat (max_steps cfg)) = Some trace"
    using bios_trace_produced [OF assms(5)] by blast
  show ?thesis
    using assms(2-4)
    by (simp add: saturnemu_main_def assms(1) emulator_run_def read_binary_file_def t no_effects_def
        write_text_def present_framebuffer_if_available_def)
qed

lemma bios_command_ends_witness:
  "\<exists>ef. saturnemu_main \<lparr>host_file = (\<lambda>p. if p = ''a.bin'' then Some [0, 9] else None), host_writable = (\<lambda>_. True),
       host_has_sdl2 = True, host_sdl_init = True, host_sdl_window = True\<rparr>
     300 [''--bios'', ''a.bin'', ''--max-steps'', ''300'', ''--trace'', ''t.jsonl''] = Some (Exited 0 ef) \<and>
     map fst (ef_files ef) = [''t.jsonl'']"
proof -
  have n: "stoull ''300'' = Inr 300"
    by (simp add: stoull_def is_digit_def digit_value_def numeral_value_def is_space_def Let_def)
  show ?thesis
    using bios_command_ends [of "[''--bios'', ''a.bin'', ''--max-steps'', ''300'', ''--trace'', ''t.jsonl'']" _
        "\<lparr>host_file = (\<lambda>p. if p = ''a.bin'' then Some [0, 9] else None), host_writable = (\<lambda>_. True),
          host_has_sdl2 = True, host_sdl_init = True, host_sdl_window = True\<rparr>" "[0, 9]"]
    by (force simp: n default_run_config_def)
qed

end
