(* ===== verification/MultiThread.thy ===== *)
theory MultiThread
  imports ScriptedPair
begin

text \<open>
  The two-threaded variant of the scripted run (\<open>src/src/core/emulator.cpp\<close>,
  \<open>run_scripted_pair_multithread\<close>): one producer thread per CPU, mailboxes to and from the
  coordinator that owns the arbiter, and the signal hub they sleep on. A step of a thread ends at
  its next access to a shared object (a mailbox, a done flag, the hub), each of which the source
  protects with a mutex or an atomic; what a thread does on its own variables in between belongs
  to the same step. The scheduler picks the threads in any order.
\<close>

section \<open>Threads and shared objects\<close>

record script_response =
  sr_script_index :: nat
  sr_token :: u64
  sr_response :: bus_response

text \<open>Where a producer stands: the shared access it does next.\<close>

datatype producer_point =
    AtTop | AtRequestProgress | AtRequestNotify | AtCheck
  | AtDone | AtDoneNotify | AtResponseProgress | AtResponseNotify | AtWait | Returned

record producer_thread =
  th_at :: producer_point
  th_cpu :: scripted_cpu
  th_waiting :: "pending_bus_op option"
  th_seen_epoch :: u64

text \<open>Where the coordinator stands in its loop.\<close>

datatype coordinator_point =
    PopRequest0 | PopRequest1 | PopProgress0 | PopProgress1 | LoadPeer | CommitBatch
  | PushResponses | NotifyCommitted | LoadDone0 | LoadDone1 | MaybeWait | Finished

record mt_state =
  producers :: "nat \<Rightarrow> producer_thread"
  requests :: "nat \<Rightarrow> pending_bus_op list"
  responses :: "nat \<Rightarrow> script_response list"
  progresses :: "nat \<Rightarrow> tick list"
  done_flags :: "nat \<Rightarrow> bool"
  epoch :: u64
  co_at :: coordinator_point
  co_pending :: "nat \<Rightarrow> pending_bus_op option"
  co_progressed :: bool
  co_waiting_for_peer :: bool
  co_no_pending :: bool
  co_outbox :: "(nat \<times> script_response) list"
  co_committed :: bool
  co_seen_epoch :: u64
  mt_arbiter :: bus_arbiter

definition new_producer :: "scripted_cpu \<Rightarrow> producer_thread" where
  "new_producer c = \<lparr>th_at = AtTop, th_cpu = c, th_waiting = None, th_seen_epoch = 0\<rparr>"

definition start_threads :: "scripted_cpu \<Rightarrow> scripted_cpu \<Rightarrow> bus_arbiter \<Rightarrow> mt_state" where
  "start_threads c0 c1 a = \<lparr>producers = (\<lambda>i. new_producer (if i = 0 then c0 else c1)),
     requests = (\<lambda>_. []), responses = (\<lambda>_. []), progresses = (\<lambda>_. []), done_flags = (\<lambda>_. False),
     epoch = 0, co_at = PopRequest0, co_pending = (\<lambda>_. None), co_progressed = False,
     co_waiting_for_peer = False, co_no_pending = False, co_outbox = [], co_committed = False,
     co_seen_epoch = 0, mt_arbiter = update_progress (update_progress a 0 0) 1 0\<rparr>"

section \<open>Shared accesses\<close>

definition mt_notify :: "mt_state \<Rightarrow> mt_state" where
  "mt_notify s = s\<lparr>epoch := epoch s + 1\<rparr>"

definition set_producer :: "nat \<Rightarrow> producer_thread \<Rightarrow> mt_state \<Rightarrow> mt_state" where
  "set_producer i t s = s\<lparr>producers := (producers s)(i := t)\<rparr>"

definition push_request :: "nat \<Rightarrow> pending_bus_op \<Rightarrow> mt_state \<Rightarrow> mt_state" where
  "push_request i p s = s\<lparr>requests := (requests s)(i := requests s i @ [p])\<rparr>"

definition push_response :: "nat \<Rightarrow> script_response \<Rightarrow> mt_state \<Rightarrow> mt_state" where
  "push_response i r s = s\<lparr>responses := (responses s)(i := responses s i @ [r])\<rparr>"

definition push_progress :: "nat \<Rightarrow> tick \<Rightarrow> mt_state \<Rightarrow> mt_state" where
  "push_progress i t s = s\<lparr>progresses := (progresses s)(i := progresses s i @ [t])\<rparr>"

section \<open>The producer thread\<close>

definition producer_step :: "nat \<Rightarrow> mt_state \<Rightarrow> mt_state option" where
  "producer_step i s =
    (let t = producers s i; c = th_cpu t; goto = (\<lambda>p. set_producer i (t\<lparr>th_at := p\<rparr>) s)
     in case th_at t of
       AtTop \<Rightarrow>
         (if th_waiting t = None \<and> \<not> sc_done c
          then (case produce c of
                  (Some p, c') \<Rightarrow> Some (push_request i p (set_producer i
                     (t\<lparr>th_at := AtRequestProgress, th_cpu := c', th_waiting := Some p\<rparr>) s))
                | (None, c') \<Rightarrow> Some (set_producer i (t\<lparr>th_at := AtCheck, th_cpu := c'\<rparr>) s))
          else Some (goto AtCheck))
     | AtRequestProgress \<Rightarrow>
         Some (push_progress i (req_time (pb_op (the (th_waiting t))) + 1) (goto AtRequestNotify))
     | AtRequestNotify \<Rightarrow> Some (mt_notify (goto AtCheck))
     | AtCheck \<Rightarrow>
         (if th_waiting t = None \<and> sc_done c then Some (push_progress i (sc_local_time c) (goto AtDone))
          else (case responses s i of
                  [] \<Rightarrow> Some (goto AtWait)
                | r # rs \<Rightarrow>
                    (let c' = fst (sc_apply_response c (sr_script_index r) (sr_response r) (sr_token r) None)
                     in Some (set_producer i (t\<lparr>th_at := AtResponseProgress, th_cpu := c'\<rparr>)
                          (s\<lparr>responses := (responses s)(i := rs)\<rparr>)))))
     | AtResponseProgress \<Rightarrow>
         Some (push_progress i (sc_local_time c)
           (set_producer i (t\<lparr>th_at := AtResponseNotify, th_waiting := None\<rparr>) s))
     | AtResponseNotify \<Rightarrow> Some (mt_notify (goto AtTop))
     | AtDone \<Rightarrow> Some ((goto AtDoneNotify)\<lparr>done_flags := (done_flags s)(i := True)\<rparr>)
     | AtDoneNotify \<Rightarrow> Some (mt_notify (goto Returned))
     | AtWait \<Rightarrow>
         (if epoch s = th_seen_epoch t then None
          else Some (set_producer i (t\<lparr>th_at := AtTop, th_seen_epoch := epoch s\<rparr>) s))
     | Returned \<Rightarrow> None)"

section \<open>The coordinator\<close>

definition pop_request :: "nat \<Rightarrow> mt_state \<Rightarrow> mt_state" where
  "pop_request i s =
    (if co_pending s i \<noteq> None then s
     else case requests s i of
       [] \<Rightarrow> s
     | p # ps \<Rightarrow> s\<lparr>requests := (requests s)(i := ps), co_pending := (co_pending s)(i := Some p),
                   co_progressed := True\<rparr>)"

text \<open>The loops \<open>while (progress.try_pop (prog))\<close>: one message per step.\<close>

definition pop_progress :: "nat \<Rightarrow> coordinator_point \<Rightarrow> mt_state \<Rightarrow> mt_state" where
  "pop_progress i next_point s =
    (case progresses s i of
       [] \<Rightarrow> s\<lparr>co_at := next_point\<rparr>
     | t # ts \<Rightarrow> s\<lparr>progresses := (progresses s)(i := ts), co_progressed := True,
                   mt_arbiter := update_progress (mt_arbiter s) (int i) t\<rparr>)"

definition indexed_pending :: "mt_state \<Rightarrow> (nat \<times> pending_bus_op) list" where
  "indexed_pending s =
     (case co_pending s 0 of Some p \<Rightarrow> [(0, p)] | None \<Rightarrow> []) @
     (case co_pending s 1 of Some p \<Rightarrow> [(1, p)] | None \<Rightarrow> [])"

definition response_to :: "(nat \<times> pending_bus_op) list \<Rightarrow> commit_result \<Rightarrow> nat \<times> script_response" where
  "response_to pending r =
    (let (cpu, p) = pending ! input_index r
     in (cpu, \<lparr>sr_script_index = pb_script_index p, sr_token = producer_token (pb_op p),
               sr_response = response r\<rparr>))"

definition coordinator_step :: "mt_state \<Rightarrow> mt_state option" where
  "coordinator_step s =
    (case co_at s of
       PopRequest0 \<Rightarrow> Some ((pop_request 0 (s\<lparr>co_progressed := False\<rparr>))\<lparr>co_at := PopRequest1\<rparr>)
     | PopRequest1 \<Rightarrow> Some ((pop_request 1 s)\<lparr>co_at := PopProgress0\<rparr>)
     | PopProgress0 \<Rightarrow> Some (pop_progress 0 PopProgress1 s)
     | PopProgress1 \<Rightarrow> Some (pop_progress 1 LoadPeer s)
     | LoadPeer \<Rightarrow>
         (let p0 = co_pending s 0 \<noteq> None; p1 = co_pending s 1 \<noteq> None
          in Some (s\<lparr>co_waiting_for_peer := (p0 \<and> \<not> p1 \<and> \<not> done_flags s 1) \<or> (p1 \<and> \<not> p0 \<and> \<not> done_flags s 0),
                     co_no_pending := \<not> p0 \<and> \<not> p1, co_at := CommitBatch\<rparr>))
     | CommitBatch \<Rightarrow>
         (let pending = indexed_pending s
          in if pending = [] then Some (s\<lparr>co_at := LoadDone0\<rparr>)
             else let (committed, a) = commit_batch default_priority_of (mt_arbiter s) (map (\<lambda>x. pb_op (snd x)) pending)
                  in Some (s\<lparr>mt_arbiter := a, co_outbox := map (response_to pending) committed,
                             co_committed := committed \<noteq> [], co_at := PushResponses\<rparr>))
     | PushResponses \<Rightarrow>
         (case co_outbox s of
            [] \<Rightarrow> Some (s\<lparr>co_at := (if co_committed s then NotifyCommitted else LoadDone0)\<rparr>)
          | (i, r) # rest \<Rightarrow>
              Some (push_response i r (s\<lparr>co_outbox := rest, co_pending := (co_pending s)(i := None),
                                         co_progressed := True\<rparr>)))
     | NotifyCommitted \<Rightarrow> Some (mt_notify (s\<lparr>co_at := LoadDone0\<rparr>))
     | LoadDone0 \<Rightarrow> Some (s\<lparr>co_at := (if done_flags s 0 then LoadDone1 else MaybeWait)\<rparr>)
     | LoadDone1 \<Rightarrow>
         Some (s\<lparr>co_at := (if done_flags s 1 \<and> co_pending s 0 = None \<and> co_pending s 1 = None
                         then Finished else MaybeWait)\<rparr>)
     | MaybeWait \<Rightarrow>
         (if \<not> co_progressed s \<and> (co_waiting_for_peer s \<or> co_no_pending s)
          then (if epoch s = co_seen_epoch s then None
                else Some (s\<lparr>co_seen_epoch := epoch s, co_at := PopRequest0\<rparr>))
          else Some (s\<lparr>co_at := PopRequest0\<rparr>))
     | Finished \<Rightarrow> None)"

section \<open>Runs\<close>

datatype thread = Producer nat | Coordinator

definition mt_step :: "thread \<Rightarrow> mt_state \<Rightarrow> mt_state option" where
  "mt_step th s =
    (case th of Producer i \<Rightarrow> if i < 2 then producer_step i s else None | Coordinator \<Rightarrow> coordinator_step s)"

text \<open>A schedule lists the threads in the order in which they step.\<close>

fun run_schedule :: "thread list \<Rightarrow> mt_state \<Rightarrow> mt_state option" where
  "run_schedule [] s = Some s"
| "run_schedule (th # ths) s = (case mt_step th s of None \<Rightarrow> None | Some s' \<Rightarrow> run_schedule ths s')"

definition joined :: "mt_state \<Rightarrow> bool" where
  "joined s \<longleftrightarrow> co_at s = Finished \<and> th_at (producers s 0) = Returned \<and> th_at (producers s 1) = Returned"


text \<open>
  The entry points, under a schedule: \<open>None\<close> when the schedule asks a blocked thread to step or stops
  before the threads have joined.
\<close>

definition run_pair_trace_multithread :: "script_op list \<times> script_op list \<Rightarrow> thread list \<Rightarrow> string option" where
  "run_pair_trace_multithread scripts schedule =
    (case run_schedule schedule (start_threads (pr_cpu0 (start_pair scripts)) (pr_cpu1 (start_pair scripts))
            (pr_arbiter (start_pair scripts))) of
       Some s \<Rightarrow> if joined s then Some (write_jsonl (arb_trace (mt_arbiter s))) else None
     | None \<Rightarrow> None)"

definition run_dual_demo_trace_multithread :: "thread list \<Rightarrow> string option" where
  "run_dual_demo_trace_multithread = run_pair_trace_multithread dual_demo_scripts"

definition run_contention_stress_trace_multithread :: "thread list \<Rightarrow> string option" where
  "run_contention_stress_trace_multithread = run_pair_trace_multithread contention_stress_scripts"

definition run_vdp1_source_event_stress_trace_multithread :: "thread list \<Rightarrow> string option" where
  "run_vdp1_source_event_stress_trace_multithread = run_pair_trace_multithread vdp1_source_event_stress_scripts"

definition run_vdp1_source_event_stress_trace_cpu1_owner_multithread :: "thread list \<Rightarrow> string option" where
  "run_vdp1_source_event_stress_trace_cpu1_owner_multithread =
     run_pair_trace_multithread vdp1_source_event_stress_scripts_cpu1_owner"

section \<open>A race\<close>

text \<open>Two scripts of one write each, on a small memory.\<close>

definition race_start :: mt_state where
  "race_start = start_threads (new_scripted_cpu 0 [write_op 0x10 1] 16 4) (new_scripted_cpu 1 [write_op 0x20 2] 16 4)
     (new_bus_arbiter (new_memory 64) new_device_hub new_trace default_latency)"

definition commit_times :: "bus_arbiter \<Rightarrow> (int \<times> tick \<times> tick) list" where
  "commit_times a = concat (map (\<lambda>e. case e of CommitLine c \<Rightarrow> [(cpu_id (ce_op c), t_start c, t_end c)] | _ \<Rightarrow> [])
     (events (arb_trace a)))"

abbreviation steps :: "nat \<Rightarrow> thread \<Rightarrow> thread list" where "steps \<equiv> replicate"

definition early_schedule :: "thread list" where
  "early_schedule = steps 4 (Producer 0) @ steps 4 (Producer 1) @ steps 14 Coordinator @
     steps 9 (Producer 0) @ steps 9 (Producer 1) @ steps 12 Coordinator"

definition late_schedule :: "thread list" where
  "late_schedule = steps 4 (Producer 0) @ steps 2 Coordinator @ steps 4 (Producer 1) @ steps 22 Coordinator @
     steps 9 (Producer 0) @ steps 9 (Producer 1) @ steps 12 Coordinator"

definition race_pair :: pair_state where
  "race_pair = \<lparr>pr_cpu0 = new_scripted_cpu 0 [write_op 0x10 1] 16 4,
     pr_cpu1 = new_scripted_cpu 1 [write_op 0x20 2] 16 4, pr_p0 = None, pr_p1 = None,
     pr_arbiter = new_bus_arbiter (new_memory 64) new_device_hub new_trace default_latency\<rparr>"

text \<open>
  The threaded run is not deterministic. Two one-write scripts that ask for the bus at the same
  tick: when the coordinator finds both requests it sees a tie and charges the turnaround, as the
  single-threaded run does; when the second request arrives between the two mailbox polls and the
  progress polls, the coordinator learns from the progress message that it may commit the first
  request without having seen the second, and the tie is missed. Both runs end normally, with
  different commit times.
\<close>

theorem threaded_run_depends_on_schedule:
  "map_option (\<lambda>s. (joined s, commit_times (mt_arbiter s))) (run_schedule early_schedule race_start) =
     Some (True, [(0, 0, 4), (1, 4, 7)]) \<and>
   map_option (\<lambda>s. (joined s, commit_times (mt_arbiter s))) (run_schedule late_schedule race_start) =
     Some (True, [(0, 0, 3), (1, 3, 6)]) \<and>
   map_option (\<lambda>s. commit_times (pr_arbiter s)) (run_scripted_pair 6 race_pair) = Some [(0, 0, 4), (1, 4, 7)]"
  by (intro conjI; code_simp)

end
