(* ===== verification/ThreadSafety.thy ===== *)
theory ThreadSafety
  imports MultiThread
begin

text \<open>
  Invariants of the threaded run: where the operation of each producer is, and that no thread sleeps
  through a message meant for it.
\<close>

section \<open>Runs keep invariants\<close>

text \<open>
  An invariant may count the steps so far, and need room for one more: a run of \<open>2 ^ 64\<close> steps could
  wrap the epoch.
\<close>

locale thread_invariant =
  fixes inv :: "nat \<Rightarrow> mt_state \<Rightarrow> bool"
    and room :: "nat \<Rightarrow> bool"
  assumes producer_keeps: "inv n s \<Longrightarrow> i < 2 \<Longrightarrow> room (Suc n) \<Longrightarrow> producer_step i s = Some t \<Longrightarrow> inv (Suc n) t"
    and coordinator_keeps: "inv n s \<Longrightarrow> room (Suc n) \<Longrightarrow> coordinator_step s = Some t \<Longrightarrow> inv (Suc n) t"
    and room_below: "room (Suc n) \<Longrightarrow> room n"
begin

lemma step_keeps: "inv n s \<Longrightarrow> room (Suc n) \<Longrightarrow> mt_step th s = Some t \<Longrightarrow> inv (Suc n) t"
  by (auto simp: mt_step_def split: thread.splits if_splits
      intro: producer_keeps coordinator_keeps)

lemma room_before: "room (n + k) \<Longrightarrow> room n"
  by (induction k) (auto dest: room_below)

lemma run_keeps:
  "inv n s \<Longrightarrow> room (n + length ths) \<Longrightarrow> run_schedule ths s = Some t \<Longrightarrow> inv (n + length ths) t"
proof (induction ths arbitrary: n s)
  case (Cons th ths)
  then obtain u where u: "mt_step th s = Some u" "run_schedule ths u = Some t"
    by (auto split: option.splits)
  have r: "room (Suc n + length ths)" using Cons.prems(2) by simp
  have "inv (Suc n) u" using step_keeps [OF Cons.prems(1) room_before [OF r] u(1)] .
  then show ?case using Cons.IH [OF _ r u(2)] by simp
qed simp

end

section \<open>Where an operation is\<close>

definition in_flight :: "nat \<Rightarrow> mt_state \<Rightarrow> nat" where
  "in_flight i s = length (requests s i) + of_bool (co_pending s i \<noteq> None) + length (responses s i) +
     of_bool (th_at (producers s i) = AtResponseProgress)"

definition lane :: "nat \<Rightarrow> mt_state \<Rightarrow> bool" where
  "lane i s \<longleftrightarrow> (let t = producers s i; p = th_at t; w = th_waiting t in
     in_flight i s = of_bool (w \<noteq> None) \<and>
     (\<forall>q \<in> set (requests s i). w = Some q) \<and> (co_pending s i \<noteq> None \<longrightarrow> co_pending s i = w) \<and>
     (p \<in> {AtRequestProgress, AtRequestNotify, AtWait} \<longrightarrow> w \<noteq> None) \<and>
     (p \<in> {AtResponseNotify, AtDone, AtDoneNotify, Returned} \<longrightarrow> w = None) \<and>
     (p \<in> {AtDone, AtDoneNotify, Returned} \<or> p = AtCheck \<and> w = None \<longrightarrow> sc_done (th_cpu t)) \<and>
     (done_flags s i \<longleftrightarrow> p \<in> {AtDoneNotify, Returned}))"

definition outbox_ok :: "mt_state \<Rightarrow> bool" where
  "outbox_ok s \<longleftrightarrow> distinct (map fst (co_outbox s)) \<and>
     (\<forall>i \<in> set (map fst (co_outbox s)). i < 2 \<and> co_pending s i \<noteq> None) \<and>
     (co_outbox s \<noteq> [] \<longrightarrow> co_at s = PushResponses \<and> co_committed s)"

definition flow :: "mt_state \<Rightarrow> bool" where
  "flow s \<longleftrightarrow> lane 0 s \<and> lane 1 s \<and> outbox_ok s"

lemma produce_none_done: "fst (produce c) = None \<Longrightarrow> sc_done (snd (produce c))"
proof (induction c rule: produce.induct)
  case (1 c)
  show ?case
    using 1 by (subst (asm) (3) produce.simps, subst produce.simps)
      (auto simp: Let_def issue_def issue_write_def issue_read_def split: script_op_kind.splits option.splits if_splits)
qed

lemmas access_defs = set_producer_def push_request_def push_response_def push_progress_def mt_notify_def

text \<open>The steps of a producer, one case per shared access.\<close>

lemma producer_stepE:
  assumes "producer_step i s = Some t"
  defines "u \<equiv> producers s i"
  obtains
    (request) p c where "th_at u = AtTop" "th_waiting u = None" "produce (th_cpu u) = (Some p, c)"
      "t = push_request i p (set_producer i (u\<lparr>th_at := AtRequestProgress, th_cpu := c, th_waiting := Some p\<rparr>) s)"
  | (finish) c where "th_at u = AtTop" "th_waiting u = None" "produce (th_cpu u) = (None, c)"
      "t = set_producer i (u\<lparr>th_at := AtCheck, th_cpu := c\<rparr>) s"
  | (again) "th_at u = AtTop" "th_waiting u = None \<longrightarrow> sc_done (th_cpu u)"
      "t = set_producer i (u\<lparr>th_at := AtCheck\<rparr>) s"
  | (request_progress) "th_at u = AtRequestProgress"
      "t = push_progress i (req_time (pb_op (the (th_waiting u))) + 1) (set_producer i (u\<lparr>th_at := AtRequestNotify\<rparr>) s)"
  | (request_notify) "th_at u = AtRequestNotify" "t = mt_notify (set_producer i (u\<lparr>th_at := AtCheck\<rparr>) s)"
  | (last_progress) "th_at u = AtCheck" "th_waiting u = None" "sc_done (th_cpu u)"
      "t = push_progress i (sc_local_time (th_cpu u)) (set_producer i (u\<lparr>th_at := AtDone\<rparr>) s)"
  | (sleep) "th_at u = AtCheck" "th_waiting u \<noteq> None \<or> \<not> sc_done (th_cpu u)" "responses s i = []"
      "t = set_producer i (u\<lparr>th_at := AtWait\<rparr>) s"
  | (respond) r rs where "th_at u = AtCheck" "th_waiting u \<noteq> None \<or> \<not> sc_done (th_cpu u)" "responses s i = r # rs"
      "t = set_producer i (u\<lparr>th_at := AtResponseProgress,
          th_cpu := fst (sc_apply_response (th_cpu u) (sr_script_index r) (sr_response r) (sr_token r) None)\<rparr>)
        (s\<lparr>responses := (responses s)(i := rs)\<rparr>)"
  | (response_progress) "th_at u = AtResponseProgress"
      "t = push_progress i (sc_local_time (th_cpu u))
        (set_producer i (u\<lparr>th_at := AtResponseNotify, th_waiting := None\<rparr>) s)"
  | (response_notify) "th_at u = AtResponseNotify" "t = mt_notify (set_producer i (u\<lparr>th_at := AtTop\<rparr>) s)"
  | (set_done) "th_at u = AtDone"
      "t = (set_producer i (u\<lparr>th_at := AtDoneNotify\<rparr>) s)\<lparr>done_flags := (done_flags s)(i := True)\<rparr>"
  | (done_notify) "th_at u = AtDoneNotify" "t = mt_notify (set_producer i (u\<lparr>th_at := Returned\<rparr>) s)"
  | (wake) "th_at u = AtWait" "epoch s \<noteq> th_seen_epoch u"
      "t = set_producer i (u\<lparr>th_at := AtTop, th_seen_epoch := epoch s\<rparr>) s"
proof (cases "th_at u")
  case AtTop
  show ?thesis
  proof (cases "th_waiting u = None \<and> \<not> sc_done (th_cpu u)")
    case True
    obtain q c where q: "produce (th_cpu u) = (q, c)" by fastforce
    show ?thesis
      using assms(1) AtTop True q request [of "the q" c] finish [of c]
      by (cases q) (simp_all add: producer_step_def u_def [symmetric])
  next
    case False
    then show ?thesis using assms(1) AtTop again by (auto simp: producer_step_def u_def [symmetric] Let_def)
  qed
next
  case AtCheck
  show ?thesis
  proof (cases "th_waiting u = None \<and> sc_done (th_cpu u)")
    case True
    then show ?thesis using assms(1) AtCheck last_progress by (simp add: producer_step_def u_def [symmetric])
  next
    case False
    then show ?thesis
      using assms(1) AtCheck sleep respond
      by (cases "responses s i") (auto simp: producer_step_def u_def [symmetric] Let_def)
  qed
next
  case AtWait
  then show ?thesis using assms(1) wake by (simp add: producer_step_def u_def [symmetric] split: if_splits)
qed (use assms(1) request_progress request_notify response_progress response_notify set_done done_notify
  in \<open>simp_all add: producer_step_def u_def [symmetric]\<close>)

text \<open>A producer touches its own lane only.\<close>

lemma producer_frame:
  assumes "producer_step i s = Some t"
  shows "j \<noteq> i \<Longrightarrow> producers t j = producers s j \<and> requests t j = requests s j \<and>
      responses t j = responses s j \<and> progresses t j = progresses s j \<and> done_flags t j = done_flags s j"
    and "co_at t = co_at s \<and> co_pending t = co_pending s \<and> co_progressed t = co_progressed s \<and>
      co_waiting_for_peer t = co_waiting_for_peer s \<and> co_no_pending t = co_no_pending s \<and>
      co_outbox t = co_outbox s \<and> co_committed t = co_committed s \<and> co_seen_epoch t = co_seen_epoch s \<and>
      mt_arbiter t = mt_arbiter s"
  using assms by (cases rule: producer_stepE, simp_all add: access_defs)+

lemma producer_lane:
  assumes "lane i s" "producer_step i s = Some t"
  shows "lane i t"
  using assms(2)
proof (cases rule: producer_stepE)
  case (finish c)
  then show ?thesis
    using assms(1) produce_none_done [of "th_cpu (producers s i)"]
    by (simp add: lane_def in_flight_def Let_def access_defs)
qed (use assms(1) in \<open>auto simp: lane_def in_flight_def Let_def access_defs of_bool_def split: if_splits\<close>)

section \<open>The steps of the coordinator\<close>

lemma coordinator_stepE:
  assumes "coordinator_step s = Some t"
  obtains
    (poll_request0) "co_at s = PopRequest0" "t = (pop_request 0 (s\<lparr>co_progressed := False\<rparr>))\<lparr>co_at := PopRequest1\<rparr>"
  | (poll_request1) "co_at s = PopRequest1" "t = (pop_request 1 s)\<lparr>co_at := PopProgress0\<rparr>"
  | (no_progress0) "co_at s = PopProgress0" "t = s\<lparr>co_at := PopProgress1\<rparr>"
  | (no_progress1) "co_at s = PopProgress1" "t = s\<lparr>co_at := LoadPeer\<rparr>"
  | (progress) i x xs where "i < 2" "co_at s \<in> {PopProgress0, PopProgress1}" "progresses s i = x # xs"
      "t = s\<lparr>progresses := (progresses s)(i := xs), co_progressed := True,
        mt_arbiter := update_progress (mt_arbiter s) (int i) x\<rparr>"
  | (load_peer) "co_at s = LoadPeer"
      "t = s\<lparr>co_waiting_for_peer := (co_pending s 0 \<noteq> None \<and> co_pending s 1 = None \<and> \<not> done_flags s 1) \<or>
            (co_pending s 1 \<noteq> None \<and> co_pending s 0 = None \<and> \<not> done_flags s 0),
          co_no_pending := co_pending s 0 = None \<and> co_pending s 1 = None, co_at := CommitBatch\<rparr>"
  | (nothing_pending) "co_at s = CommitBatch" "indexed_pending s = []" "t = s\<lparr>co_at := LoadDone0\<rparr>"
  | (batch) committed a where "co_at s = CommitBatch" "indexed_pending s \<noteq> []"
      "commit_batch default_priority_of (mt_arbiter s) (map (\<lambda>x. pb_op (snd x)) (indexed_pending s)) = (committed, a)"
      "t = s\<lparr>mt_arbiter := a, co_outbox := map (response_to (indexed_pending s)) committed,
             co_committed := committed \<noteq> [], co_at := PushResponses\<rparr>"
  | (push) i r rest where "co_at s = PushResponses" "co_outbox s = (i, r) # rest"
      "t = push_response i r (s\<lparr>co_outbox := rest, co_pending := (co_pending s)(i := None), co_progressed := True\<rparr>)"
  | (pushed) "co_at s = PushResponses" "co_outbox s = []"
      "t = s\<lparr>co_at := (if co_committed s then NotifyCommitted else LoadDone0)\<rparr>"
  | (signal) "co_at s = NotifyCommitted" "t = mt_notify (s\<lparr>co_at := LoadDone0\<rparr>)"
  | (load_done0) "co_at s = LoadDone0" "t = s\<lparr>co_at := (if done_flags s 0 then LoadDone1 else MaybeWait)\<rparr>"
  | (load_done1) "co_at s = LoadDone1"
      "t = s\<lparr>co_at := (if done_flags s 1 \<and> co_pending s 0 = None \<and> co_pending s 1 = None
                     then Finished else MaybeWait)\<rparr>"
  | (woken) "co_at s = MaybeWait" "epoch s \<noteq> co_seen_epoch s" "t = s\<lparr>co_seen_epoch := epoch s, co_at := PopRequest0\<rparr>"
  | (awake) "co_at s = MaybeWait" "co_progressed s \<or> \<not> co_waiting_for_peer s \<and> \<not> co_no_pending s"
      "t = s\<lparr>co_at := PopRequest0\<rparr>"
proof (cases "co_at s")
  case PopProgress0
  then show ?thesis
    using assms no_progress0 progress [of 0] by (auto simp: coordinator_step_def pop_progress_def split: list.splits)
next
  case PopProgress1
  then show ?thesis
    using assms no_progress1 progress [of 1] by (auto simp: coordinator_step_def pop_progress_def split: list.splits)
next
  case CommitBatch
  obtain committed a where c:
    "commit_batch default_priority_of (mt_arbiter s) (map (\<lambda>x. pb_op (snd x)) (indexed_pending s)) = (committed, a)"
    by fastforce
  show ?thesis
    using assms CommitBatch nothing_pending batch [OF _ _ c]
    by (cases "indexed_pending s = []") (simp_all add: coordinator_step_def Let_def c)
next
  case PushResponses
  show ?thesis
  proof (cases "co_outbox s")
    case Nil
    then show ?thesis using assms PushResponses pushed by (simp add: coordinator_step_def)
  next
    case (Cons x rest)
    then show ?thesis
      using assms PushResponses push [of "fst x" "snd x" rest] by (simp add: coordinator_step_def split_def)
  qed
next
  case MaybeWait
  then show ?thesis using assms woken awake by (auto simp: coordinator_step_def split: if_splits)
next
  case PopRequest0
  with assms show ?thesis by (intro poll_request0) (simp_all add: coordinator_step_def)
next
  case PopRequest1
  with assms show ?thesis by (intro poll_request1) (simp_all add: coordinator_step_def)
next
  case LoadPeer
  with assms show ?thesis by (intro load_peer) (simp_all add: coordinator_step_def Let_def)
next
  case NotifyCommitted
  with assms show ?thesis by (intro signal) (simp_all add: coordinator_step_def)
next
  case LoadDone0
  with assms show ?thesis by (intro load_done0) (simp_all add: coordinator_step_def)
next
  case LoadDone1
  with assms show ?thesis by (intro load_done1) (simp_all add: coordinator_step_def)
next
  case Finished
  with assms show ?thesis by (simp add: coordinator_step_def)
qed

lemma lane_cong [simp]:
  "lane i (s\<lparr>co_at := p\<rparr>) = lane i s" "lane i (s\<lparr>co_progressed := b\<rparr>) = lane i s"
  "lane i (s\<lparr>co_waiting_for_peer := b\<rparr>) = lane i s" "lane i (s\<lparr>co_no_pending := b\<rparr>) = lane i s"
  "lane i (s\<lparr>co_outbox := out\<rparr>) = lane i s" "lane i (s\<lparr>co_committed := b\<rparr>) = lane i s"
  "lane i (s\<lparr>co_seen_epoch := e\<rparr>) = lane i s" "lane i (s\<lparr>mt_arbiter := a\<rparr>) = lane i s"
  "lane i (s\<lparr>progresses := xs\<rparr>) = lane i s" "lane i (s\<lparr>epoch := e\<rparr>) = lane i s"
  by (simp_all add: lane_def in_flight_def Let_def)

lemma pop_request_lane:
  assumes "lane j s"
  shows "lane j (pop_request i s)"
proof (cases "co_pending s i = None \<and> requests s i \<noteq> []")
  case True
  then show ?thesis
    using assms
    by (cases "requests s i"; cases "i = j")
      (auto simp: pop_request_def lane_def in_flight_def Let_def of_bool_def split: if_splits)
next
  case False
  then show ?thesis using assms by (auto simp: pop_request_def split: list.splits)
qed

lemma coordinator_lane:
  assumes "lane j s" "outbox_ok s" "coordinator_step s = Some t"
  shows "lane j t"
  using assms(3)
proof (cases rule: coordinator_stepE)
  case (push i r rest)
  then have "co_pending s i \<noteq> None" using assms(2) by (auto simp: outbox_ok_def)
  then show ?thesis
    using push assms(1) by (cases "i = j")
      (auto simp: access_defs lane_def in_flight_def Let_def of_bool_def split: if_splits)
qed (use assms(1) pop_request_lane in \<open>simp_all add: mt_notify_def\<close>)

text \<open>Each CPU gets at most one response from a batch, and only for what it has pending.\<close>

lemma indexed_pending_facts:
  "distinct (map fst (indexed_pending s))"
  "x \<in> set (indexed_pending s) \<Longrightarrow> fst x < 2 \<and> co_pending s (fst x) = Some (snd x)"
  by (auto simp: indexed_pending_def split: option.splits)

lemma response_to_fst:
  "fst (response_to pending r) = fst (pending ! input_index r)"
  by (simp add: response_to_def split_def Let_def)

lemma batch_outbox:
  assumes "commit_batch policy a (map (\<lambda>x. pb_op (snd x)) (indexed_pending s)) = (committed, b)"
  defines "out \<equiv> map (response_to (indexed_pending s)) committed"
  shows "distinct (map fst out)" and "i \<in> set (map fst out) \<Longrightarrow> i < 2 \<and> co_pending s i \<noteq> None"
proof -
  let ?p = "indexed_pending s"
  have d: "distinct (map input_index committed)"
    and b: "\<And>r. r \<in> set committed \<Longrightarrow> input_index r < length ?p"
    using batch_results [where policy = policy and a = a and ops = "map (\<lambda>x. pb_op (snd x)) ?p", OF refl]
    by (auto simp: assms(1))
  have m: "map fst out = map (\<lambda>k. map fst ?p ! k) (map input_index committed)"
    using b by (simp add: out_def response_to_fst)
  have "inj_on (\<lambda>k. map fst ?p ! k) (set (map input_index committed))"
    using indexed_pending_facts(1) [of s] b
    by (auto simp: inj_on_def distinct_conv_nth)
  then show "distinct (map fst out)"
    unfolding m using d by (simp add: distinct_map comp_inj_on)
  show "i < 2 \<and> co_pending s i \<noteq> None" if i: "i \<in> set (map fst out)"
  proof -
    obtain r where r: "r \<in> set committed" "i = fst (?p ! input_index r)"
      using i by (auto simp: out_def response_to_fst)
    show ?thesis using indexed_pending_facts(2) [OF nth_mem [OF b [OF r(1)]]] by (simp add: r(2))
  qed
qed

lemma coordinator_outbox:
  assumes "outbox_ok s" "coordinator_step s = Some t"
  shows "outbox_ok t"
  using assms(2)
proof (cases rule: coordinator_stepE)
  case (batch committed a)
  then show ?thesis
    using batch_outbox [OF batch(3)] by (auto simp: outbox_ok_def)
next
  case (push i r rest)
  then show ?thesis using assms(1) by (auto simp: outbox_ok_def access_defs)
qed (use assms(1) in \<open>auto simp: outbox_ok_def mt_notify_def pop_request_def split: list.splits\<close>)

interpretation flow: thread_invariant "\<lambda>_. flow" "\<lambda>_. True"
proof
  fix n s i t
  assume "flow s" "i < (2 :: nat)" and p: "producer_step i s = Some t"
  moreover have "lane j t" if "lane j s" for j
    using that producer_lane [OF _ p] producer_frame [OF p]
    by (cases "j = i") (auto simp: lane_def in_flight_def Let_def)
  ultimately show "flow t"
    using producer_frame(2) [OF p] by (simp add: flow_def outbox_ok_def)
next
  fix n s t
  assume "flow s" "coordinator_step s = Some t"
  then show "flow t"
    by (auto simp: flow_def intro: coordinator_lane coordinator_outbox)
qed

section \<open>No message is slept through\<close>

text \<open>
  What a sleeper relies on: a message it has not seen was pushed by a thread that is about to signal,
  or the epoch has moved past the one the sleeper last saw.
\<close>

definition epochs_ok :: "nat \<Rightarrow> mt_state \<Rightarrow> bool" where
  "epochs_ok n s \<longleftrightarrow> unat (epoch s) \<le> n \<and> co_seen_epoch s \<le> epoch s \<and>
     (\<forall>i < 2. th_seen_epoch (producers s i) \<le> epoch s)"

definition response_signalled :: "nat \<Rightarrow> mt_state \<Rightarrow> bool" where
  "response_signalled i s \<longleftrightarrow> (responses s i \<noteq> [] \<and> th_at (producers s i) = AtWait \<longrightarrow>
     epoch s \<noteq> th_seen_epoch (producers s i) \<or> co_at s \<in> {PushResponses, NotifyCommitted} \<and> co_committed s)"

definition polled :: "nat \<Rightarrow> mt_state \<Rightarrow> bool" where
  "polled i s \<longleftrightarrow> co_at s \<noteq> PopRequest0 \<and> (i = 0 \<or> co_at s \<noteq> PopRequest1)"

definition request_signalled :: "nat \<Rightarrow> mt_state \<Rightarrow> bool" where
  "request_signalled i s \<longleftrightarrow>
     (requests s i \<noteq> [] \<and> co_pending s i = None \<and> \<not> co_progressed s \<and> polled i s \<longrightarrow>
        th_at (producers s i) \<in> {AtRequestProgress, AtRequestNotify} \<or> epoch s \<noteq> co_seen_epoch s)"

definition after_load :: "mt_state \<Rightarrow> bool" where
  "after_load s \<longleftrightarrow> co_at s \<in> {CommitBatch, PushResponses, NotifyCommitted, LoadDone0, LoadDone1, MaybeWait}"

definition done_signalled :: "nat \<Rightarrow> mt_state \<Rightarrow> bool" where
  "done_signalled i s \<longleftrightarrow> (done_flags s i \<longrightarrow>
     th_at (producers s i) = AtDoneNotify \<or> epoch s \<noteq> co_seen_epoch s)"

definition peer_signalled :: "mt_state \<Rightarrow> bool" where
  "peer_signalled s \<longleftrightarrow> (after_load s \<and> \<not> co_progressed s \<longrightarrow>
     (co_waiting_for_peer s \<longrightarrow>
        co_pending s 0 \<noteq> None \<and> co_pending s 1 = None \<and> done_signalled 1 s \<or>
        co_pending s 1 \<noteq> None \<and> co_pending s 0 = None \<and> done_signalled 0 s) \<and>
     (co_no_pending s \<longrightarrow> co_pending s 0 = None \<and> co_pending s 1 = None))"

definition finish_signalled :: "mt_state \<Rightarrow> bool" where
  "finish_signalled s \<longleftrightarrow>
     (co_at s = MaybeWait \<and> \<not> co_progressed s \<and> co_no_pending s \<longrightarrow> done_signalled 0 s \<or> done_signalled 1 s) \<and>
     (co_at s \<in> {LoadDone1, Finished} \<longrightarrow> done_flags s 0) \<and> (co_at s = Finished \<longrightarrow> done_flags s 1)"

definition signals :: "nat \<Rightarrow> mt_state \<Rightarrow> bool" where
  "signals n s \<longleftrightarrow> flow s \<and> epochs_ok n s \<and> (\<forall>i < 2. response_signalled i s \<and> request_signalled i s) \<and>
     peer_signalled s \<and> finish_signalled s"

lemma epoch_succ:
  fixes e :: u64
  assumes "unat e \<le> n" "Suc n < 2 ^ 64"
  shows "unat (e + 1) \<le> Suc n" "x \<le> e \<Longrightarrow> e + 1 \<noteq> x" "x \<le> e \<Longrightarrow> x \<le> e + 1"
proof -
  have u: "unat (e + 1) = unat e + 1"
    using assms by (simp add: unat_word_ariths)
  show "unat (e + 1) \<le> Suc n" using assms by (simp add: u)
  show "e + 1 \<noteq> x" "x \<le> e + 1" if "x \<le> e"
    using that u by (auto simp: word_le_nat_alt)
qed

lemma producer_epoch:
  assumes "epochs_ok n s" "Suc n < 2 ^ 64" "producer_step i s = Some t"
  shows "epochs_ok (Suc n) t" "epoch t = epoch s \<or> (\<forall>x \<le> epoch s. epoch t \<noteq> x)"
proof -
  note e = epoch_succ [of "epoch s" n]
  show "epochs_ok (Suc n) t"
    using assms(3) by (cases rule: producer_stepE) (use assms(1,2) e in \<open>auto simp: epochs_ok_def access_defs\<close>)
  show "epoch t = epoch s \<or> (\<forall>x \<le> epoch s. epoch t \<noteq> x)"
    using assms(3) by (cases rule: producer_stepE) (use assms(1,2) e in \<open>auto simp: epochs_ok_def access_defs\<close>)
qed

lemma coordinator_epoch:
  assumes "epochs_ok n s" "Suc n < 2 ^ 64" "coordinator_step s = Some t"
  shows "epochs_ok (Suc n) t" "epoch t = epoch s \<or> co_at s = NotifyCommitted \<and> (\<forall>x \<le> epoch s. epoch t \<noteq> x)"
    "producers t = producers s"
proof -
  note e = epoch_succ [of "epoch s" n]
  show "epochs_ok (Suc n) t"
    using assms(3) by (cases rule: coordinator_stepE)
      (use assms(1,2) e in \<open>auto simp: epochs_ok_def access_defs pop_request_def split: list.splits\<close>)
  show "epoch t = epoch s \<or> co_at s = NotifyCommitted \<and> (\<forall>x \<le> epoch s. epoch t \<noteq> x)"
    using assms(3) by (cases rule: coordinator_stepE)
      (use assms(1,2) e in \<open>auto simp: epochs_ok_def access_defs pop_request_def split: list.splits\<close>)
  show "producers t = producers s"
    using assms(3) by (cases rule: coordinator_stepE)
      (auto simp: access_defs pop_request_def split: list.splits)
qed

text \<open>A producer signals what it pushes, and sleeps only on an empty response box.\<close>

text \<open>What a producer's own step may change in its lane that the signals speak about.\<close>

lemma producer_own:
  assumes "lane i s" "producer_step i s = Some t"
  shows "responses t i \<noteq> [] \<Longrightarrow> th_at (producers t i) = AtWait \<Longrightarrow>
      responses s i \<noteq> [] \<and> th_at (producers s i) = AtWait \<and>
      th_seen_epoch (producers t i) = th_seen_epoch (producers s i)"
    and "requests t i \<noteq> [] \<Longrightarrow> th_at (producers t i) \<in> {AtRequestProgress, AtRequestNotify} \<or>
      requests s i \<noteq> [] \<and> th_at (producers s i) \<notin> {AtRequestProgress, AtRequestNotify} \<or> epoch t = epoch s + 1"
    and "done_flags t i \<Longrightarrow> th_at (producers t i) = AtDoneNotify \<or>
      done_flags s i \<and> th_at (producers s i) \<noteq> AtDoneNotify \<or> epoch t = epoch s + 1"
    and "done_flags s j \<Longrightarrow> done_flags t j"
  using assms(2,1) by (cases rule: producer_stepE, simp_all add: access_defs lane_def Let_def split: if_splits)+

lemma producer_signals:
  assumes "signals n s" "i < 2" "Suc n < 2 ^ 64" "producer_step i s = Some t"
  shows "signals (Suc n) t"
proof -
  have f: "flow s" and e: "epochs_ok n s" and li: "lane i s"
    using assms(1,2) by (auto simp: signals_def flow_def less_2_cases_iff)
  note frame = producer_frame [OF assms(4)] and ep = producer_epoch [OF e assms(3,4)]
  have seen: "co_seen_epoch s \<le> epoch s" "\<And>j. j < 2 \<Longrightarrow> th_seen_epoch (producers s j) \<le> epoch s"
    using e by (auto simp: epochs_ok_def)
  note own = producer_own [OF li assms(4)]
  have c: "co_seen_epoch t = co_seen_epoch s" "co_pending t = co_pending s" "co_progressed t = co_progressed s"
    "co_at t = co_at s" "co_committed t = co_committed s" using frame(2) by simp_all
  have "epoch t = epoch s + 1 \<Longrightarrow> epoch t \<noteq> co_seen_epoch s"
    using epoch_succ(2) [of "epoch s" n] e assms(3) seen(1) by (auto simp: epochs_ok_def)
  moreover have moved: "epoch s \<noteq> x \<Longrightarrow> x \<le> epoch s \<Longrightarrow> epoch t \<noteq> x" for x using ep(2) by metis
  ultimately have co_moved: "epoch t = epoch s + 1 \<or> epoch s \<noteq> co_seen_epoch s \<Longrightarrow> epoch t \<noteq> co_seen_epoch s"
    using seen(1) by blast
  have ds: "done_signalled j t" if d: "done_signalled j s" for j
  proof (cases "j = i")
    case True
    then show ?thesis using d own(3) co_moved unfolding done_signalled_def c by blast
  next
    case False
    then show ?thesis using d frame(1) [OF False] co_moved unfolding done_signalled_def c by metis
  qed
  have "response_signalled j t \<and> request_signalled j t" if j: "j < 2" for j
  proof -
    have s: "response_signalled j s" "request_signalled j s" using assms(1) j by (auto simp: signals_def)
    note m = moved [OF _ seen(2) [OF j]]
    show ?thesis
    proof (cases "j = i")
      case True
      have "response_signalled j t"
        using s(1) own(1) m unfolding response_signalled_def c True by metis
      moreover have "request_signalled j t"
        using s(2) own(2) co_moved unfolding request_signalled_def polled_def c True by blast
      ultimately show ?thesis ..
    next
      case False
      have "response_signalled j t"
        using s(1) frame(1) [OF False] m unfolding response_signalled_def c by metis
      moreover have "request_signalled j t"
        using s(2) frame(1) [OF False] co_moved unfolding request_signalled_def polled_def c by metis
      ultimately show ?thesis ..
    qed
  qed
  moreover have "peer_signalled t"
    using assms(1) ds [of 0] ds [of 1] frame(2) by (auto simp: signals_def peer_signalled_def after_load_def)
  moreover have "finish_signalled t"
    using assms(1) own(4) ds [of 0] ds [of 1] frame(2) by (auto simp: signals_def finish_signalled_def)
  moreover have "flow t" using flow.producer_keeps [OF f assms(2) TrueI assms(4)] .
  ultimately show ?thesis using ep(1) by (simp add: signals_def)
qed

text \<open>The coordinator looks at every box after it saw the epoch, and signals what it pushes.\<close>

lemma coordinator_response_signalled:
  assumes "response_signalled i s" "epochs_ok n s" "i < 2" "outbox_ok s" "Suc n < 2 ^ 64" "coordinator_step s = Some t"
  shows "response_signalled i t"
proof -
  have "th_seen_epoch (producers s i) \<le> epoch s" using assms(2,3) by (simp add: epochs_ok_def)
  note new = epoch_succ(2) [OF _ assms(5) this]
  have le: "unat (epoch s) \<le> n" using assms(2) by (simp add: epochs_ok_def)
  show ?thesis
    using assms(6)
  proof (cases rule: coordinator_stepE)
    case signal
    then show ?thesis using new le by (simp add: response_signalled_def mt_notify_def)
  next
    case (push j r rest)
    then have "co_committed s" using assms(4) by (simp add: outbox_ok_def)
    then show ?thesis using push assms(1) by (auto simp: response_signalled_def access_defs)
  qed (use assms(1,4) in \<open>auto simp: response_signalled_def pop_request_def outbox_ok_def split: list.splits\<close>)
qed

lemma coordinator_request_signalled:
  assumes "request_signalled i s" "epochs_ok n s" "i < 2" "Suc n < 2 ^ 64" "coordinator_step s = Some t"
  shows "request_signalled i t"
proof -
  have le: "unat (epoch s) \<le> n" "co_seen_epoch s \<le> epoch s" using assms(2) by (simp_all add: epochs_ok_def)
  show ?thesis
    using assms(5)
  proof (cases rule: coordinator_stepE)
    case poll_request0
    then show ?thesis
      using assms(3) by (auto simp: request_signalled_def polled_def pop_request_def split: list.splits)
  next
    case poll_request1
    then show ?thesis
      using assms(1,3) by (auto simp: request_signalled_def polled_def pop_request_def less_2_cases_iff split: list.splits)
  next
    case signal
    then show ?thesis
      using epoch_succ(2) [OF le(1) assms(4) le(2)] by (simp add: request_signalled_def mt_notify_def)
  qed (use assms(1) in \<open>simp_all add: request_signalled_def polled_def access_defs\<close>)
qed

lemma coordinator_peer_signalled:
  assumes "peer_signalled s" "finish_signalled s" "epochs_ok n s" "Suc n < 2 ^ 64" "coordinator_step s = Some t"
  shows "peer_signalled t \<and> finish_signalled t"
proof -
  have le: "unat (epoch s) \<le> n" "co_seen_epoch s \<le> epoch s" using assms(3) by (simp_all add: epochs_ok_def)
  note new = epoch_succ(2) [OF le(1) assms(4) le(2)]
  show ?thesis
    using assms(5)
  proof (cases rule: coordinator_stepE)
    case signal
    then show ?thesis
      using assms(1) new
      by (auto simp: peer_signalled_def finish_signalled_def after_load_def done_signalled_def mt_notify_def)
  qed (use assms(1,2) in \<open>auto simp: peer_signalled_def finish_signalled_def after_load_def done_signalled_def
      access_defs pop_request_def split: list.splits\<close>)
qed

interpretation signals: thread_invariant signals "\<lambda>n. n < 2 ^ 64"
proof
  fix n s i t
  assume "signals n s" "i < (2 :: nat)" "Suc n < 2 ^ 64" "producer_step i s = Some t"
  then show "signals (Suc n) t" by (rule producer_signals)
next
  fix n s t
  assume s: "signals n s" and n: "Suc n < 2 ^ 64" and c: "coordinator_step s = Some t"
  have o: "outbox_ok s" using s by (simp add: signals_def flow_def)
  show "signals (Suc n) t"
    using s coordinator_response_signalled [OF _ _ _ o n c] coordinator_request_signalled [OF _ _ _ n c]
      coordinator_peer_signalled [OF _ _ _ n c] coordinator_epoch(1) [OF _ n c] flow.coordinator_keeps [OF _ TrueI c]
    by (simp add: signals_def)
qed simp

lemma start_threads_signals: "signals 0 (start_threads c0 c1 a)"
  by (simp add: signals_def flow_def lane_def in_flight_def outbox_ok_def epochs_ok_def response_signalled_def
      request_signalled_def peer_signalled_def after_load_def finish_signalled_def start_threads_def new_producer_def Let_def)

lemma run_signals:
  "run_schedule ths (start_threads c0 c1 a) = Some s \<Longrightarrow> length ths < 2 ^ 64 \<Longrightarrow> signals (length ths) s"
  using signals.run_keeps [OF start_threads_signals] by simp

lemma lane_done: "lane i s \<Longrightarrow> done_flags s i \<longleftrightarrow> th_at (producers s i) \<in> {AtDoneNotify, Returned}"
  by (simp add: lane_def Let_def)

text \<open>A blocked producer has returned, or sleeps with its operation at the coordinator.\<close>

lemma blocked_producer:
  assumes "signals n s" "i < 2" "producer_step i s = None" "co_at s \<notin> {PushResponses, NotifyCommitted}"
  shows "th_at (producers s i) = Returned \<and> done_flags s i \<or>
     th_at (producers s i) = AtWait \<and> (requests s i \<noteq> [] \<or> co_pending s i \<noteq> None)"
proof -
  have l: "lane i s" and r: "response_signalled i s"
    using assms(1,2) by (auto simp: signals_def flow_def less_2_cases_iff)
  have "th_at (producers s i) = Returned \<or>
      th_at (producers s i) = AtWait \<and> epoch s = th_seen_epoch (producers s i)"
    using assms(3) by (auto simp: producer_step_def Let_def split: producer_point.splits if_splits list.splits
        option.splits prod.splits)
  then show ?thesis
    using l r assms(4) by (auto simp: lane_def in_flight_def response_signalled_def Let_def of_bool_def split: if_splits)
qed

lemma blocked_coordinator:
  assumes "coordinator_step s = None"
  shows "co_at s = Finished \<or> co_at s = MaybeWait \<and> \<not> co_progressed s \<and> epoch s = co_seen_epoch s \<and>
     (co_waiting_for_peer s \<or> co_no_pending s)"
  using assms by (auto simp: coordinator_step_def Let_def split: coordinator_point.splits if_splits list.splits
      prod.splits)

text \<open>
  (C8) The threaded run cannot deadlock. Whatever the schedule, a reachable state in which the three
  threads have not all returned lets some thread step: no thread sleeps on the signal hub while a
  message, a response or the done flag it waits for is there without a signal. (The epoch is 64 bits
  wide; the statement is about runs shorter than its wrap-around.)
\<close>

theorem threads_never_deadlock:
  assumes "run_schedule ths (start_threads c0 c1 a) = Some s" "length ths < 2 ^ 64" "\<not> joined s"
  shows "mt_step (Producer 0) s \<noteq> None \<or> mt_step (Producer 1) s \<noteq> None \<or> mt_step Coordinator s \<noteq> None"
proof (rule ccontr)
  assume "\<not> ?thesis"
  then have p: "\<And>i. i < 2 \<Longrightarrow> producer_step i s = None" and c: "coordinator_step s = None"
    by (auto simp: mt_step_def less_2_cases_iff)
  have sig: "signals (length ths) s" using run_signals assms(1,2) .
  note co = blocked_coordinator [OF c]
  then have b: "th_at (producers s i) = Returned \<and> done_flags s i \<or>
      th_at (producers s i) = AtWait \<and> (requests s i \<noteq> [] \<or> co_pending s i \<noteq> None)" if "i < 2" for i
    using blocked_producer [OF sig that p [OF that]] by auto
  have d: "th_at (producers s i) = Returned" if "done_flags s i" "i < 2" for i
  proof -
    have "lane i s" using sig that(2) by (auto simp: signals_def flow_def less_2_cases_iff)
    then show ?thesis using b [OF that(2)] lane_done [of i s] that(1) by auto
  qed
  show False
  proof (cases "co_at s = Finished")
    case True
    then have "done_flags s 0 \<and> done_flags s 1" using sig by (simp add: signals_def finish_signalled_def)
    then show False using True d assms(3) by (simp add: joined_def)
  next
    case False
    have w: "co_pending s i \<noteq> None" if "i < 2" "done_signalled i s" for i
      using sig that b [OF that(1)] co False
      by (auto simp: signals_def request_signalled_def polled_def done_signalled_def)
    show False using sig co False w [of 0] w [of 1]
      by (auto simp: signals_def peer_signalled_def after_load_def finish_signalled_def)
  qed
qed

lemma threads_never_deadlock_witness:
  "let s = the (run_schedule (take 20 early_schedule) race_start) in \<not> joined s \<and>
     (mt_step (Producer 0) s \<noteq> None \<or> mt_step (Producer 1) s \<noteq> None \<or> mt_step Coordinator s \<noteq> None)"
proof -
  let ?r = "run_schedule (take 20 early_schedule) race_start"
  have r: "map_option joined ?r = Some False" by code_simp
  then obtain s where s: "?r = Some s" "\<not> joined s" by auto
  have l: "length (take 20 early_schedule) < 2 ^ 64" by simp
  show ?thesis
    using threads_never_deadlock [OF s(1) [unfolded race_start_def] l s(2)] s by (simp add: Let_def)
qed

end
