(* ===== verification/ThreadOrder.thy ===== *)
theory ThreadOrder
  imports ThreadSafety
begin

text \<open>
  The clocks of the threaded run: what a CPU announces never runs ahead of its clock, so the
  coordinator commits in the order of the request times, in every schedule. The sum of the clocks
  and of what the scripts still owe does not grow, which bounds every clock by the scripts. A CPU without
  work holds the horizon back for ever.
\<close>

section \<open>Time of a scripted CPU\<close>

text \<open>The ticks a script may still take: its computes, and a latency for every operation.\<close>

definition script_work :: "nat \<Rightarrow> script_op list \<Rightarrow> nat" where
  "script_work latency script = (\<Sum>ins\<leftarrow>script. unat (so_cycles ins) + latency)"

definition work_left :: "nat \<Rightarrow> scripted_cpu \<Rightarrow> nat" where
  "work_left latency c = script_work latency (drop (sc_pc c) (sc_script c))"

definition now :: "scripted_cpu \<Rightarrow> nat" where
  "now c = unat (sc_local_time c)"

lemma work_left_next:
  assumes "\<not> sc_done c" "sc_pc d = sc_pc c + 1" "sc_script d = sc_script c"
  shows "work_left l c = unat (so_cycles (sc_script c ! sc_pc c)) + l + work_left l d"
  using assms by (simp add: work_left_def script_work_def sc_done_def Cons_nth_drop_Suc [symmetric])

lemma issue_facts:
  assumes "issue c op = (r, d)"
  shows "r = Some \<lparr>pb_op = op, pb_script_index = sc_pc c\<rparr>" "sc_pc d = sc_pc c + 1" "sc_script d = sc_script c"
    "now d = now c" "sc_cpu_id d = sc_cpu_id c" "sc_local_time d = sc_local_time c"
  using assms by (auto simp: issue_def now_def)

text \<open>What \<open>produce\<close> does to the clock, and how it stamps the operation it issues.\<close>

definition stamped :: "pending_bus_op \<Rightarrow> scripted_cpu \<Rightarrow> bool" where
  "stamped p c \<longleftrightarrow> req_time (pb_op p) = sc_local_time c \<and> cpu_id (pb_op p) = sc_cpu_id c \<and>
     producer (pb_op p) = ProducerAuto"

lemma produce_issues:
  assumes "\<not> sc_done c" "so_kind (sc_script c ! sc_pc c) \<noteq> ScCompute"
    "so_kind (sc_script c ! sc_pc c) = ScRead \<Longrightarrow> local_read c (sc_script c ! sc_pc c) = None"
    "produce c = (r, d)"
  shows "sc_pc d = sc_pc c + 1 \<and> sc_script d = sc_script c \<and> sc_local_time d = sc_local_time c \<and>
    sc_cpu_id d = sc_cpu_id c \<and> (\<exists>p. r = Some p \<and> stamped p c)"
  using assms
  by (cases "so_kind (sc_script c ! sc_pc c)")
    (auto simp: produce.simps [of c] Let_def issue_def issue_write_def issue_read_def stamped_def bus_op_of_def)

lemma produce_time:
  assumes "produce c = (r, d)" "now c + work_left l c < 2 ^ 64"
  shows "now d + work_left l d + (if r = None then 0 else l) \<le> now c + work_left l c \<and> now c \<le> now d \<and>
    sc_cpu_id d = sc_cpu_id c \<and> (\<forall>p. r = Some p \<longrightarrow> stamped p d)"
  using assms
proof (induction c arbitrary: r d rule: produce.induct)
  case (1 c)
  let ?ins = "sc_script c ! sc_pc c"
  consider (ended) "sc_done c" | (compute) "\<not> sc_done c" "so_kind ?ins = ScCompute"
    | (answered) v where "\<not> sc_done c" "so_kind ?ins = ScRead" "local_read c ?ins = Some v"
    | (asks) "\<not> sc_done c" "so_kind ?ins \<noteq> ScCompute" "so_kind ?ins = ScRead \<Longrightarrow> local_read c ?ins = None"
    by (cases "local_read c ?ins") auto
  then show ?case
  proof cases
    case ended
    then show ?thesis using "1.prems" by (simp add: produce.simps [of c])
  next
    case compute
    let ?e = "c\<lparr>sc_local_time := sc_local_time c + ucast (so_cycles ?ins), sc_pc := sc_pc c + 1\<rparr>"
    have p: "produce ?e = (r, d)" using "1.prems"(1) compute by (simp add: produce.simps [of c] Let_def)
    have w: "work_left l c = unat (so_cycles ?ins) + l + work_left l ?e"
      by (rule work_left_next [OF compute(1)]) simp_all
    have n: "now ?e = now c + unat (so_cycles ?ins)"
      using "1.prems"(2) w by (simp add: now_def unat_word_ariths)
    show ?thesis
      using "1.IH"(2) [OF compute(1) refl compute(2) p] "1.prems"(2) w n by simp
  next
    case answered
    let ?e = "c\<lparr>sc_last_read := Some v, sc_pc := sc_pc c + 1\<rparr>"
    have p: "produce ?e = (r, d)" using "1.prems"(1) answered by (simp add: produce.simps [of c] Let_def)
    have w: "work_left l c = unat (so_cycles ?ins) + l + work_left l ?e"
      by (rule work_left_next [OF answered(1)]) simp_all
    have n: "now ?e = now c" by (simp add: now_def)
    show ?thesis
      using "1.IH"(1) [OF answered(1) refl answered(2,3) p] "1.prems"(2) w n by simp
  next
    case asks
    note i = produce_issues [OF asks "1.prems"(1)]
    then have "work_left l c = unat (so_cycles ?ins) + l + work_left l d" by (intro work_left_next [OF asks(1)]) simp_all
    then show ?thesis using i by (auto simp: now_def stamped_def)
  qed
qed

lemma apply_response_time:
  "sc_local_time (fst (sc_apply_response c i rsp token tr)) = sc_local_time c + rsp_stall rsp"
  "sc_cpu_id (fst (sc_apply_response c i rsp token tr)) = sc_cpu_id c"
  "work_left l (fst (sc_apply_response c i rsp token tr)) = work_left l c"
  by (simp_all add: sc_apply_response_def Let_def work_left_def)

section \<open>The requests a batch logs\<close>

definition commit_requests :: "bus_arbiter \<Rightarrow> tick list" where
  "commit_requests a = concat (map (\<lambda>e. case e of CommitLine c \<Rightarrow> [req_time (ce_op c)] | _ \<Rightarrow> []) (events (arb_trace a)))"

lemma execute_logs: "commit_requests (snd (execute_commit a op tie)) = commit_requests a @ [req_time op]"
proof (cases "accepted a op")
  case True
  then show ?thesis by (simp add: commit_requests_def execute_accepted_facts(8))
next
  case False
  then show ?thesis using execute_rejected_facts(2) [OF False, of tie] by (auto simp: commit_requests_def)
qed

lemma batch_loop_logs:
  "commit_requests (snd (batch_loop policy a pending)) =
     commit_requests a @ map (\<lambda>r. req_time (cr_op r)) (fst (batch_loop policy a pending))"
proof (induction a pending rule: batch_induct [where policy = policy])
  case (round a pending i tie rsp a1)
  have "a1 = snd (execute_commit a (cr_op (pending ! i)) tie)" using round(6) by simp
  then show ?case using round(8) unfolding round(7) by (simp add: execute_logs)
qed simp

lemma commit_batch_logs:
  assumes "slot_monotone ops"
  shows "commit_requests (snd (commit_batch policy a ops)) =
     commit_requests a @ map (\<lambda>r. req_time (cr_op r)) (fst (commit_batch policy a ops))"
proof (cases "should_halt (arb_trace a)")
  case True
  then show ?thesis using batch_halted [OF True, of policy ops] by (simp add: commit_requests_def)
next
  case False
  have "commit_requests (snd (enqueue_loop (fresh_enqueue a) 0 ops)) = commit_requests a"
    using enqueue_fresh [OF assms False] by (simp add: commit_requests_def)
  then show ?thesis unfolding commit_batch_split by (simp add: batch_loop_logs)
qed

lemma commit_batch_latency: "arb_latency (snd (commit_batch policy a ops)) = arb_latency a"
  using batch_subset [of policy "snd (enqueue_loop (fresh_enqueue a) 0 ops)" "fst (enqueue_loop (fresh_enqueue a) 0 ops)"]
    enqueue_frame [of "fresh_enqueue a" 0 ops] unfolding commit_batch_split
  by (simp add: commit_frame_def prod_eq_iff)

section \<open>The invariant of the clocks\<close>

definition cpu_of :: "nat \<Rightarrow> mt_state \<Rightarrow> scripted_cpu" where
  "cpu_of i s = th_cpu (producers s i)"

text \<open>
  An operation on its way to the coordinator is stamped with its CPU's clock, which stands still until
  the response is applied; what the CPU has announced is at most one tick ahead of that clock.
\<close>

definition lane_time :: "nat \<Rightarrow> mt_state \<Rightarrow> bool" where
  "lane_time i s \<longleftrightarrow> sc_cpu_id (cpu_of i s) = int i \<and>
     (\<forall>q. th_waiting (producers s i) = Some q \<longrightarrow> th_at (producers s i) \<noteq> AtResponseProgress \<longrightarrow> stamped q (cpu_of i s)) \<and>
     unat (progress_up_to (mt_arbiter s) i) \<le> now (cpu_of i s) + 1 \<and>
     (\<forall>m \<in> set (progresses s i). unat m \<le> now (cpu_of i s) + 1)"

definition log_ok :: "mt_state \<Rightarrow> bool" where
  "log_ok s \<longleftrightarrow> sorted (commit_requests (mt_arbiter s)) \<and>
     (\<forall>i < 2. \<forall>r \<in> set (commit_requests (mt_arbiter s)). r \<le> sc_local_time (cpu_of i s))"

text \<open>No clock, no announced response and not the bus are past \<open>U\<close>; what may still be added is owed.\<close>

definition within :: "nat \<Rightarrow> nat \<Rightarrow> mt_state \<Rightarrow> bool" where
  "within U i s \<longleftrightarrow> now (cpu_of i s) \<le> U \<and>
     (\<forall>r \<in> set (responses s i). now (cpu_of i s) + unat (rsp_stall (sr_response r)) \<le> U) \<and>
     (\<forall>r. (i, r) \<in> set (co_outbox s) \<longrightarrow> now (cpu_of i s) + unat (rsp_stall (sr_response r)) \<le> U)"

definition uncommitted :: "nat \<Rightarrow> mt_state \<Rightarrow> bool" where
  "uncommitted i s \<longleftrightarrow> requests s i \<noteq> [] \<or> co_pending s i \<noteq> None \<and> i \<notin> fst ` set (co_outbox s)"

definition owed :: "nat \<Rightarrow> nat \<Rightarrow> mt_state \<Rightarrow> nat" where
  "owed l i s = work_left l (cpu_of i s) + (if uncommitted i s then l else 0)"

definition clocks :: "latency_model \<Rightarrow> nat \<Rightarrow> mt_state \<Rightarrow> bool" where
  "clocks lat K s \<longleftrightarrow> arb_latency (mt_arbiter s) = lat \<and> progress_tracking_enabled (mt_arbiter s) \<and>
     lane_time 0 s \<and> lane_time 1 s \<and> log_ok s \<and>
     (\<exists>U. unat (bus_free_time (mt_arbiter s)) \<le> U \<and> within U 0 s \<and> within U 1 s \<and>
        U + owed (max_latency lat) 0 s + owed (max_latency lat) 1 s \<le> K)"

lemma unat_suc: "now c < 2 ^ 64 - 1 \<Longrightarrow> unat (sc_local_time c + 1) = now c + 1"
  by (simp add: now_def unat_word_ariths)

text \<open>An operation is in one place.\<close>

lemma lane_flight: "lane i s \<Longrightarrow> in_flight i s = of_bool (th_waiting (producers s i) \<noteq> None)"
  by (simp add: lane_def Let_def)

lemma one_place:
  assumes "lane i s"
  shows "th_waiting (producers s i) = None \<Longrightarrow> requests s i = [] \<and> co_pending s i = None \<and> responses s i = []"
    and "responses s i \<noteq> [] \<or> th_at (producers s i) = AtResponseProgress \<Longrightarrow> requests s i = [] \<and> co_pending s i = None"
    and "responses s i \<noteq> [] \<Longrightarrow> tl (responses s i) = [] \<and> th_at (producers s i) \<noteq> AtResponseProgress"
    and "co_pending s i \<noteq> None \<Longrightarrow> requests s i = [] \<and> responses s i = []"
proof -
  have b: "in_flight i s \<le> 1" using lane_flight [OF assms] by simp
  show "th_waiting (producers s i) = None \<Longrightarrow> requests s i = [] \<and> co_pending s i = None \<and> responses s i = []"
    using lane_flight [OF assms] by (simp add: in_flight_def)
  show "responses s i \<noteq> [] \<or> th_at (producers s i) = AtResponseProgress \<Longrightarrow> requests s i = [] \<and> co_pending s i = None"
    using b unfolding in_flight_def by (cases "responses s i"; cases "co_pending s i") (auto simp: of_bool_def split: if_splits)
  show "responses s i \<noteq> [] \<Longrightarrow> tl (responses s i) = [] \<and> th_at (producers s i) \<noteq> AtResponseProgress"
    using b unfolding in_flight_def by (cases "responses s i") (auto simp: of_bool_def split: if_splits)
  show "co_pending s i \<noteq> None \<Longrightarrow> requests s i = [] \<and> responses s i = []"
    using b unfolding in_flight_def by simp
qed

lemma not_pending_not_in_outbox: "outbox_ok s \<Longrightarrow> co_pending s i = None \<Longrightarrow> (i, r) \<notin> set (co_outbox s)"
  by (fastforce simp: outbox_ok_def)

text \<open>A producer's step on its own lane: its clock grows by no more than it stops owing.\<close>

lemma producer_time:
  assumes "producer_step i s = Some t" "lane i s" "outbox_ok s" "lane_time i s" "within U i s"
    and "U + owed l i s \<le> K" "K < 2 ^ 64 - 1"
  shows "\<exists>d. owed l i t + d \<le> owed l i s \<and> now (cpu_of i s) \<le> now (cpu_of i t) \<and> within (U + d) i t \<and> lane_time i t"
proof -
  have n: "now (cpu_of i s) < 2 ^ 64 - 1" using assms(5-7) by (simp add: within_def)
  note suc = unat_suc [OF n]
  note place = one_place [OF assms(2)] and gone = not_pending_not_in_outbox [OF assms(3), where i = i]
  show ?thesis
    using assms(1)
  proof (cases rule: producer_stepE)
    case (request p c)
    have room: "now (th_cpu (producers s i)) + work_left l (th_cpu (producers s i)) < 2 ^ 64"
      using assms(5-7) by (simp add: within_def owed_def cpu_of_def)
    note pr = produce_time [OF request(3) room]
    show ?thesis
      by (intro exI [of _ "now c - now (th_cpu (producers s i))"])
        (use request pr assms(4-6) place(1) gone in \<open>auto simp: owed_def uncommitted_def cpu_of_def within_def
          lane_time_def access_defs\<close>)
  next
    case (finish c)
    have room: "now (th_cpu (producers s i)) + work_left l (th_cpu (producers s i)) < 2 ^ 64"
      using assms(5-7) by (simp add: within_def owed_def cpu_of_def)
    note pr = produce_time [OF finish(3) room]
    show ?thesis
      by (intro exI [of _ "now c - now (th_cpu (producers s i))"])
        (use finish pr assms(4-6) place(1) gone in \<open>auto simp: owed_def uncommitted_def cpu_of_def within_def
          lane_time_def access_defs\<close>)
  next
    case request_progress
    then obtain q where q: "th_waiting (producers s i) = Some q" using assms(2) by (auto simp: lane_def Let_def)
    then have "unat (req_time (pb_op q) + 1) = now (cpu_of i s) + 1"
      using assms(4) request_progress(1) suc by (simp add: lane_time_def stamped_def)
    then show ?thesis
      using request_progress q assms(4,5)
      by (intro exI [of _ 0]) (auto simp: owed_def uncommitted_def cpu_of_def within_def lane_time_def access_defs)
  next
    case (respond r rs)
    have p: "responses s i \<noteq> []" "rs = []" using respond(3) place(3) by simp_all
    note gone' = gone [OF place(2) [OF disjI1 [OF p(1)], THEN conjunct2]]
    have "now (cpu_of i s) + unat (rsp_stall (sr_response r)) \<le> U" using respond(3) assms(5) by (simp add: within_def)
    then have "now (cpu_of i t) = now (cpu_of i s) + unat (rsp_stall (sr_response r))"
      using assms(6,7) by (simp add: respond(4) cpu_of_def access_defs apply_response_time now_def unat_word_ariths)
    then show ?thesis
      using respond(1,3,4) p place(2) gone' assms(4,5)
      by (intro exI [of _ 0]) (auto simp: owed_def uncommitted_def cpu_of_def within_def lane_time_def access_defs
        apply_response_time)
  qed (use assms(2-5) in \<open>intro exI [of _ 0]; auto simp: owed_def uncommitted_def cpu_of_def within_def lane_time_def
      access_defs now_def\<close>)+
qed

lemma lane_frame:
  assumes "producer_step i s = Some t" "j \<noteq> i"
  shows "cpu_of j t = cpu_of j s" "within U j t = within U j s" "owed l j t = owed l j s" "lane_time j t = lane_time j s"
  using producer_frame(1) [OF assms] producer_frame(2) [OF assms(1)]
  by (simp_all add: cpu_of_def within_def owed_def uncommitted_def lane_time_def)

lemma within_mono: "within U i s \<Longrightarrow> U \<le> V \<Longrightarrow> within V i s"
  by (fastforce simp: within_def)

lemma producer_clocks:
  assumes "clocks lat K s" "flow s" "K < 2 ^ 64 - 1" "i < 2" "producer_step i s = Some t"
  shows "clocks lat K t"
proof -
  let ?l = "max_latency lat"
  define j where "j = 1 - i"
  have j: "j < 2" "j \<noteq> i" and two: "\<And>P. P 0 \<and> P 1 \<longleftrightarrow> P i \<and> P j" and sum: "\<And>f. f 0 + f 1 = (f i + f j :: nat)"
    using assms(4) by (auto simp: j_def less_2_cases_iff)
  note other = lane_frame [OF assms(5) j(2)]
  obtain U where U: "unat (bus_free_time (mt_arbiter s)) \<le> U" "within U i s" "within U j s" "U + (owed ?l i s + owed ?l j s) \<le> K"
    using assms(1) two [of "\<lambda>i. within _ i s"] sum [of "\<lambda>i. owed ?l i s"] unfolding clocks_def by (metis add.assoc)
  have s: "lane i s" "outbox_ok s" "lane_time i s" "lane_time j s"
    using assms(1,2) two [of "\<lambda>i. lane i s"] two [of "\<lambda>i. lane_time i s"] by (simp_all add: clocks_def flow_def)
  obtain d where d: "owed ?l i t + d \<le> owed ?l i s" "now (cpu_of i s) \<le> now (cpu_of i t)" "within (U + d) i t" "lane_time i t"
    using producer_time [OF assms(5) s(1-3) U(2) _ assms(3), of ?l] U(4) by force
  have a: "mt_arbiter t = mt_arbiter s" using producer_frame(2) [OF assms(5)] by simp
  have "log_ok t"
  proof -
    have "sc_local_time (cpu_of k s) \<le> sc_local_time (cpu_of k t)" if "k < 2" for k
    proof (cases "k = i")
      case False
      then have "k = j" using that assms(4) by (auto simp: j_def less_2_cases_iff)
      then show ?thesis using other(1) by simp
    qed (use d(2) in \<open>simp add: now_def word_le_nat_alt\<close>)
    then show ?thesis using assms(1) order_trans by (fastforce simp: clocks_def log_ok_def a)
  qed
  moreover have "lane_time 0 t \<and> lane_time 1 t" using two [of "\<lambda>i. lane_time i t"] d(4) s(4) other(4) by simp
  moreover have "within (U + d) 0 t \<and> within (U + d) 1 t"
    using two [of "\<lambda>i. within (U + d) i t"] d(3) U(3) other(2) within_mono [of U j s "U + d"] by simp
  moreover have "U + d + owed ?l 0 t + owed ?l 1 t \<le> K"
    using sum [of "\<lambda>i. owed ?l i t"] d(1) U(4) other(3) by simp
  ultimately show ?thesis using assms(1) U(1) a unfolding clocks_def by (intro conjI exI [of _ "U + d"]) simp_all
qed

section \<open>A batch\<close>

text \<open>What is pending is stamped with the clock of its CPU, which stands still.\<close>

lemma pending_stamped:
  assumes "lane i s" "lane_time i s" "co_pending s i = Some p"
  shows "req_time (pb_op p) = sc_local_time (cpu_of i s)" "producer_slot (pb_op p) = (if i = 1 then 1 else 0)"
    "requests s i = []"
proof -
  have "th_at (producers s i) \<noteq> AtResponseProgress" using one_place(2) [OF assms(1)] assms(3) by auto
  moreover have "th_waiting (producers s i) = Some p" using assms(1,3) by (simp add: lane_def Let_def)
  ultimately have "stamped p (cpu_of i s)" "sc_cpu_id (cpu_of i s) = int i" using assms(2) by (simp_all add: lane_time_def)
  then show "req_time (pb_op p) = sc_local_time (cpu_of i s)" "producer_slot (pb_op p) = (if i = 1 then 1 else 0)"
    by (simp_all add: stamped_def producer_slot_def)
  show "requests s i = []" using one_place(4) [OF assms(1)] assms(3) by simp
qed

lemma indexed_pending_cases:
  "indexed_pending s = (case (co_pending s 0, co_pending s 1) of
     (None, None) \<Rightarrow> [] | (Some p, None) \<Rightarrow> [(0, p)] | (None, Some q) \<Rightarrow> [(1, q)] | (Some p, Some q) \<Rightarrow> [(0, p), (1, q)])"
  by (auto simp: indexed_pending_def split: option.splits)

lemma pending_slots:
  assumes "lane 0 s" "lane_time 0 s" "lane 1 s" "lane_time 1 s"
  shows "slot_monotone (map (\<lambda>x. pb_op (snd x)) (indexed_pending s))"
proof (rule distinct_slots_monotone)
  show "distinct (map producer_slot (map (\<lambda>x. pb_op (snd x)) (indexed_pending s)))"
    using pending_stamped(2) [OF assms(1,2)] pending_stamped(2) [OF assms(3,4)]
    by (simp add: indexed_pending_cases split: option.splits)
qed

lemma length_two:
  fixes xs :: "nat list"
  assumes "distinct xs" "\<forall>i \<in> set xs. i < 2"
  shows "length xs = of_bool (0 \<in> set xs) + of_bool (1 \<in> set xs)"
proof -
  have "set xs = {i. i = 0 \<and> 0 \<in> set xs} \<union> {i. i = 1 \<and> 1 \<in> set xs}"
    using assms(2) by (auto simp: less_2_cases_iff)
  moreover have "card ({i :: nat. i = 0 \<and> P} \<union> {i. i = 1 \<and> Q}) = of_bool P + of_bool Q" for P Q :: bool
    by (cases P; cases Q) (simp_all add: card_insert_if)
  ultimately show ?thesis using distinct_card [OF assms(1)] by metis
qed

text \<open>What the batch commits is the pending request of some thread, stamped with its clock, and as early as both clocks.\<close>

lemma committed_pending:
  assumes "clocks lat K s" "flow s"
    and "commit_batch default_priority_of (mt_arbiter s) (map (\<lambda>x. pb_op (snd x)) (indexed_pending s)) = (committed, a)"
    and r: "r \<in> set committed"
  defines "x \<equiv> indexed_pending s ! input_index r"
  shows "input_index r < length (indexed_pending s)" "fst x < 2" "co_pending s (fst x) = Some (snd x)"
    and "cr_op r = pb_op (snd x)" "req_time (cr_op r) = sc_local_time (cpu_of (fst x) s)"
    and "i < 2 \<Longrightarrow> req_time (cr_op r) \<le> sc_local_time (cpu_of i s)"
proof -
  have lanes: "lane i s" "lane_time i s" if "i < 2" for i
    using assms(1,2) that by (auto simp: flow_def clocks_def less_2_cases_iff)
  have res: "input_index r < length (indexed_pending s) \<and> cr_op r = pb_op (snd x) \<and> ready (mt_arbiter s) (cr_op r)"
    using batch_results(2) [where policy = default_priority_of and a = "mt_arbiter s" and
        ops = "map (\<lambda>x. pb_op (snd x)) (indexed_pending s)", OF refl] r
    unfolding assms(3) x_def by fastforce
  then show "input_index r < length (indexed_pending s)" "cr_op r = pb_op (snd x)" by simp_all
  have x: "x \<in> set (indexed_pending s)" using res by (simp add: x_def)
  then show "fst x < 2" "co_pending s (fst x) = Some (snd x)" "req_time (cr_op r) = sc_local_time (cpu_of (fst x) s)"
    using indexed_pending_facts(2) [OF x] pending_stamped(1) lanes res by auto
  show "req_time (cr_op r) \<le> sc_local_time (cpu_of i s)" if i: "i < 2"
  proof -
    have "req_time (cr_op r) < progress_up_to (mt_arbiter s) i"
      using res assms(1) i by (auto simp: ready_def clocks_def commit_horizon_def less_2_cases_iff)
    then have "unat (req_time (cr_op r)) < unat (progress_up_to (mt_arbiter s) i)" by (simp add: word_less_nat_alt)
    then show ?thesis using lanes(2) [OF i] by (simp add: lane_time_def now_def word_le_nat_alt)
  qed
qed

lemma batch_log:
  assumes "clocks lat K s" "flow s"
    and "commit_batch default_priority_of (mt_arbiter s) (map (\<lambda>x. pb_op (snd x)) (indexed_pending s)) = (committed, a)"
    and t: "mt_arbiter t = a" "\<And>i. cpu_of i t = cpu_of i s"
  shows "log_ok t"
proof -
  let ?b = "mt_arbiter s"
  have lanes: "lane i s" if "i < 2" for i using assms(2) that by (auto simp: flow_def less_2_cases_iff)
  note early = committed_pending(6) [OF assms(1-3)]
  have own: "\<exists>i < 2. req_time (cr_op r) = sc_local_time (cpu_of i s)" if "r \<in> set committed" for r
    using committed_pending(2,5) [OF assms(1-3) that] by blast
  have "slot_monotone (map (\<lambda>x. pb_op (snd x)) (indexed_pending s))"
    using pending_slots [of s] lanes [of 0] lanes [of 1] assms(1) by (simp add: clocks_def)
  then have l: "commit_requests a = commit_requests ?b @ map (\<lambda>r. req_time (cr_op r)) committed"
    using commit_batch_logs [of _ default_priority_of ?b] assms(3) by (metis fst_conv snd_conv)
  have "sorted (map (\<lambda>r. req_time (cr_op r)) committed)"
    unfolding sorted_iff_nth_mono using early own by (metis le_less_trans length_map nth_map nth_mem)
  moreover have "\<forall>x \<in> set (commit_requests ?b). \<forall>r \<in> set committed. x \<le> req_time (cr_op r)"
    using assms(1) own unfolding clocks_def log_ok_def by metis
  ultimately show ?thesis
    using assms(1) early unfolding clocks_def log_ok_def by (auto simp: l t sorted_append)
qed

text \<open>What was committed is no longer owed; the batch owes less by one transfer for each response.\<close>

lemma batch_owed:
  assumes "clocks lat K s" "flow s" "co_outbox s = []"
    and "commit_batch default_priority_of (mt_arbiter s) (map (\<lambda>x. pb_op (snd x)) (indexed_pending s)) = (committed, a)"
  defines "t \<equiv> s\<lparr>mt_arbiter := a, co_outbox := map (response_to (indexed_pending s)) committed,
      co_committed := committed \<noteq> [], co_at := PushResponses\<rparr>"
  shows "length committed * l + owed l 0 t + owed l 1 t = owed l 0 s + owed l 1 s"
proof -
  have lanes: "lane i s" "lane_time i s" if "i < 2" for i
    using assms(1,2) that by (auto simp: flow_def clocks_def less_2_cases_iff)
  have out: "distinct (map fst (co_outbox t))" "\<forall>i \<in> set (map fst (co_outbox t)). i < 2"
    using batch_outbox [OF assms(4)] by (simp_all add: t_def)
  have paid: "owed l i t + l * of_bool (i \<in> set (map fst (co_outbox t))) = owed l i s" if i: "i < 2" for i
  proof -
    have "co_pending s i \<noteq> None \<and> requests s i = []" if "i \<in> set (map fst (co_outbox t))"
      using batch_outbox(2) [OF assms(4)] that pending_stamped(3) [OF lanes [OF i]] by (auto simp: t_def)
    then show ?thesis by (auto simp: owed_def uncommitted_def assms(3) t_def cpu_of_def)
  qed
  have "length committed = of_bool (0 \<in> set (map fst (co_outbox t))) + of_bool (1 \<in> set (map fst (co_outbox t)))"
    using length_two [OF out] by (simp add: t_def)
  then show ?thesis using paid [of 0] paid [of 1] by (simp add: algebra_simps)
qed

lemma pending_owed:
  assumes "co_outbox s = []"
  shows "length (indexed_pending s) * l \<le> owed l 0 s + owed l 1 s"
  by (auto simp: indexed_pending_cases owed_def uncommitted_def assms split: option.splits)

lemma batch_clocks:
  assumes "clocks lat K s" "flow s" "K < 2 ^ 64 - 1" "co_at s = CommitBatch"
    and "commit_batch default_priority_of (mt_arbiter s) (map (\<lambda>x. pb_op (snd x)) (indexed_pending s)) = (committed, a)"
  defines "t \<equiv> s\<lparr>mt_arbiter := a, co_outbox := map (response_to (indexed_pending s)) committed,
      co_committed := committed \<noteq> [], co_at := PushResponses\<rparr>"
  shows "clocks lat K t"
proof -
  let ?l = "max_latency lat" and ?b = "mt_arbiter s" and ?P = "indexed_pending s" and ?n = "length committed"
  let ?ops = "map (\<lambda>x. pb_op (snd x)) ?P"
  note owns = committed_pending [OF assms(1,2,5)]
  have empty: "co_outbox s = []" using assms(2,4) by (auto simp: flow_def outbox_ok_def)
  obtain U where U: "unat (bus_free_time ?b) \<le> U" "within U 0 s" "within U 1 s"
    "U + owed ?l 0 s + owed ?l 1 s \<le> K" using assms(1) by (auto simp: clocks_def)
  have lat: "arb_latency ?b = lat" using assms(1) by (simp add: clocks_def)
  have fits: "U + length ?ops * max_latency (arb_latency ?b) < 2 ^ 64"
    using pending_owed [OF empty, of ?l] U(4) assms(3) by (simp add: lat)
  have "unat (req_time (pb_op (snd x))) \<le> U" if "x \<in> set ?P" for x
  proof -
    have "fst x < 2 \<and> req_time (pb_op (snd x)) = sc_local_time (cpu_of (fst x) s)"
      using indexed_pending_facts(2) [OF that] pending_stamped(1) assms(1,2)
      by (auto simp: flow_def clocks_def less_2_cases_iff)
    then show ?thesis using U(2,3) by (auto simp: within_def now_def less_2_cases_iff)
  qed
  then have early: "\<forall>op \<in> set ?ops. unat (req_time op) \<le> U" by auto
  note reach = commit_batch_reach [OF U(1) early fits, where policy = default_priority_of, unfolded assms(5) lat, simplified]
  have "within (U + ?n * ?l) i t" if i: "i < 2" for i
  proof -
    have "now (cpu_of i s) + unat (rsp_stall (sr_response r)) \<le> U + ?n * ?l" if r: "(i, r) \<in> set (co_outbox t)" for r
    proof -
      obtain x where x: "x \<in> set committed" "(i, r) = response_to ?P x" using r by (auto simp: t_def)
      then have "i = fst (?P ! input_index x)" "sr_response r = response x"
        by (auto simp: response_to_def split_def Let_def)
      then show ?thesis using reach(3) [OF x(1)] owns(5) [OF x(1)] by (simp add: now_def)
    qed
    moreover have "within U i s" using U(2,3) i by (auto simp: less_2_cases_iff)
    ultimately show ?thesis by (fastforce simp: within_def t_def cpu_of_def)
  qed
  moreover have "U + ?n * ?l + owed ?l 0 t + owed ?l 1 t \<le> K"
    using batch_owed [OF assms(1,2) empty assms(5), of ?l, folded t_def] U(4) by simp
  moreover have "log_ok t" by (rule batch_log [OF assms(1,2,5)]) (simp_all add: t_def cpu_of_def)
  moreover have "lane_time i t" if "i < 2" for i
    using assms(1) that commit_batch_progress [of default_priority_of ?b ?ops] unfolding assms(5)
    by (auto simp: clocks_def lane_time_def t_def cpu_of_def less_2_cases_iff)
  ultimately show ?thesis
    using reach(2) assms(1) commit_batch_progress [of default_priority_of ?b ?ops]
      commit_batch_latency [of default_priority_of ?b ?ops] unfolding assms(5)
    by (auto simp: clocks_def t_def intro!: exI [of _ "U + ?n * ?l"])
qed

section \<open>The coordinator's other steps\<close>

text \<open>A step that leaves the clocks, the messages and the log alone.\<close>

lemma clocks_cong:
  assumes "clocks lat K s" "producers t = producers s" "responses t = responses s" "co_outbox t = co_outbox s"
    and "progresses t = progresses s" "mt_arbiter t = mt_arbiter s"
    and "uncommitted 0 t = uncommitted 0 s" "uncommitted 1 t = uncommitted 1 s"
  shows "clocks lat K t"
  using assms
  by (simp add: clocks_def cpu_of_def within_def owed_def lane_time_def log_ok_def)

lemma pop_request_uncommitted:
  assumes "outbox_ok s" "lane j s"
  shows "uncommitted j (pop_request i s) = uncommitted j s"
proof (cases "co_pending s i = None \<and> requests s i \<noteq> []")
  case True
  then obtain p ps where p: "requests s i = p # ps" by (cases "requests s i") auto
  have "i \<notin> fst ` set (co_outbox s)" using not_pending_not_in_outbox [OF assms(1)] True by fastforce
  then show ?thesis using True p by (simp add: pop_request_def uncommitted_def)
next
  case False
  then show ?thesis by (auto simp: pop_request_def split: list.splits)
qed

lemma pop_request_clocks:
  assumes "clocks lat K s" "flow s"
  shows "clocks lat K (pop_request i s)"
  using assms(1)
proof (rule clocks_cong)
  show "uncommitted 0 (pop_request i s) = uncommitted 0 s" "uncommitted 1 (pop_request i s) = uncommitted 1 s"
    using assms(2) by (simp_all add: flow_def pop_request_uncommitted)
qed (simp_all add: pop_request_def split: list.splits)

lemma update_progress_frame:
  "arb_latency (update_progress a c m) = arb_latency a" "bus_free_time (update_progress a c m) = bus_free_time a"
  "commit_requests (update_progress a c m) = commit_requests a"
  "progress_tracking_enabled a \<Longrightarrow> progress_tracking_enabled (update_progress a c m)"
  "progress_up_to (update_progress a (int i) m) j \<in> {progress_up_to a j, if j = i then m else progress_up_to a j}"
  by (auto simp: update_progress_def Let_def commit_requests_def)

lemma progress_clocks:
  assumes "clocks lat K s" "i < 2" "progresses s i = m # ms"
  shows "clocks lat K (s\<lparr>progresses := (progresses s)(i := ms), co_progressed := True,
      mt_arbiter := update_progress (mt_arbiter s) (int i) m\<rparr>)" (is "clocks lat K ?t")
proof -
  have "lane_time j ?t" if "lane_time j s" for j
    using that assms(3) update_progress_frame(5) [of "mt_arbiter s" i m j]
    by (auto simp: lane_time_def cpu_of_def split: if_splits)
  then show ?thesis
    using assms(1) by (auto simp: clocks_def update_progress_frame log_ok_def within_def owed_def uncommitted_def cpu_of_def)
qed

lemma push_clocks:
  assumes "clocks lat K s" "flow s" "co_outbox s = (i, r) # rest"
  shows "clocks lat K (push_response i r (s\<lparr>co_outbox := rest, co_pending := (co_pending s)(i := None),
      co_progressed := True\<rparr>))" (is "clocks lat K ?t")
proof -
  have o: "i \<notin> fst ` set rest" "co_pending s i \<noteq> None" "i < 2" and l: "lane i s"
    using assms(2,3) by (auto simp: flow_def outbox_ok_def less_2_cases_iff)
  then have "requests s i = []" using one_place(4) by simp
  then have "owed l j ?t = owed l j s" for j l
    using o assms(3) by (auto simp: owed_def uncommitted_def cpu_of_def access_defs)
  moreover have "within U j s \<Longrightarrow> within U j ?t" for U j
    using assms(3) by (auto simp: within_def cpu_of_def access_defs)
  moreover have "lane_time j ?t = lane_time j s" "log_ok ?t = log_ok s" for j
    by (simp_all add: lane_time_def log_ok_def cpu_of_def access_defs)
  moreover have "mt_arbiter ?t = mt_arbiter s" by (simp add: access_defs)
  ultimately show ?thesis using assms(1) unfolding clocks_def by auto
qed

lemma coordinator_clocks:
  assumes "clocks lat K s" "flow s" "K < 2 ^ 64 - 1" "coordinator_step s = Some t"
  shows "clocks lat K t"
  using assms(4)
proof (cases rule: coordinator_stepE)
  case poll_request0
  have "flow (s\<lparr>co_progressed := False\<rparr>)" using assms(2) by (simp add: flow_def outbox_ok_def)
  moreover have "clocks lat K (s\<lparr>co_progressed := False\<rparr>)"
    using assms(1) by (rule clocks_cong) (simp_all add: uncommitted_def)
  ultimately have "clocks lat K (pop_request 0 (s\<lparr>co_progressed := False\<rparr>))" by (intro pop_request_clocks)
  then show ?thesis by (rule clocks_cong) (simp_all add: poll_request0 uncommitted_def)
next
  case poll_request1
  have "clocks lat K (pop_request 1 s)" using assms(1,2) by (rule pop_request_clocks)
  then show ?thesis by (rule clocks_cong) (simp_all add: poll_request1 uncommitted_def)
next
  case (progress i m ms)
  then show ?thesis using progress_clocks [OF assms(1) progress(1,3)] by simp
next
  case (batch committed a)
  then show ?thesis using batch_clocks [OF assms(1-3) batch(1,3)] by simp
next
  case (push i r rest)
  then show ?thesis using push_clocks [OF assms(1,2) push(2)] by simp
qed (use assms(1) in \<open>intro clocks_cong [OF assms(1)]; simp add: uncommitted_def mt_notify_def\<close>)+

interpretation clocks: thread_invariant "\<lambda>_ s. flow s \<and> (K < 2 ^ 64 - 1 \<longrightarrow> clocks lat K s)" "\<lambda>_. True"
  for lat K
proof
  fix n s i t
  assume "flow s \<and> (K < 2 ^ 64 - 1 \<longrightarrow> clocks lat K s)" "i < (2 :: nat)" "producer_step i s = Some t"
  then show "flow t \<and> (K < 2 ^ 64 - 1 \<longrightarrow> clocks lat K t)"
    using flow.producer_keeps [of s i t] producer_clocks [of lat K s i t] by blast
next
  fix n s t
  assume "flow s \<and> (K < 2 ^ 64 - 1 \<longrightarrow> clocks lat K s)" "coordinator_step s = Some t"
  then show "flow t \<and> (K < 2 ^ 64 - 1 \<longrightarrow> clocks lat K t)"
    using flow.coordinator_keeps [of s t] coordinator_clocks [of lat K s t] by blast
qed

lemma start_clocks:
  assumes "start_threads (new_scripted_cpu 0 script0 n m) (new_scripted_cpu 1 script1 n m)
      (new_bus_arbiter mem dev new_trace lat) = s"
    and "script_work (max_latency lat) script0 + script_work (max_latency lat) script1 \<le> K"
  shows "flow s \<and> clocks lat K s"
  using assms(2)
  by (auto simp: assms(1) [symmetric] start_threads_def new_producer_def new_scripted_cpu_def new_bus_arbiter_def new_trace_def
    flow_def lane_def in_flight_def outbox_ok_def clocks_def lane_time_def cpu_of_def now_def log_ok_def within_def owed_def
    uncommitted_def work_left_def commit_requests_def update_progress_def is_cpu_def Let_def intro!: exI [of _ 0])

text \<open>
  (C5) The threaded run is conservative. Whatever the schedule, the commits in the log are in the order of
  their request times, and none is later than the clock of either CPU: the coordinator never commits a
  request that the other CPU's clock has not reached, so no CPU asks for the bus in the past of a commit. The
  scripts' computes and a latency for each of their operations must fit in the clock.
\<close>

theorem threads_commit_in_request_order:
  assumes "run_schedule ths (start_threads (new_scripted_cpu 0 script0 n m) (new_scripted_cpu 1 script1 n m)
      (new_bus_arbiter mem dev new_trace lat)) = Some s"
    and "script_work (max_latency lat) script0 + script_work (max_latency lat) script1 < 2 ^ 64 - 1"
  shows "sorted (commit_requests (mt_arbiter s)) \<and>
    (\<forall>i < 2. \<forall>r \<in> set (commit_requests (mt_arbiter s)). r \<le> sc_local_time (th_cpu (producers s i)))"
proof -
  have "flow s \<and> (script_work (max_latency lat) script0 + script_work (max_latency lat) script1 < 2 ^ 64 - 1 \<longrightarrow>
      clocks lat (script_work (max_latency lat) script0 + script_work (max_latency lat) script1) s)"
    using clocks.run_keeps [OF _ TrueI assms(1)] start_clocks [OF refl order_refl] by blast
  then show ?thesis using assms(2) by (simp add: clocks_def log_ok_def cpu_of_def)
qed

lemma threads_commit_in_request_order_witness:
  "let s = the (run_schedule late_schedule race_start) in
     commit_requests (mt_arbiter s) = [0, 0] \<and> (\<forall>i < 2. 0 \<le> sc_local_time (th_cpu (producers s i)))"
proof -
  let ?r = "run_schedule late_schedule race_start"
  have r: "map_option (\<lambda>s. commit_requests (mt_arbiter s)) ?r = Some [0, 0]" by code_simp
  then obtain s where s: "?r = Some s" "commit_requests (mt_arbiter s) = [0, 0]" by auto
  have "script_work (max_latency default_latency) [write_op 0x10 1] + script_work (max_latency default_latency) [write_op 0x20 2]
      < 2 ^ 64 - 1"
    by (simp add: script_work_def max_latency_def default_latency_def)
  then show ?thesis
    using threads_commit_in_request_order [OF s(1) [unfolded race_start_def]] s by (simp add: Let_def)
qed

section \<open>A finished CPU blocks the other\<close>

text \<open>Below a horizon of zero nothing commits.\<close>

definition nothing_commits :: "mt_state \<Rightarrow> bool" where
  "nothing_commits s \<longleftrightarrow> (let t = producers s 0 in
     th_waiting t = None \<and> sc_done (th_cpu t) \<and> sc_local_time (th_cpu t) = 0 \<and>
     th_at t \<in> {AtTop, AtCheck, AtDone, AtDoneNotify, Returned} \<and> set (progresses s 0) \<subseteq> {0} \<and>
     progress_up_to (mt_arbiter s) 0 = 0 \<and> progress_tracking_enabled (mt_arbiter s) \<and>
     co_outbox s = [] \<and> responses s 1 = [])"

definition asks_first :: "scripted_cpu \<Rightarrow> mt_state \<Rightarrow> bool" where
  "asks_first c s \<longleftrightarrow> (let t = producers s 1 in
     th_at t = AtTop \<and> th_waiting t = None \<and> th_cpu t = c \<or>
     th_waiting t \<noteq> None \<and> th_at t \<in> {AtTop, AtRequestProgress, AtRequestNotify, AtCheck, AtWait})"

lemma producer_blocked:
  assumes "nothing_commits s" "asks_first c s" "fst (produce c) \<noteq> None" "i < 2" "producer_step i s = Some t"
  shows "nothing_commits t \<and> asks_first c t"
proof -
  have nd: "\<not> sc_done c" using assms(3) by (auto simp: produce.simps [of c])
  consider "i = 0" | "i = 1" using assms(4) by (auto simp: less_2_cases_iff)
  then show ?thesis
  proof cases
    case 1
    from assms(5) have "nothing_commits t"
      by (cases rule: producer_stepE) (use assms(1) 1 in \<open>auto simp: nothing_commits_def access_defs Let_def produce.simps\<close>)
    moreover have "producers t 1 = producers s 1" using producer_frame(1) [OF assms(5), of 1] 1 by simp
    ultimately show ?thesis using assms(2) by (simp add: asks_first_def)
  next
    case 2
    from assms(5) have "asks_first c t \<and> responses t 1 = []"
      by (cases rule: producer_stepE)
        (use assms(1-3) nd 2 in \<open>auto simp: asks_first_def nothing_commits_def access_defs Let_def\<close>)
    then show ?thesis
      using producer_frame(1) [OF assms(5), of 0] producer_frame(2) [OF assms(5)] 2 assms(1)
      by (simp add: nothing_commits_def Let_def)
  qed
qed

lemma zero_horizon_batch:
  assumes "progress_up_to a 0 = 0" "progress_tracking_enabled a"
  shows "fst (commit_batch policy a ops) = []"
proof -
  have "\<not> ready a op" for op using assms by (simp add: ready_def commit_horizon_def)
  then show ?thesis using batch_results(2) [where policy = policy and a = a and ops = ops, OF refl] by (metis list.set_intros(1) neq_Nil_conv)
qed

lemma coordinator_blocked:
  assumes "nothing_commits s" "asks_first c s" "coordinator_step s = Some t"
  shows "nothing_commits t \<and> asks_first c t"
proof -
  have "producers t = producers s"
    using assms(3) by (cases rule: coordinator_stepE) (auto simp: access_defs pop_request_def split: list.splits)
  moreover from assms(3) have "nothing_commits t"
  proof (cases rule: coordinator_stepE)
    case (progress i m ms)
    then show ?thesis
      using assms(1) update_progress_frame(4) [of "mt_arbiter s" "int i" m] update_progress_frame(5) [of "mt_arbiter s" i m 0]
      by (auto simp: nothing_commits_def Let_def split: if_splits)
  next
    case (batch committed a)
    have "committed = []" using zero_horizon_batch [of "mt_arbiter s"] batch(3) assms(1)
      by (metis fst_conv nothing_commits_def)
    then show ?thesis
      using assms(1) batch commit_batch_progress [of default_priority_of "mt_arbiter s"]
      by (auto simp: nothing_commits_def Let_def) (metis snd_conv)+
  qed (use assms(1) in \<open>auto simp: nothing_commits_def Let_def access_defs pop_request_def split: list.splits\<close>)
  ultimately show ?thesis using assms(2) by (simp add: asks_first_def)
qed

interpretation blocked: thread_invariant
    "\<lambda>_ s. fst (produce c) \<noteq> None \<and> nothing_commits s \<and> asks_first c s" "\<lambda>_. True" for c
  by unfold_locales (use producer_blocked coordinator_blocked in blast)+

text \<open>
  (C22) A CPU without work hangs the threaded run. When the script of CPU 0 is empty and the one of CPU 1
  asks for the bus at all, no schedule ever joins the threads: CPU 0 announces its clock, which stays zero, so the
  horizon never passes the request of CPU 1. (The threads are not deadlocked: the coordinator keeps polling.)
\<close>

theorem empty_script_hangs_the_threads:
  assumes "fst (produce (new_scripted_cpu 1 script n m)) \<noteq> None"
    and "run_schedule ths (start_threads (new_scripted_cpu 0 [] n m) (new_scripted_cpu 1 script n m)
      (new_bus_arbiter mem dev log lat)) = Some s"
  shows "\<not> joined s"
proof -
  let ?c = "new_scripted_cpu 1 script n m"
  let ?s = "start_threads (new_scripted_cpu 0 [] n m) ?c (new_bus_arbiter mem dev log lat)"
  have "nothing_commits ?s \<and> asks_first ?c ?s"
    by (simp add: nothing_commits_def asks_first_def start_threads_def new_producer_def new_scripted_cpu_def sc_done_def
        new_bus_arbiter_def update_progress_def is_cpu_def Let_def)
  then have "nothing_commits s \<and> asks_first ?c s"
    using blocked.run_keeps [where c = ?c and s = ?s and ths = ths and t = s] assms by simp
  then show ?thesis by (auto simp: joined_def asks_first_def Let_def)
qed

definition idle_start :: mt_state where
  "idle_start = start_threads (new_scripted_cpu 0 [] 16 4) (new_scripted_cpu 1 [write_op 0x20 2] 16 4)
     (new_bus_arbiter (new_memory 64) new_device_hub new_trace default_latency)"

lemma empty_script_hangs_the_threads_witness:
  "\<exists>s. run_schedule (steps 4 (Producer 0) @ steps 4 (Producer 1) @ steps 30 Coordinator) idle_start = Some s \<and>
     th_at (producers s 0) = Returned \<and> co_pending s 1 \<noteq> None \<and> \<not> joined s"
proof -
  let ?r = "run_schedule (steps 4 (Producer 0) @ steps 4 (Producer 1) @ steps 30 Coordinator) idle_start"
  have "map_option (\<lambda>s. (th_at (producers s 0), co_pending s 1 \<noteq> None)) ?r = Some (Returned, True)" by code_simp
  then obtain s where s: "?r = Some s" "th_at (producers s 0) = Returned" "co_pending s 1 \<noteq> None" by auto
  have "fst (produce (new_scripted_cpu 1 [write_op 0x20 2] 16 4)) \<noteq> None"
    by (simp add: produce.simps new_scripted_cpu_def sc_done_def issue_write_def issue_def Let_def)
  from empty_script_hangs_the_threads [OF this s(1) [unfolded idle_start_def]] s show ?thesis by blast
qed

end
