(* ===== verification/ReferenceRun.thy ===== *)
theory ReferenceRun
  imports ThreadOrder
begin

text \<open>
  A reference for the scripted runs: one thread, no mailbox, no horizon and no batch. It always serves the CPU that
  asks for the earlier tick, one commit at a time, and gives up on a tie. Also what a batch with at most one ready
  operation does: nothing, or that commit.
\<close>

section \<open>The arbiter without its progress\<close>

text \<open>What \<open>execute_commit\<close> reads and writes: everything but the progress and the enqueue contract.\<close>

definition bus_core :: "bus_arbiter \<Rightarrow> bus_arbiter" where
  "bus_core a = a\<lparr>progress_tracking_enabled := False, progress_up_to := (\<lambda>_. tick_max),
     producer_last_enqueued_req_time := (\<lambda>_. 0), producer_enqueued_seen := (\<lambda>_. False)\<rparr>"

lemma bus_core_select [simp]:
  "arb_memory (bus_core a) = arb_memory a" "arb_devices (bus_core a) = arb_devices a" "arb_trace (bus_core a) = arb_trace a"
  "arb_latency (bus_core a) = arb_latency a" "bus_free_time (bus_core a) = bus_free_time a"
  "last_grant_cpu (bus_core a) = last_grant_cpu a" "has_last_addr (bus_core a) = has_last_addr a" "last_addr (bus_core a) = last_addr a"
  "producer_last_req_time (bus_core a) = producer_last_req_time a" "producer_seen (bus_core a) = producer_seen a"
  by (simp_all add: bus_core_def)

lemma bus_core_update [simp]:
  "bus_core (a\<lparr>progress_tracking_enabled := b\<rparr>) = bus_core a" "bus_core (a\<lparr>progress_up_to := p\<rparr>) = bus_core a"
  "bus_core (a\<lparr>producer_last_enqueued_req_time := l\<rparr>) = bus_core a" "bus_core (a\<lparr>producer_enqueued_seen := s\<rparr>) = bus_core a"
  "bus_core (bus_core a) = bus_core a" "bus_core (update_progress a c t) = bus_core a"
  by (simp_all add: bus_core_def update_progress_def Let_def)

lemma perform_access_bus_core:
  "perform_access (bus_core a) t op = (fst (perform_access a t op), bus_core (snd (perform_access a t op)))"
  by (simp add: perform_access_def bus_core_def Let_def)

lemma bus_core_commutes:
  "(bus_core a)\<lparr>producer_seen := s, producer_last_req_time := l\<rparr> = bus_core (a\<lparr>producer_seen := s, producer_last_req_time := l\<rparr>)"
  "(bus_core a)\<lparr>last_addr := la, has_last_addr := h\<rparr> = bus_core (a\<lparr>last_addr := la, has_last_addr := h\<rparr>)"
  "(bus_core a)\<lparr>last_grant_cpu := g\<rparr> = bus_core (a\<lparr>last_grant_cpu := g\<rparr>)"
  "(bus_core a)\<lparr>bus_free_time := ft\<rparr> = bus_core (a\<lparr>bus_free_time := ft\<rparr>)"
  "with_trace f (bus_core a) = bus_core (with_trace f a)"
  by (simp_all add: bus_core_def with_trace_def)

lemma bus_core_timing:
  "bus_start (bus_core a) op = bus_start a op" "commit_finish (bus_core a) op tie = commit_finish a op tie"
  by (simp_all add: bus_start_def commit_finish_def base_latency_def contention_extra_def Let_def)

lemma execute_bus_core:
  "execute_commit (bus_core a) op tie = (fst (execute_commit a op tie), bus_core (snd (execute_commit a op tie)))"
proof (cases "accepted a op")
  case True
  then have c: "accepted (bus_core a) op" by (simp add: accepted_def)
  let ?a1 = "a\<lparr>producer_seen := (producer_seen a)(producer_slot op := True),
                producer_last_req_time := (producer_last_req_time a)(producer_slot op := req_time op)\<rparr>"
  obtain v lb ld a2 where p: "perform_access ?a1 (commit_finish a op tie) op = ((v, lb, ld), a2)"
    by (metis prod_cases3 prod.collapse)
  then have q: "perform_access (bus_core ?a1) (commit_finish a op tie) op = ((v, lb, ld), bus_core a2)"
    by (simp add: perform_access_bus_core)
  show ?thesis
    unfolding execute_accepted [OF True] execute_accepted [OF c] bus_core_timing bus_core_select bus_core_commutes Let_def p q prod.case
    by (simp add: bus_core_commutes)
next
  case False
  then have "\<not> accepted (bus_core a) op" by (simp add: accepted_def)
  with False show ?thesis
    by (auto simp: execute_commit_def accepted_def fault_response_def bus_core_timing bus_core_commutes Let_def)
qed

section \<open>A batch with one ready operation\<close>

lemma filter_unique:
  "i < n \<Longrightarrow> filter (\<lambda>k. k = i) [0..<n] = [i]"
  by (induction n) (auto simp: filter_empty_conv)

lemma erase_at_others:
  assumes "i < length xs" "x \<in> set (erase_at i xs)"
  shows "\<exists>k < length xs. k \<noteq> i \<and> x = xs ! k"
proof -
  consider "x \<in> set (take i xs)" | "x \<in> set (drop (Suc i) xs)" using assms(2) by (auto simp: erase_at_def)
  then show ?thesis
  proof cases
    case 1
    then obtain k where "k < i" "x = xs ! k" using assms(1) by (auto simp: in_set_conv_nth)
    then show ?thesis using assms(1) by (intro exI [of _ k]) simp
  next
    case 2
    then obtain k where "k < length xs - Suc i" "x = drop (Suc i) xs ! k" by (auto simp: in_set_conv_nth)
    then show ?thesis by (intro exI [of _ "Suc i + k"]) auto
  qed
qed

lemma commit_none:
  assumes "\<forall>op \<in> set ops. \<not> ready a op" "slot_monotone ops"
  shows "fst (commit_batch policy a ops) = []" "bus_core (snd (commit_batch policy a ops)) = bus_core a"
proof -
  show n: "fst (commit_batch policy a ops) = []"
  proof (rule ccontr)
    assume "fst (commit_batch policy a ops) \<noteq> []"
    then obtain r where "r \<in> set (fst (commit_batch policy a ops))" by (meson list.set_sel(1))
    then show False using batch_results(2) [where policy = policy and a = a and ops = ops, OF refl] assms(1) by (metis nth_mem)
  qed
  show "bus_core (snd (commit_batch policy a ops)) = bus_core a"
  proof (cases "should_halt (arb_trace a)")
    case True
    then show ?thesis by (simp add: batch_halted)
  next
    case False
    let ?b = "snd (enqueue_loop (fresh_enqueue a) 0 ops)"
    have e: "fst (enqueue_loop (fresh_enqueue a) 0 ops) = map entry (enumerate 0 ops)" "bus_core ?b = bus_core a"
      using enqueue_fresh [OF assms(2) False] by simp_all
    have "ready ?b = ready a" by (rule ready_enqueue)
    then have "committable_indices ?b (map entry (enumerate 0 ops)) = []"
      using assms(1) by (auto simp: committable_empty in_set_enumerate_eq)
    then show ?thesis unfolding commit_batch_split e(1) by (simp add: batch_loop_stop e(2))
  qed
qed

lemma commit_alone:
  assumes "i < length ops" "\<forall>k < length ops. ready a (ops ! k) \<longleftrightarrow> k = i" "slot_monotone ops"
    and "\<not> should_halt (arb_trace a)"
  defines "e \<equiv> execute_commit (bus_core a) (ops ! i) False"
  shows "fst (commit_batch policy a ops) = [\<lparr>input_index = i, cr_op = ops ! i, response = fst e\<rparr>]"
    and "bus_core (snd (commit_batch policy a ops)) = snd e"
proof -
  let ?b = "snd (enqueue_loop (fresh_enqueue a) 0 ops)" and ?p = "map entry (enumerate 0 ops)"
  have p: "fst (enqueue_loop (fresh_enqueue a) 0 ops) = ?p" and b: "bus_core ?b = bus_core a" "arb_trace ?b = arb_trace a"
    using enqueue_fresh [OF assms(3,4)] by simp_all
  have nth: "cr_op (?p ! k) = ops ! k" "input_index (?p ! k) = k" "response (?p ! k) = blank_response" if "k < length ops" for k
    using that by (simp_all add: nth_enumerate_eq entry_def)
  have len: "length ?p = length ops" by simp
  have c: "committable_indices ?b ?p = [i]"
  proof -
    have "committable_indices ?b ?p = filter (\<lambda>k. ready ?b (cr_op (?p ! k))) [0..<length ops]"
      by (simp add: committable_indices_def ready_def)
    also have "\<dots> = filter (\<lambda>k. k = i) [0..<length ops]"
      using assms(2) nth(1) by (intro filter_cong) (simp_all add: ready_enqueue)
    finally show ?thesis using filter_unique [OF assms(1)] by simp
  qed
  obtain rsp a1 where x: "execute_commit ?b (ops ! i) False = (rsp, a1)" by fastforce
  have bus_core: "rsp = fst e" "bus_core a1 = snd e"
    using execute_bus_core [of ?b "ops ! i" False] by (simp_all add: x b(1) e_def)
  have choice: "batch_choice policy ?b ?p = (i, False)"
    by (simp add: batch_choice_def Let_def c pick_next_def tie_at_def)
  have "committable_indices a1 (erase_at i ?p) = []"
  proof -
    have "ready a1 = ready a"
      using ready_execute [of ?b "ops ! i" False] by (simp add: x ready_enqueue)
    moreover have "map cr_op (erase_at i ?p) = erase_at i (map cr_op ?p)" by (simp add: erase_at_def take_map drop_map)
    then have "set (map cr_op (erase_at i ?p)) = set (erase_at i ops)" by (simp only: map_cr_entry)
    then have "\<exists>k < length ops. k \<noteq> i \<and> op = ops ! k" if "op \<in> set (map cr_op (erase_at i ?p))" for op
      using erase_at_others [OF assms(1), of op] that by simp
    ultimately show ?thesis using assms(2) by (fastforce simp: committable_empty)
  qed
  then have stop: "batch_loop policy a1 (erase_at i ?p) = ([], a1)" by (simp add: batch_loop_stop)
  have "batch_loop policy ?b ?p = ([(?p ! i)\<lparr>response := rsp\<rparr>], a1)"
    using batch_loop_step [of ?b ?p policy i False rsp a1] assms(4) b(2) c choice x nth(1) [OF assms(1)] stop by simp
  then show "fst (commit_batch policy a ops) = [\<lparr>input_index = i, cr_op = ops ! i, response = fst e\<rparr>]"
    "bus_core (snd (commit_batch policy a ops)) = snd e"
    unfolding commit_batch_split p using nth [OF assms(1)] bus_core by (simp_all add: commit_result.equality)
qed

section \<open>The reference run\<close>

text \<open>A CPU as the run sees it between two operations: what it asks for, and its state.\<close>

type_synonym lane_view = "pending_bus_op option \<times> scripted_cpu"

record ref_state =
  rf_lane0 :: lane_view
  rf_lane1 :: lane_view
  rf_arbiter :: bus_arbiter

definition filled :: "lane_view \<Rightarrow> lane_view" where
  "filled v = refill (fst v) (snd v)"

definition serve :: "pending_bus_op \<Rightarrow> scripted_cpu \<Rightarrow> bus_arbiter \<Rightarrow> lane_view \<times> bus_arbiter" where
  "serve p c a =
    (let (rsp, b) = execute_commit a (pb_op p) False
     in ((None, fst (sc_apply_response c (pb_script_index p) rsp (producer_token (pb_op p)) None)), b))"

definition earlier :: "pending_bus_op option \<Rightarrow> pending_bus_op option \<Rightarrow> bool" where
  "earlier w v = (case w of None \<Rightarrow> False
     | Some p \<Rightarrow> (case v of None \<Rightarrow> True | Some q \<Rightarrow> req_time (pb_op p) < req_time (pb_op q)))"

fun reference_run :: "nat \<Rightarrow> ref_state \<Rightarrow> (scripted_cpu \<times> scripted_cpu \<times> bus_arbiter) option" where
  "reference_run 0 s = None"
| "reference_run (Suc n) s =
    (let (w0, c0) = filled (rf_lane0 s); (w1, c1) = filled (rf_lane1 s)
     in if w0 = None \<and> w1 = None then Some (c0, c1, rf_arbiter s)
        else if earlier w0 w1 then
          (let (v, b) = serve (the w0) c0 (rf_arbiter s)
           in reference_run n \<lparr>rf_lane0 = v, rf_lane1 = (w1, c1), rf_arbiter = b\<rparr>)
        else if earlier w1 w0 then
          (let (v, b) = serve (the w1) c1 (rf_arbiter s)
           in reference_run n \<lparr>rf_lane0 = (w0, c0), rf_lane1 = v, rf_arbiter = b\<rparr>)
        else None)"

lemma filled_idem [simp]: "filled (filled v) = filled v"
  using produce_none_done [of "snd v"] by (auto simp: filled_def refill_def)

lemma reference_filled:
  "reference_run n \<lparr>rf_lane0 = filled u, rf_lane1 = filled v, rf_arbiter = a\<rparr> =
   reference_run n \<lparr>rf_lane0 = u, rf_lane1 = v, rf_arbiter = a\<rparr>"
  by (cases n) (simp_all add: split_def Let_def)

definition with_lanes :: "nat \<Rightarrow> lane_view \<Rightarrow> lane_view \<Rightarrow> bus_arbiter \<Rightarrow> ref_state" where
  "with_lanes i u v a = \<lparr>rf_lane0 = (if i = 0 then u else v), rf_lane1 = (if i = 0 then v else u), rf_arbiter = a\<rparr>"

text \<open>When no other request is earlier, the run serves this one; a tie ends it.\<close>

lemma reference_serves:
  assumes "reference_run n (with_lanes i (Some p, c) (w, d) a) = Some f" "filled (w, d) = (w, d)"
    and "\<And>q. w = Some q \<Longrightarrow> req_time (pb_op p) \<le> req_time (pb_op q)"
  shows "\<And>q. w = Some q \<Longrightarrow> req_time (pb_op p) < req_time (pb_op q)"
    and "\<exists>m. reference_run m (with_lanes i (fst (serve p c a)) (w, d) (snd (serve p c a))) = Some f"
proof -
  obtain m where n: "n = Suc m" using assms(1) by (cases n) auto
  have p: "filled (Some p, c) = (Some p, c)" by (simp add: filled_def refill_def)
  have "earlier (Some p) w \<and> reference_run m (with_lanes i (fst (serve p c a)) (w, d) (snd (serve p c a))) = Some f"
    using assms unfolding n with_lanes_def
    by (cases w) (auto simp: p earlier_def split_def Let_def split: if_splits)
  then show "\<And>q. w = Some q \<Longrightarrow> req_time (pb_op p) < req_time (pb_op q)"
    "\<exists>m. reference_run m (with_lanes i (fst (serve p c a)) (w, d) (snd (serve p c a))) = Some f"
    by (auto simp: earlier_def)
qed

end
