(* ===== verification/ThreadParity.thy ===== *)
theory ThreadParity
  imports ReferenceRun
begin

text \<open>
  The threaded run against the reference run: the messages in flight are folded away by a view of each CPU as it will
  be when it has read them. No step of a thread changes that view, except the commit of a batch,
  which is a step of the reference run.
\<close>

section \<open>A threaded state between two operations\<close>

text \<open>
  The response on its way to a CPU, and the CPU as it will be once it has applied it. What a threaded state
  stands for in the reference run is those two CPUs and the arbiter.
\<close>

definition coming_response :: "nat \<Rightarrow> mt_state \<Rightarrow> script_response option" where
  "coming_response i s = (case map_of (co_outbox s) i of
     Some r \<Rightarrow> Some r | None \<Rightarrow> (case responses s i of [] \<Rightarrow> None | r # _ \<Rightarrow> Some r))"

definition answered :: "scripted_cpu \<Rightarrow> script_response \<Rightarrow> scripted_cpu" where
  "answered c r = fst (sc_apply_response c (sr_script_index r) (sr_response r) (sr_token r) None)"

definition view :: "nat \<Rightarrow> mt_state \<Rightarrow> lane_view" where
  "view i s = (case coming_response i s of
     Some r \<Rightarrow> (None, answered (cpu_of i s) r)
   | None \<Rightarrow> (if th_at (producers s i) = AtResponseProgress then None else th_waiting (producers s i), cpu_of i s))"

definition settled :: "mt_state \<Rightarrow> ref_state" where
  "settled s = with_lanes 0 (filled (view 0 s)) (filled (view 1 s)) (bus_core (mt_arbiter s))"

lemma settled_cong:
  assumes "filled (view 0 t) = filled (view 0 s)" "filled (view 1 t) = filled (view 1 s)"
    "bus_core (mt_arbiter t) = bus_core (mt_arbiter s)"
  shows "settled t = settled s"
  using assms by (simp add: settled_def)

lemma coming_cong:
  "map_of (co_outbox t) i = map_of (co_outbox s) i \<Longrightarrow> responses t i = responses s i \<Longrightarrow>
    coming_response i t = coming_response i s"
  by (simp only: coming_response_def)

lemma view_cong:
  assumes "th_cpu (producers t i) = th_cpu (producers s i)" "th_waiting (producers t i) = th_waiting (producers s i)"
    and "th_at (producers t i) = AtResponseProgress \<longleftrightarrow> th_at (producers s i) = AtResponseProgress"
    and "coming_response i t = coming_response i s"
  shows "view i t = view i s"
  unfolding view_def cpu_of_def assms ..

lemma idle_lane:
  assumes "lane i s" "outbox_ok s" "th_waiting (producers s i) = None"
  shows "coming_response i s = None" "view i s = (None, cpu_of i s)" "map_of (co_outbox s) i = None" "responses s i = []"
proof -
  have "co_pending s i = None" and r: "responses s i = []" using one_place(1) [OF assms(1,3)] by simp_all
  then have m: "map_of (co_outbox s) i = None"
    using not_pending_not_in_outbox [OF assms(2)] by (simp add: map_of_eq_None_iff) force
  then show "coming_response i s = None" "view i s = (None, cpu_of i s)" "map_of (co_outbox s) i = None" "responses s i = []"
    using r assms(3) by (simp_all add: coming_response_def view_def)
qed

lemma producer_view:
  assumes "producer_step i s = Some t" "lane i s" "outbox_ok s"
  shows "filled (view i t) = filled (view i s)"
proof -
  note idle = idle_lane [OF assms(2,3)] and place = one_place [OF assms(2)]
  show ?thesis
    using assms(1)
  proof (cases rule: producer_stepE)
    case (request p c)
    then have "\<not> sc_done (th_cpu (producers s i))" by (auto simp: produce.simps [of "th_cpu (producers s i)"])
    then show ?thesis
      using request idle by (simp add: view_def filled_def refill_def cpu_of_def coming_response_def access_defs)
  next
    case (finish c)
    then have "sc_done c" using produce_none_done [of "th_cpu (producers s i)"] by simp
    moreover have "sc_done (th_cpu (producers s i)) \<Longrightarrow> c = th_cpu (producers s i)"
      using finish(3) by (simp add: produce.simps [of "th_cpu (producers s i)"])
    ultimately show ?thesis
      using finish idle by (auto simp: view_def filled_def refill_def cpu_of_def coming_response_def access_defs)
  next
    case (respond r rs)
    then have "co_pending s i = None" "rs = []" using place(2,3) by simp_all
    then have "map_of (co_outbox s) i = None"
      using not_pending_not_in_outbox [OF assms(3)] by (simp add: map_of_eq_None_iff) force
    then show ?thesis
      using respond \<open>rs = []\<close> by (simp add: view_def cpu_of_def coming_response_def access_defs answered_def)
  next
    case response_progress
    then have "responses s i = []" "co_pending s i = None" using place(2,3) by auto
    then have "map_of (co_outbox s) i = None"
      using not_pending_not_in_outbox [OF assms(3)] by (simp add: map_of_eq_None_iff) force
    then show ?thesis
      using response_progress \<open>responses s i = []\<close> by (simp add: view_def cpu_of_def coming_response_def access_defs)
  qed (intro arg_cong [of _ _ filled] view_cong coming_cong; simp add: access_defs)+
qed

lemma producer_settled:
  assumes "producer_step i s = Some t" "i < 2" "flow s"
  shows "settled t = settled s"
proof (rule settled_cong)
  have "filled (view j t) = filled (view j s)" if "j < 2" for j
  proof (cases "j = i")
    case True
    then show ?thesis using producer_view [OF assms(1)] assms(2,3) by (auto simp: flow_def less_2_cases_iff)
  next
    case False
    note frame = producer_frame(1) [OF assms(1) False] producer_frame(2) [OF assms(1)]
    then have "coming_response j t = coming_response j s" by (intro coming_cong) simp_all
    then show ?thesis using view_cong [of t j s] frame by simp
  qed
  then show "filled (view 0 t) = filled (view 0 s)" "filled (view 1 t) = filled (view 1 s)" by simp_all
  show "bus_core (mt_arbiter t) = bus_core (mt_arbiter s)" using producer_frame(2) [OF assms(1)] by simp
qed

text \<open>The request of a CPU is never earlier than its clock.\<close>

lemma later_request:
  assumes "lane_time i s" "within U i s" "U + owed l i s < 2 ^ 64" "filled (view i s) = (Some q, c)"
  shows "sc_local_time (cpu_of i s) \<le> req_time (pb_op q)"
proof -
  have ask: "sc_local_time d \<le> req_time (pb_op q)"
    if "filled (None, d) = (Some q, c)" "now d \<le> U" "work_left l d = work_left l (cpu_of i s)" for d
  proof -
    have "produce d = (Some q, c)" using that(1) by (simp add: filled_def refill_def split: if_splits)
    moreover have "now d + work_left l d < 2 ^ 64" using that(2,3) assms(3) by (simp add: owed_def)
    ultimately show ?thesis
      using produce_time [of d "Some q" c l] by (simp add: stamped_def now_def word_le_nat_alt)
  qed
  show ?thesis
  proof (cases "coming_response i s")
    case (Some r)
    then have u: "now (cpu_of i s) + unat (rsp_stall (sr_response r)) \<le> U"
      using assms(2) by (auto simp: coming_response_def within_def split: option.splits list.splits dest: map_of_SomeD)
    then have n: "now (answered (cpu_of i s) r) = now (cpu_of i s) + unat (rsp_stall (sr_response r))"
      using assms(3) by (simp add: answered_def apply_response_time now_def unat_word_ariths)
    have "sc_local_time (answered (cpu_of i s) r) \<le> req_time (pb_op q)"
      using assms(4) Some u n by (intro ask) (simp_all add: view_def answered_def apply_response_time)
    then show ?thesis using n by (simp add: now_def word_le_nat_alt)
  next
    case None
    show ?thesis
    proof (cases "filled (None, cpu_of i s) = (Some q, c)")
      case True
      then show ?thesis using ask [of "cpu_of i s"] assms(2) by (simp add: within_def)
    next
      case False
      then have "th_waiting (producers s i) = Some q \<and> th_at (producers s i) \<noteq> AtResponseProgress"
        using assms(4) None
        by (cases "th_waiting (producers s i)") (auto simp: view_def filled_def refill_def split: if_splits)
      then show ?thesis using assms(1) by (simp add: lane_time_def stamped_def)
    qed
  qed
qed

lemma pending_view:
  assumes "lane i s" "outbox_ok s" "co_outbox s = []" "co_pending s i = Some p"
  shows "view i s = (Some p, cpu_of i s)" "filled (view i s) = (Some p, cpu_of i s)"
proof -
  have "th_at (producers s i) \<noteq> AtResponseProgress" "responses s i = []"
    using one_place(2,4) [OF assms(1)] assms(4) by auto
  moreover have "th_waiting (producers s i) = Some p" using assms(1,4) by (simp add: lane_def Let_def)
  ultimately show "view i s = (Some p, cpu_of i s)"
    using assms(3) by (simp add: view_def coming_response_def)
  then show "filled (view i s) = (Some p, cpu_of i s)" by (simp add: filled_def refill_def)
qed

section \<open>A commit of the threads is one of the reference run\<close>

definition on_course :: "latency_model \<Rightarrow> nat \<Rightarrow> scripted_cpu \<times> scripted_cpu \<times> bus_arbiter \<Rightarrow> mt_state \<Rightarrow> bool" where
  "on_course lat K f s \<longleftrightarrow> flow s \<and> clocks lat K s \<and> \<not> halt_on_fault (arb_trace (mt_arbiter s)) \<and>
     \<not> should_halt (arb_trace (mt_arbiter s)) \<and> (\<exists>n. reference_run n (settled s) = Some f)"

lemma settled_lanes:
  "i < 2 \<Longrightarrow> settled s = with_lanes i (filled (view i s)) (filled (view (1 - i) s)) (bus_core (mt_arbiter s))"
  by (auto simp: settled_def with_lanes_def less_2_cases_iff)

lemma ready_clock:
  assumes "clocks lat K s" "K < 2 ^ 64 - 1" "ready (mt_arbiter s) op" "i < 2"
  shows "req_time op \<le> sc_local_time (cpu_of i s)"
proof -
  have "req_time op < progress_up_to (mt_arbiter s) i"
    using assms(1,3,4) by (auto simp: ready_def clocks_def commit_horizon_def less_2_cases_iff)
  then have "unat (req_time op) < unat (progress_up_to (mt_arbiter s) i)" by (simp add: word_less_nat_alt)
  moreover have "unat (progress_up_to (mt_arbiter s) i) \<le> now (cpu_of i s) + 1"
    using assms(1,4) by (auto simp: clocks_def lane_time_def less_2_cases_iff)
  ultimately show ?thesis by (simp add: now_def word_le_nat_alt)
qed

lemma ready_serves:
  assumes "on_course lat K f s" "K < 2 ^ 64 - 1" "co_outbox s = []"
    and "i < 2" "co_pending s i = Some p" "ready (mt_arbiter s) (pb_op p)"
  shows "co_pending s (1 - i) = Some q \<Longrightarrow> req_time (pb_op p) < req_time (pb_op q)"
    and "\<exists>m. reference_run m (with_lanes i (fst (serve p (cpu_of i s) (bus_core (mt_arbiter s)))) (filled (view (1 - i) s))
      (snd (serve p (cpu_of i s) (bus_core (mt_arbiter s))))) = Some f"
proof -
  define j where "j = 1 - i"
  have j: "j < 2" by (simp add: j_def)
  have lanes: "lane k s" "lane_time k s" if "k < 2" for k
    using assms(1) that by (auto simp: on_course_def flow_def clocks_def less_2_cases_iff)
  have o: "outbox_ok s" using assms(1) by (simp add: on_course_def flow_def)
  obtain U where U: "within U j s" "U + owed (max_latency lat) j s < 2 ^ 64"
    using assms(1,2) j by (auto simp: on_course_def clocks_def less_2_cases_iff)
  obtain n where n: "reference_run n (settled s) = Some f" using assms(1) by (auto simp: on_course_def)
  obtain w d where v: "filled (view j s) = (w, d)" by fastforce
  note vi = pending_view(2) [OF lanes(1) [OF assms(4)] o assms(3,5)]
  have late: "req_time (pb_op p) \<le> req_time (pb_op r)" if "w = Some r" for r
    using later_request [OF lanes(2) [OF j] U, of r d] ready_clock [of lat K s "pb_op p" j] assms(1,2,6) j v that
    by (auto simp: on_course_def)
  have run: "reference_run n (with_lanes i (Some p, cpu_of i s) (w, d) (bus_core (mt_arbiter s))) = Some f"
    using n unfolding settled_lanes [OF assms(4), of s] vi v [unfolded j_def] .
  have idem: "filled (w, d) = (w, d)" using filled_idem [of "view j s"] by (simp add: v)
  note serves = reference_serves [OF run idem late]
  show "co_pending s (1 - i) = Some q \<Longrightarrow> req_time (pb_op p) < req_time (pb_op q)"
    using serves(1) [of q] pending_view(2) [OF lanes(1) [OF j] o assms(3), of q] v unfolding j_def by simp
  show "\<exists>m. reference_run m (with_lanes i (fst (serve p (cpu_of i s) (bus_core (mt_arbiter s)))) (filled (view (1 - i) s))
      (snd (serve p (cpu_of i s) (bus_core (mt_arbiter s))))) = Some f"
    using serves(2) unfolding v [unfolded j_def] .
qed

lemma reference_refilled:
  "reference_run n (with_lanes i (filled u) (filled v) a) = reference_run n (with_lanes i u (filled v) a)"
  by (simp add: with_lanes_def reference_filled reference_filled [of n u "filled v", unfolded filled_idem, symmetric]
      reference_filled [of n "filled v" u, unfolded filled_idem, symmetric])

text \<open>Two ready requests would be a tie.\<close>

lemma ready_unique:
  assumes "on_course lat K f s" "K < 2 ^ 64 - 1" "co_outbox s = []"
  defines "ops \<equiv> map (\<lambda>x. pb_op (snd x)) (indexed_pending s)"
  assumes "m < length (indexed_pending s)" "ready (mt_arbiter s) (ops ! m)"
    and "k < length (indexed_pending s)" "ready (mt_arbiter s) (ops ! k)"
  shows "m = k"
proof (rule ccontr)
  assume "m \<noteq> k"
  let ?P = "indexed_pending s"
  obtain i p j q where P: "?P ! k = (i, p)" "?P ! m = (j, q)" by fastforce
  have i: "i < 2" "co_pending s i = Some p" "ready (mt_arbiter s) (pb_op p)"
    using indexed_pending_facts(2) [OF nth_mem [OF assms(7)]] assms(7,8) by (simp_all add: P ops_def)
  have j: "j < 2" "co_pending s j = Some q" "ready (mt_arbiter s) (pb_op q)"
    using indexed_pending_facts(2) [OF nth_mem [OF assms(5)]] assms(5,6) by (simp_all add: P ops_def)
  have "fst (?P ! m) \<noteq> fst (?P ! k)"
    using indexed_pending_facts(1) [of s] assms(5,7) \<open>m \<noteq> k\<close> by (auto simp: distinct_conv_nth)
  then have "j = 1 - i" "i = 1 - j" using i(1) j(1) by (simp_all add: P less_2_cases_iff) auto
  then show False
    using ready_serves(1) [OF assms(1-3) i, of q] ready_serves(1) [OF assms(1-3) j, of p] i(2) j(2) by simp
qed

lemma batch_settled:
  assumes "on_course lat K f s" "K < 2 ^ 64 - 1" "co_at s = CommitBatch"
    and "commit_batch default_priority_of (mt_arbiter s) (map (\<lambda>x. pb_op (snd x)) (indexed_pending s)) = (committed, a)"
  defines "t \<equiv> s\<lparr>mt_arbiter := a, co_outbox := map (response_to (indexed_pending s)) committed,
      co_committed := committed \<noteq> [], co_at := PushResponses\<rparr>"
  shows "\<exists>n. reference_run n (settled t) = Some f"
proof -
  let ?b = "mt_arbiter s" and ?P = "indexed_pending s"
  let ?ops = "map (\<lambda>x. pb_op (snd x)) ?P"
  have l: "lane 0 s" "lane_time 0 s" "lane 1 s" "lane_time 1 s" and o: "outbox_ok s"
    and run: "\<exists>n. reference_run n (settled s) = Some f" and nh: "\<not> should_halt (arb_trace ?b)"
    using assms(1) by (simp_all add: on_course_def flow_def clocks_def)
  have empty: "co_outbox s = []" using o assms(3) by (auto simp: outbox_ok_def)
  note slots = pending_slots [OF l]
  show ?thesis
  proof (cases "\<exists>k < length ?P. ready ?b (?ops ! k)")
    case False
    then have "\<forall>op \<in> set ?ops. \<not> ready ?b op" by (metis in_set_conv_nth length_map)
    note none = commit_none [OF this slots, where policy = default_priority_of, unfolded assms(4) fst_conv snd_conv]
    have "settled t = settled s"
      by (intro settled_cong arg_cong [of _ _ filled] view_cong coming_cong) (simp_all add: t_def none empty)
    then show ?thesis using run by simp
  next
    case True
    then obtain k where k: "k < length ?P" "ready ?b (?ops ! k)" by blast
    obtain i p where ip: "?P ! k = (i, p)" by fastforce
    have i: "i < 2" "co_pending s i = Some p" using indexed_pending_facts(2) [OF nth_mem [OF k(1)]] by (simp_all add: ip)
    have r: "ready ?b (pb_op p)" using k by (simp add: ip)
    note serves = ready_serves [OF assms(1,2) empty]
    have only: "\<forall>m < length ?ops. ready ?b (?ops ! m) \<longleftrightarrow> m = k"
    proof (intro allI impI iffI)
      fix m assume "m < length ?ops" "ready ?b (?ops ! m)"
      then show "m = k" by (intro ready_unique [OF assms(1,2) empty _ _ k]) simp_all
    qed (use k(2) in simp)
    let ?e = "execute_commit (bus_core ?b) (pb_op p) False"
    have op: "?ops ! k = pb_op p" using k(1) by (simp add: ip)
    note alone = commit_alone [where policy = default_priority_of and i = k and ops = ?ops and a = ?b,
        unfolded assms(4) fst_conv snd_conv op length_map, OF k(1) only [unfolded length_map] slots nh]
    have out: "co_outbox t = [(i, \<lparr>sr_script_index = pb_script_index p, sr_token = producer_token (pb_op p),
        sr_response = fst ?e\<rparr>)]" (is "_ = [(i, ?r)]")
      by (simp add: t_def alone(1) response_to_def ip)
    let ?v = "fst (serve p (cpu_of i s) (bus_core ?b))" and ?c = "snd (serve p (cpu_of i s) (bus_core ?b))"
    have "view i t = ?v"
      by (simp add: view_def coming_response_def out serve_def split_def Let_def answered_def) (simp add: t_def cpu_of_def)
    moreover have "view (1 - i) t = view (1 - i) s"
    proof -
      have "1 - i \<noteq> i" using i(1) by (auto simp: less_2_cases_iff)
      then have "map_of (co_outbox t) (1 - i) = map_of (co_outbox s) (1 - i)" by (simp add: out empty)
      then show ?thesis by (intro view_cong coming_cong) (simp_all add: t_def)
    qed
    moreover have "bus_core (mt_arbiter t) = ?c"
      using alone(2) by (simp add: t_def serve_def split_def Let_def)
    ultimately have "settled t = with_lanes i (filled ?v) (filled (view (1 - i) s)) ?c"
      unfolding settled_lanes [OF i(1), of t] by simp
    then show ?thesis using serves(2) [OF i r] by (simp only: reference_refilled)
  qed
qed

lemma coordinator_settled:
  assumes "flow s" "coordinator_step s = Some t" "co_at s \<noteq> CommitBatch"
  shows "settled t = settled s"
  using assms(2)
proof (cases rule: coordinator_stepE)
  case (push i r rest)
  have i: "i < 2" "co_pending s i \<noteq> None" "i \<notin> fst ` set rest"
    using assms(1) push(2) by (auto simp: flow_def outbox_ok_def)
  then have "responses s i = []"
    using one_place(4) [of i s] assms(1) by (auto simp: flow_def less_2_cases_iff)
  moreover have "map_of rest i = None" using i(3) by (simp add: map_of_eq_None_iff)
  ultimately have "coming_response j t = coming_response j s" for j
    by (cases "j = i") (simp_all add: coming_response_def push(2,3) access_defs split: option.split)
  then show ?thesis
    by (intro settled_cong arg_cong [of _ _ filled] view_cong) (simp_all add: push(3) access_defs)
qed (use assms(3) in \<open>intro settled_cong arg_cong [of _ _ filled] view_cong coming_cong;
    simp add: pop_request_def mt_notify_def split: list.splits\<close>)+

lemma joined_final:
  assumes "joined s" "flow s" "reference_run n (settled s) = Some f"
  shows "f = (th_cpu (producers s 0), th_cpu (producers s 1), bus_core (mt_arbiter s))"
proof -
  have "th_waiting (producers s i) = None \<and> sc_done (th_cpu (producers s i))" if "i < 2" for i
    using assms(1,2) that by (auto simp: joined_def flow_def lane_def Let_def less_2_cases_iff)
  then have "filled (view i s) = (None, th_cpu (producers s i))" if "i < 2" for i
    using idle_lane(2) [of i s] assms(2) that by (auto simp: flow_def less_2_cases_iff filled_def refill_def cpu_of_def)
  then have "settled s = with_lanes 0 (None, th_cpu (producers s 0)) (None, th_cpu (producers s 1)) (bus_core (mt_arbiter s))"
    by (simp add: settled_def)
  moreover have "filled (None, th_cpu (producers s i)) = (None, th_cpu (producers s i))" if "i < 2" for i
    using filled_idem [of "view i s"] \<open>\<And>i. i < 2 \<Longrightarrow> filled (view i s) = (None, th_cpu (producers s i))\<close> [OF that] by simp
  ultimately show ?thesis using assms(3) by (cases n) (auto simp: with_lanes_def)
qed

lemma course_coordinator:
  assumes "on_course lat K f s" "K < 2 ^ 64 - 1" "coordinator_step s = Some t"
  shows "on_course lat K f t"
proof -
  have s: "flow s" "clocks lat K s" "\<exists>n. reference_run n (settled s) = Some f" using assms(1) by (simp_all add: on_course_def)
  have "flow t" using flow.coordinator_keeps [OF s(1) TrueI assms(3)] .
  moreover have "clocks lat K t" by (rule coordinator_clocks [OF s(2,1) assms(2,3)])
  moreover have "\<exists>n. reference_run n (settled t) = Some f"
  proof (cases "co_at s = CommitBatch")
    case True
    from assms(3) show ?thesis
    proof (cases rule: coordinator_stepE)
      case nothing_pending
      then have "settled t = settled s"
        by (intro settled_cong arg_cong [of _ _ filled] view_cong coming_cong) simp_all
      then show ?thesis using s(3) by simp
    next
      case (batch committed a)
      then show ?thesis using batch_settled [OF assms(1,2) batch(1,3)] by simp
    qed (use True in auto)
  next
    case False
    then show ?thesis using coordinator_settled [OF s(1) assms(3)] s(3) by simp
  qed
  moreover have "\<not> halt_on_fault (arb_trace (mt_arbiter t)) \<and> \<not> should_halt (arb_trace (mt_arbiter t))"
    using assms(3)
  proof (cases rule: coordinator_stepE)
    case (batch committed a)
    have "slot_monotone (map (\<lambda>x. pb_op (snd x)) (indexed_pending s))"
      using pending_slots [of s] s(1,2) by (simp add: flow_def clocks_def)
    then show ?thesis
      using commit_batch_halt [of "mt_arbiter s" _ default_priority_of] assms(1) batch(3,4) by (fastforce simp: on_course_def)
  qed (use assms(1) in \<open>simp add: on_course_def pop_request_def update_progress_def Let_def access_defs split: list.splits\<close>)+
  ultimately show ?thesis by (simp add: on_course_def)
qed

interpretation course: thread_invariant "\<lambda>_ s. K < 2 ^ 64 - 1 \<and> on_course lat K f s" "\<lambda>_. True" for lat K f
proof
  fix n s i t
  assume a: "K < 2 ^ 64 - 1 \<and> on_course lat K f s" "i < (2 :: nat)" "producer_step i s = Some t"
  then show "K < 2 ^ 64 - 1 \<and> on_course lat K f t"
    using flow.producer_keeps [of s i t] producer_clocks [of lat K s i t] producer_settled [of i s t]
      producer_frame(2) [of i s t] by (auto simp: on_course_def)
next
  fix n s t
  assume "K < 2 ^ 64 - 1 \<and> on_course lat K f s" "coordinator_step s = Some t"
  then show "K < 2 ^ 64 - 1 \<and> on_course lat K f t" using course_coordinator by blast
qed simp

lemma start_settled:
  "reference_run n (settled (start_threads c0 c1 a)) =
   reference_run n \<lparr>rf_lane0 = (None, c0), rf_lane1 = (None, c1), rf_arbiter = bus_core a\<rparr>"
  by (simp add: settled_def with_lanes_def reference_filled view_def coming_response_def start_threads_def new_producer_def
      cpu_of_def)

definition reference_start :: "script_op list \<Rightarrow> script_op list \<Rightarrow> nat \<Rightarrow> nat \<Rightarrow> bus_arbiter \<Rightarrow> ref_state" where
  "reference_start script0 script1 n m a = \<lparr>rf_lane0 = (None, new_scripted_cpu 0 script0 n m),
     rf_lane1 = (None, new_scripted_cpu 1 script1 n m), rf_arbiter = a\<rparr>"

lemma threads_reach_reference:
  assumes "reference_run fuel (reference_start script0 script1 n m (new_bus_arbiter mem dev new_trace lat)) = Some f"
    and "run_schedule ths (start_threads (new_scripted_cpu 0 script0 n m) (new_scripted_cpu 1 script1 n m)
      (new_bus_arbiter mem dev new_trace lat)) = Some s"
    and "joined s"
    and "script_work (max_latency lat) script0 + script_work (max_latency lat) script1 < 2 ^ 64 - 1"
  shows "f = (th_cpu (producers s 0), th_cpu (producers s 1), bus_core (mt_arbiter s))"
proof -
  let ?K = "script_work (max_latency lat) script0 + script_work (max_latency lat) script1"
  let ?a = "new_bus_arbiter mem dev new_trace lat"
  let ?s = "start_threads (new_scripted_cpu 0 script0 n m) (new_scripted_cpu 1 script1 n m) ?a"
  have "bus_core ?a = ?a" by (simp add: bus_core_def new_bus_arbiter_def)
  then have "on_course lat ?K f ?s"
    using start_clocks [OF refl order_refl, of script0 n m script1 mem dev lat] assms(1)
    by (auto simp: on_course_def start_settled reference_start_def)
      (simp_all add: start_threads_def new_bus_arbiter_def new_trace_def update_progress_def Let_def is_cpu_def)
  then have "on_course lat ?K f s"
    using course.run_keeps [of ?K lat f ?s, OF _ TrueI assms(2)] assms(4) by blast
  then obtain k where "flow s" "reference_run k (settled s) = Some f" by (auto simp: on_course_def)
  then show ?thesis by (rule joined_final [OF assms(3)])
qed

text \<open>
  (C4) Without ties the threaded run is the reference run: when the single-threaded run that always serves the
  earlier request ends without meeting two requests for the same tick, every schedule of the threads
  that joins ends with its CPUs and its arbiter (memory, devices, trace, timing), whatever the order in
  which the messages arrived. The arbiter's progress and its enqueue contract, which only the threads use,
  are left out.
\<close>

theorem threaded_run_is_the_reference_run:
  assumes "reference_run fuel (reference_start script0 script1 n m (new_bus_arbiter mem dev new_trace lat)) = Some f"
    and "run_schedule ths (start_threads (new_scripted_cpu 0 script0 n m) (new_scripted_cpu 1 script1 n m)
      (new_bus_arbiter mem dev new_trace lat)) = Some s"
    and "joined s"
    and "script_work (max_latency lat) script0 + script_work (max_latency lat) script1 < 2 ^ 64 - 1"
  shows "f = (th_cpu (producers s 0), th_cpu (producers s 1), bus_core (mt_arbiter s))"
  using assms by (rule threads_reach_reference)

text \<open>CPU 1 asks two ticks after CPU 0.\<close>

definition staggered_start :: mt_state where
  "staggered_start = start_threads (new_scripted_cpu 0 [write_op 0x10 1] 16 4)
     (new_scripted_cpu 1 [compute_op 2, write_op 0x20 2] 16 4)
     (new_bus_arbiter (new_memory 64) new_device_hub new_trace default_latency)"

definition staggered_schedule :: "thread list" where
  "staggered_schedule = steps 4 (Producer 0) @ steps 4 (Producer 1) @ steps 10 Coordinator @ steps 5 (Producer 0) @
     steps 3 (Producer 1) @ [Coordinator, Producer 1] @ steps 10 Coordinator @ steps 4 (Producer 0) @ steps 6 (Producer 1) @ steps 10 Coordinator @
     steps 2 (Producer 1) @ steps 6 Coordinator"

definition staggered_reference :: ref_state where
  "staggered_reference = reference_start [write_op 0x10 1] [compute_op 2, write_op 0x20 2] 16 4
     (new_bus_arbiter (new_memory 64) new_device_hub new_trace default_latency)"

lemma staggered_joins:
  obtains s where "run_schedule staggered_schedule staggered_start = Some s" "joined s"
    "commit_times (mt_arbiter s) = [(0, 0, 3), (1, 3, 6)]"
proof -
  have "map_option (\<lambda>s. (joined s, commit_times (mt_arbiter s))) (run_schedule staggered_schedule staggered_start) =
    Some (True, [(0, 0, 3), (1, 3, 6)])" by code_simp
  then show ?thesis using that by auto
qed

lemma staggered_reference_ends: "reference_run 3 staggered_reference \<noteq> None"
  by code_simp

lemma staggered_work:
  "script_work (max_latency default_latency) [write_op 0x10 1] +
    script_work (max_latency default_latency) [compute_op 2, write_op 0x20 2] < 2 ^ 64 - 1"
  by (simp add: script_work_def max_latency_def default_latency_def)

lemma threaded_run_is_the_reference_run_witness:
  "\<exists>s. run_schedule staggered_schedule staggered_start = Some s \<and> joined s \<and>
     commit_times (mt_arbiter s) = [(0, 0, 3), (1, 3, 6)] \<and>
     reference_run 3 staggered_reference = Some (th_cpu (producers s 0), th_cpu (producers s 1), bus_core (mt_arbiter s))"
proof -
  obtain s where s: "run_schedule staggered_schedule staggered_start = Some s" "joined s"
    "commit_times (mt_arbiter s) = [(0, 0, 3), (1, 3, 6)]" by (rule staggered_joins)
  obtain f where f: "reference_run 3 staggered_reference = Some f" using staggered_reference_ends by auto
  from threaded_run_is_the_reference_run [OF f [unfolded staggered_reference_def] s(1) [unfolded staggered_start_def] s(2)
      staggered_work] s f
  show ?thesis by metis
qed

end
