(* ===== verification/PairParity.thy ===== *)
theory PairParity
  imports ThreadParity
begin

text \<open>
  The single-threaded loop against the reference run, and so against the threads: when no two requests ask for the same
  tick, an iteration commits nothing or what the reference run serves, and both scripted runs end alike.
\<close>

section \<open>What a read asks for\<close>

text \<open>The line a cached read asks the arbiter for is the line its response will be matched with.\<close>

definition asked :: "pending_bus_op \<Rightarrow> scripted_cpu \<Rightarrow> bool" where
  "asked p c \<longleftrightarrow> (let ins = sc_script c ! pb_script_index p in
     so_kind ins = ScRead \<longrightarrow> \<not> script_uncached ins \<longrightarrow>
     phys_addr (pb_op p) = to_phys (so_vaddr ins) \<and> cache_line_size (pb_op p) = of_nat (line_size (sc_cache c)))"

lemma produce_asks:
  assumes "produce c = (r, d)"
  shows "sc_script d = sc_script c \<and> line_size (sc_cache d) = line_size (sc_cache c) \<and> (\<forall>p. r = Some p \<longrightarrow> asked p d)"
  using assms
proof (induction c arbitrary: r d rule: produce.induct)
  case (1 c)
  let ?ins = "sc_script c ! sc_pc c"
  consider (ended) "sc_done c" | (compute) "\<not> sc_done c" "so_kind ?ins = ScCompute"
    | (answered) v where "\<not> sc_done c" "so_kind ?ins = ScRead" "local_read c ?ins = Some v"
    | (asks) "\<not> sc_done c" "so_kind ?ins \<noteq> ScCompute" "so_kind ?ins = ScRead \<Longrightarrow> local_read c ?ins = None"
    by (cases "local_read c ?ins") auto
  then show ?case
  proof cases
    case ended
    then show ?thesis using "1.prems" by (simp add: produce.simps [of c])
  next
    case compute
    then show ?thesis using "1.IH"(2) [OF compute(1) refl compute(2)] "1.prems" by (simp add: produce.simps [of c] Let_def)
  next
    case answered
    then show ?thesis using "1.IH"(1) [OF answered(1) refl answered(2,3)] "1.prems" by (simp add: produce.simps [of c] Let_def)
  next
    case asks
    then show ?thesis
      using "1.prems"
      by (cases "so_kind ?ins")
        (auto simp: produce.simps [of c] Let_def issue_def issue_write_def issue_read_def asked_def bus_op_of_def)
  qed
qed

lemma execute_line:
  assumes "line_data (fst (execute_commit a op tie)) \<noteq> []"
  shows "line_base (fst (execute_commit a op tie)) = phys_addr op div ucast (cache_line_size op)"
    "length (line_data (fst (execute_commit a op tie))) = unat (ucast (cache_line_size op) :: u32)"
proof -
  have "accepted a op"
    using assms execute_rejected_facts(1) [of a op tie] by (cases "accepted a op") (simp_all add: inert_response_def)
  then show "line_base (fst (execute_commit a op tie)) = phys_addr op div ucast (cache_line_size op)"
    "length (line_data (fst (execute_commit a op tie))) = unat (ucast (cache_line_size op) :: u32)"
    using assms
    by (auto simp: execute_accepted Let_def split_def perform_access_def split: if_splits)
qed

lemma fill_matches:
  fixes a :: bus_arbiter and tie :: bool
  assumes "asked p c" "line_size (sc_cache c) < 256"
  defines "rsp \<equiv> fst (execute_commit a (pb_op p) tie)"
  shows "sc_apply_response c (pb_script_index p) rsp tok (Some tr) =
    (fst (sc_apply_response c (pb_script_index p) rsp tok None), Some tr)"
proof -
  have n: "unat (ucast (of_nat k :: u8) :: u32) = k" if "k < 256" for k
    using that by (simp add: unsigned_ucast_eq unsigned_of_nat take_bit_nat_eq_self)
  then have "(ucast (of_nat k :: u8) :: u32) = of_nat k" if "k < 256" for k
    using that by (metis of_nat_unat ucast_id)
  then show ?thesis
    using assms(1,2) n execute_line [of a "pb_op p" tie]
    by (auto simp: sc_apply_response_def Let_def asked_def rsp_def)
qed

section \<open>A lane of the single-threaded run\<close>

definition pair_lane :: "nat \<Rightarrow> pair_state \<Rightarrow> lane_view" where
  "pair_lane i s = (if i = 0 then (pr_p0 s, pr_cpu0 s) else (pr_p1 s, pr_cpu1 s))"

definition lane_good :: "nat \<Rightarrow> lane_view \<Rightarrow> bool" where
  "lane_good i v \<longleftrightarrow> sc_cpu_id (snd v) = int i \<and> line_size (sc_cache (snd v)) < 256 \<and>
     (\<forall>q. fst v = Some q \<longrightarrow> stamped q (snd v) \<and> asked q (snd v))"

definition lane_owed :: "nat \<Rightarrow> lane_view \<Rightarrow> nat" where
  "lane_owed l v = work_left l (snd v) + (if fst v = None then 0 else l)"

lemma filled_lane:
  assumes "lane_good i v" "now (snd v) \<le> U" "U + lane_owed l v < 2 ^ 64"
  shows "lane_good i (filled v)" "now (snd v) \<le> now (snd (filled v))"
    and "\<exists>d. lane_owed l (filled v) + d \<le> lane_owed l v \<and> now (snd (filled v)) \<le> U + d"
proof -
  obtain p c where v: "v = (p, c)" by fastforce
  have "lane_good i (filled v) \<and> now (snd v) \<le> now (snd (filled v)) \<and>
    (\<exists>d. lane_owed l (filled v) + d \<le> lane_owed l v \<and> now (snd (filled v)) \<le> U + d)"
  proof (cases "p = None \<and> \<not> sc_done c")
    case True
    obtain r e where pr: "produce c = (r, e)" by fastforce
    have f: "p = None" "filled (None, c) = (r, e)" using True by (simp_all add: filled_def refill_def pr)
    have "now c + work_left l c < 2 ^ 64" using assms(2,3) by (simp add: v lane_owed_def)
    note t = produce_time [OF pr this] and a = produce_asks [OF pr]
    have "lane_good i (filled v)" using assms(1) t a by (simp add: f lane_good_def v)
    moreover have "lane_owed l (filled v) + (now e - now c) \<le> lane_owed l v" "now e \<le> U + (now e - now c)"
      using t assms(2) True by (auto simp: f v lane_owed_def)
    ultimately have "\<exists>d. lane_owed l (filled v) + d \<le> lane_owed l v \<and> now (snd (filled v)) \<le> U + d"
      by (intro exI [of _ "now e - now c"]) (simp add: f v)
    then show ?thesis using \<open>lane_good i (filled v)\<close> t by (simp add: f v)
  next
    case False
    then have "filled v = v" by (auto simp: v filled_def refill_def)
    then show ?thesis using assms(1,2) by (auto intro: exI [of _ 0])
  qed
  then show "lane_good i (filled v)" "now (snd v) \<le> now (snd (filled v))"
    "\<exists>d. lane_owed l (filled v) + d \<le> lane_owed l v \<and> now (snd (filled v)) \<le> U + d" by blast+
qed

lemma answered_lane:
  fixes tok :: u64 and tr :: "trace_log option"
  assumes "lane_good i (Some p, c)" "now c + unat (rsp_stall rsp) \<le> U" "U < 2 ^ 64"
  defines "d \<equiv> fst (sc_apply_response c (pb_script_index p) rsp tok tr)"
  shows "lane_good i (None, d)" "now c \<le> now d" "now d \<le> U" "lane_owed l (None, d) + l = lane_owed l (Some p, c)"
proof -
  have "now d = now c + unat (rsp_stall rsp)"
    using assms(2,3) by (simp add: d_def apply_response_time now_def unat_word_ariths)
  then show "now c \<le> now d" "now d \<le> U" using assms(2) by simp_all
  have "line_size (sc_cache d) = line_size (sc_cache c)" by (simp add: d_def sc_apply_response_def Let_def)
  then show "lane_good i (None, d)" using assms(1) by (simp add: lane_good_def d_def apply_response_time)
  show "lane_owed l (None, d) + l = lane_owed l (Some p, c)" by (simp add: lane_owed_def d_def apply_response_time)
qed

section \<open>An iteration\<close>

text \<open>The state once both lanes are filled and both watermarks published.\<close>

definition prepared :: "pair_state \<Rightarrow> pair_state" where
  "prepared s = (let v0 = filled (pair_lane 0 s); v1 = filled (pair_lane 1 s) in
     \<lparr>pr_cpu0 = snd v0, pr_cpu1 = snd v1, pr_p0 = fst v0, pr_p1 = fst v1,
      pr_arbiter = update_progress (update_progress (pr_arbiter s) 0 (watermark (fst v0) (snd v0))) 1
        (watermark (fst v1) (snd v1))\<rparr>)"

lemma prepared_lane: "i < 2 \<Longrightarrow> pair_lane i (prepared s) = filled (pair_lane i s)"
  by (auto simp: prepared_def pair_lane_def Let_def less_2_cases_iff)

definition pair_settled :: "pair_state \<Rightarrow> ref_state" where
  "pair_settled s = with_lanes 0 (filled (pair_lane 0 s)) (filled (pair_lane 1 s)) (bus_core (pr_arbiter s))"

lemma pair_settled_lanes:
  "i < 2 \<Longrightarrow> pair_settled s = with_lanes i (filled (pair_lane i s)) (filled (pair_lane (1 - i) s)) (bus_core (pr_arbiter s))"
  by (auto simp: pair_settled_def with_lanes_def less_2_cases_iff)

lemma prepared_settled: "pair_settled (prepared s) = pair_settled s"
  by (simp add: pair_settled_def prepared_lane) (simp add: prepared_def Let_def)

text \<open>No clock and not the bus are past \<open>U\<close>, the horizon is at most one tick ahead of the clocks, nothing has halted.\<close>

definition pair_within :: "latency_model \<Rightarrow> nat \<Rightarrow> nat \<Rightarrow> pair_state \<Rightarrow> bool" where
  "pair_within lat K U s \<longleftrightarrow> lane_good 0 (pair_lane 0 s) \<and> lane_good 1 (pair_lane 1 s) \<and>
     now (snd (pair_lane 0 s)) \<le> U \<and> now (snd (pair_lane 1 s)) \<le> U \<and>
     unat (bus_free_time (pr_arbiter s)) \<le> U \<and> arb_latency (pr_arbiter s) = lat \<and>
     U + lane_owed (max_latency lat) (pair_lane 0 s) + lane_owed (max_latency lat) (pair_lane 1 s) \<le> K \<and>
     (\<forall>i < 2. progress_up_to (pr_arbiter s) i = tick_max \<or>
        unat (progress_up_to (pr_arbiter s) i) \<le> now (snd (pair_lane i s)) + 1) \<and>
     \<not> halt_on_fault (arb_trace (pr_arbiter s)) \<and> \<not> should_halt (arb_trace (pr_arbiter s))"

lemma prepared_progress:
  "i < 2 \<Longrightarrow> progress_up_to (update_progress (update_progress a 0 t) 1 u) i =
     (let w = if i = 0 then t else u in if progress_up_to a i = tick_max \<or> w > progress_up_to a i then w else progress_up_to a i)"
  "arb_latency (update_progress (update_progress a 0 t) 1 u) = arb_latency a"
  "bus_free_time (update_progress (update_progress a 0 t) 1 u) = bus_free_time a"
  "arb_trace (update_progress (update_progress a 0 t) 1 u) = arb_trace a"
  by (auto simp: update_progress_def Let_def is_cpu_def less_2_cases_iff)

lemma watermark_late:
  assumes "lane_good i v" "now (snd v) < 2 ^ 64 - 1"
  shows "unat (watermark (fst v) (snd v)) \<le> now (snd v) + 1"
  using assms unat_suc [OF assms(2)] by (cases "fst v") (auto simp: watermark_def lane_good_def stamped_def now_def)

lemma prepared_within:
  assumes "pair_within lat K U s" "K < 2 ^ 64 - 1"
  obtains V where "pair_within lat K V (prepared s)"
proof -
  let ?l = "max_latency lat" and ?v = "\<lambda>i. pair_lane i s"
  have s: "lane_good 0 (?v 0)" "lane_good 1 (?v 1)" "now (snd (?v 0)) \<le> U" "now (snd (?v 1)) \<le> U"
    "U + lane_owed ?l (?v 0) + lane_owed ?l (?v 1) \<le> K"
    using assms(1) by (simp_all add: pair_within_def)
  have b: "U + lane_owed ?l (?v 0) < 2 ^ 64" "U + lane_owed ?l (?v 1) < 2 ^ 64" using s(5) assms(2) by simp_all
  note f0 = filled_lane [OF s(1,3) b(1)] and f1 = filled_lane [OF s(2,4) b(2)]
  obtain d0 d1 where d: "lane_owed ?l (filled (?v 0)) + d0 \<le> lane_owed ?l (?v 0)" "now (snd (filled (?v 0))) \<le> U + d0"
    "lane_owed ?l (filled (?v 1)) + d1 \<le> lane_owed ?l (?v 1)" "now (snd (filled (?v 1))) \<le> U + d1"
    using f0(3) f1(3) by blast
  have clock: "now (snd (filled (?v i))) < 2 ^ 64 - 1" "lane_good i (filled (?v i))" "now (snd (?v i)) \<le> now (snd (filled (?v i)))"
    if "i < 2" for i using that d s(5) assms(2) f0(1,2) f1(1,2) by (auto simp: less_2_cases_iff)
  have "pair_within lat K (U + d0 + d1) (prepared s)"
    unfolding pair_within_def
  proof (intro conjI allI impI)
    fix i :: nat assume i: "i < 2"
    have "progress_up_to (pr_arbiter s) i = tick_max \<or> unat (progress_up_to (pr_arbiter s) i) \<le> now (snd (?v i)) + 1"
      using assms(1) i by (simp add: pair_within_def)
    then show "progress_up_to (pr_arbiter (prepared s)) i = tick_max \<or>
        unat (progress_up_to (pr_arbiter (prepared s)) i) \<le> now (snd (pair_lane i (prepared s))) + 1"
      using watermark_late [OF clock(2,1) [OF i]] clock(3) [OF i] i unfolding prepared_lane [OF i]
      by (auto simp: prepared_def Let_def prepared_progress less_2_cases_iff)
  qed (use assms(1) d s(5) f0(1) f1(1) in \<open>simp_all add: prepared_lane, simp_all add: pair_within_def prepared_def
      prepared_progress Let_def\<close>)
  then show ?thesis by (rule that)
qed

section \<open>A commit of the loop is one of the reference run\<close>

lemma pair_ready_serves:
  assumes "pair_within lat K U s" "K < 2 ^ 64 - 1" "reference_run n (pair_settled s) = Some f"
    and "progress_tracking_enabled (pr_arbiter s)" "\<forall>j < 2. filled (pair_lane j s) = pair_lane j s"
    and "i < 2" "pair_lane i s = (Some p, c)" "ready (pr_arbiter s) (pb_op p)"
  shows "pair_lane (1 - i) s = (Some q, d) \<Longrightarrow> req_time (pb_op p) < req_time (pb_op q)"
    and "\<exists>m. reference_run m (with_lanes i (fst (serve p c (bus_core (pr_arbiter s)))) (pair_lane (1 - i) s)
      (snd (serve p c (bus_core (pr_arbiter s))))) = Some f"
proof -
  define j where "j = 1 - i"
  have j: "j < 2" by (simp add: j_def)
  obtain w e where v: "pair_lane j s = (w, e)" by fastforce
  have g: "lane_good j (w, e)" using assms(1) j v by (auto simp: pair_within_def less_2_cases_iff)
  have "progress_up_to (pr_arbiter s) j \<noteq> tick_max \<and> req_time (pb_op p) < progress_up_to (pr_arbiter s) j"
    using assms(4,8) j by (auto simp: ready_def has_safe_horizon_def commit_horizon_def less_2_cases_iff)
  moreover have "progress_up_to (pr_arbiter s) j = tick_max \<or> unat (progress_up_to (pr_arbiter s) j) \<le> now e + 1"
    using assms(1) j v by (auto simp: pair_within_def less_2_cases_iff)
  ultimately have le: "req_time (pb_op p) \<le> sc_local_time e"
    by (auto simp: now_def word_less_nat_alt word_le_nat_alt)
  have late: "req_time (pb_op p) \<le> req_time (pb_op r)" if "w = Some r" for r
    using le g that by (simp add: lane_good_def stamped_def)
  have p: "filled (Some p, c) = (Some p, c)" by (simp add: filled_def refill_def)
  have e: "filled (w, e) = (w, e)" using assms(5) j v by metis
  have run: "reference_run n (with_lanes i (Some p, c) (w, e) (bus_core (pr_arbiter s))) = Some f"
    using assms(3) unfolding pair_settled_lanes [OF assms(6)] assms(7) v [unfolded j_def] p e .
  note serves = reference_serves [OF run e late]
  show "pair_lane (1 - i) s = (Some q, d) \<Longrightarrow> req_time (pb_op p) < req_time (pb_op q)"
    using serves(1) [of q] v unfolding j_def by simp
  show "\<exists>m. reference_run m (with_lanes i (fst (serve p c (bus_core (pr_arbiter s)))) (pair_lane (1 - i) s)
      (snd (serve p c (bus_core (pr_arbiter s))))) = Some f"
    using serves(2) unfolding v [unfolded j_def] .
qed

lemma pending_lane:
  assumes "k < length (pending_list (pr_p0 s) (pr_p1 s))"
  obtains i p c where "i < 2" "pending_list (pr_p0 s) (pr_p1 s) ! k = (int i, p)" "pair_lane i s = (Some p, c)"
proof -
  obtain x p where x: "pending_list (pr_p0 s) (pr_p1 s) ! k = (x, p)" by fastforce
  then have "(x, p) \<in> set (pending_list (pr_p0 s) (pr_p1 s))" using assms by (metis nth_mem)
  then have "x = 0 \<and> pr_p0 s = Some p \<or> x = 1 \<and> pr_p1 s = Some p"
    by (auto simp: pending_list_def split: option.splits)
  then show ?thesis using that [of 0 p "pr_cpu0 s"] that [of 1 p "pr_cpu1 s"] x by (auto simp: pair_lane_def)
qed

lemma pending_list_distinct: "distinct (map fst (pending_list p0 p1))"
  by (simp add: pending_list_def split: option.splits)

lemma pair_slots:
  assumes "lane_good 0 (pair_lane 0 s)" "lane_good 1 (pair_lane 1 s)"
  shows "slot_monotone (map (\<lambda>x. pb_op (snd x)) (pending_list (pr_p0 s) (pr_p1 s)))"
proof (rule distinct_slots_monotone)
  show "distinct (map producer_slot (map (\<lambda>x. pb_op (snd x)) (pending_list (pr_p0 s) (pr_p1 s))))"
    using assms by (auto simp: pending_list_def lane_good_def pair_lane_def stamped_def producer_slot_def split: option.splits)
qed

text \<open>What the batch of an iteration commits: nothing, or the operation the reference run serves.\<close>

lemma pair_commit:
  assumes "pair_within lat K U s" "K < 2 ^ 64 - 1" "reference_run n (pair_settled s) = Some f"
    and "progress_tracking_enabled (pr_arbiter s)" "\<forall>j < 2. filled (pair_lane j s) = pair_lane j s"
    and "commit_batch default_priority_of (pr_arbiter s) (map (\<lambda>x. pb_op (snd x)) (pending_list (pr_p0 s) (pr_p1 s))) = (committed, a)"
  obtains (unready) "committed = []" "bus_core a = bus_core (pr_arbiter s)"
  | (one) i p c r where "i < 2" "pair_lane i s = (Some p, c)" "ready (pr_arbiter s) (pb_op p)" "committed = [r]"
      "pending_list (pr_p0 s) (pr_p1 s) ! input_index r = (int i, p)"
      "response r = fst (execute_commit (bus_core (pr_arbiter s)) (pb_op p) False)"
      "bus_core a = snd (execute_commit (bus_core (pr_arbiter s)) (pb_op p) False)"
proof -
  let ?b = "pr_arbiter s" and ?P = "pending_list (pr_p0 s) (pr_p1 s)"
  let ?ops = "map (\<lambda>x. pb_op (snd x)) ?P"
  have nh: "\<not> should_halt (arb_trace ?b)" and slots: "slot_monotone ?ops"
    using assms(1) pair_slots [of s] by (simp_all add: pair_within_def)
  note serves = pair_ready_serves [OF assms(1-5)]
  show ?thesis
  proof (cases "\<exists>k < length ?P. ready ?b (?ops ! k)")
    case False
    then have "\<forall>op \<in> set ?ops. \<not> ready ?b op" by (metis in_set_conv_nth length_map)
    from commit_none [OF this slots, where policy = default_priority_of, unfolded assms(6) fst_conv snd_conv]
    show ?thesis by (rule unready)
  next
    case True
    then obtain k where k: "k < length ?P" "ready ?b (?ops ! k)" by blast
    obtain i p c where i: "i < 2" "?P ! k = (int i, p)" "pair_lane i s = (Some p, c)" using k(1) by (rule pending_lane)
    have r: "ready ?b (pb_op p)" using k by (simp add: i(2))
    have only: "\<forall>m < length ?P. ready ?b (?ops ! m) \<longleftrightarrow> m = k"
    proof (intro allI impI iffI)
      fix m assume m: "m < length ?P" "ready ?b (?ops ! m)"
      obtain j q d where j: "j < 2" "?P ! m = (int j, q)" "pair_lane j s = (Some q, d)" using m(1) by (rule pending_lane)
      have rq: "ready ?b (pb_op q)" using m by (simp add: j(2))
      show "m = k"
      proof (rule ccontr)
        assume "m \<noteq> k"
        then have "fst (?P ! m) \<noteq> fst (?P ! k)"
          using pending_list_distinct [of "pr_p0 s" "pr_p1 s"] m(1) k(1) by (auto simp: distinct_conv_nth)
        then have "j = 1 - i" "i = 1 - j" using i(1) j(1) by (simp_all add: i(2) j(2) less_2_cases_iff) auto
        then show False
          using serves(1) [OF i(1,3) r, of q d] serves(1) [OF j(1,3) rq, of p c] i(3) j(3) by simp
      qed
    qed (use k(2) in simp)
    have op: "?ops ! k = pb_op p" using k(1) by (simp add: i(2))
    note alone = commit_alone [where policy = default_priority_of and i = k and ops = ?ops and a = ?b,
        unfolded assms(6) fst_conv snd_conv op length_map, OF k(1) only slots nh]
    show ?thesis by (rule one [OF i(1,3) r alone(1)]) (simp_all add: i(2) alone(2))
  qed
qed

lemma deliver_serves:
  fixes a :: bus_arbiter
  assumes "i < 2" "pair_lane i s = (Some p, c)" "lane_good i (Some p, c)" "pending ! input_index r = (int i, p)"
    and "response r = fst (execute_commit b (pb_op p) False)"
  defines "t \<equiv> deliver pending r (s\<lparr>pr_arbiter := a\<rparr>)"
  shows "pair_lane i t = fst (serve p c b)" "pair_lane (1 - i) t = pair_lane (1 - i) s" "pr_arbiter t = a"
proof -
  note f = fill_matches [of p c b False "producer_token (pb_op p)" "arb_trace a"]
  have "pair_lane i t = fst (serve p c b) \<and> pair_lane (1 - i) t = pair_lane (1 - i) s \<and> pr_arbiter t = a"
    using assms(1-5) f
    by (auto simp: t_def deliver_def pair_lane_def Let_def serve_def split_def lane_good_def less_2_cases_iff)
  then show "pair_lane i t = fst (serve p c b)" "pair_lane (1 - i) t = pair_lane (1 - i) s" "pr_arbiter t = a" by simp_all
qed

lemma iteration_prepared:
  "pair_iteration s =
    (if pr_p0 (prepared s) = None \<and> pr_p1 (prepared s) = None \<and> sc_done (pr_cpu0 (prepared s)) \<and> sc_done (pr_cpu1 (prepared s))
     then (True, prepared s)
     else let pending = pending_list (pr_p0 (prepared s)) (pr_p1 (prepared s)) in
       if pending = [] then (False, prepared s)
       else let (committed, a) = commit_batch default_priority_of (pr_arbiter (prepared s)) (map (\<lambda>x. pb_op (snd x)) pending)
            in (False, fold (deliver pending) committed ((prepared s)\<lparr>pr_arbiter := a\<rparr>)))"
  by (simp add: pair_iteration_def prepared_def filled_def pair_lane_def split_def Let_def)

definition pair_course :: "latency_model \<Rightarrow> nat \<Rightarrow> scripted_cpu \<times> scripted_cpu \<times> bus_arbiter \<Rightarrow> pair_state \<Rightarrow> bool" where
  "pair_course lat K f s \<longleftrightarrow> (\<exists>U. pair_within lat K U s) \<and> (\<exists>n. reference_run n (pair_settled s) = Some f)"

text \<open>One commit answered: the clocks and what is owed, whether the operation was accepted or not, tied or not.\<close>

lemma committed_within:
  assumes "pair_within lat K U s" "K < 2 ^ 64 - 1" "i < 2" "pair_lane i s = (Some p, c)"
    and b: "bus_free_time b = bus_free_time (pr_arbiter s)" "arb_latency b = lat" "arb_trace b = arb_trace (pr_arbiter s)"
    and e: "execute_commit b (pb_op p) tie = (rsp, b1)"
    and lanes: "pair_lane i t = (None, fst (sc_apply_response c (pb_script_index p) rsp tok tr))"
      "pair_lane (1 - i) t = pair_lane (1 - i) s"
    and a: "bus_free_time (pr_arbiter t) = bus_free_time b1" "arb_latency (pr_arbiter t) = lat"
      "arb_trace (pr_arbiter t) = arb_trace b1" "progress_up_to (pr_arbiter t) = progress_up_to (pr_arbiter s)"
  shows "pair_within lat K (U + max_latency lat) t"
proof -
  let ?l = "max_latency lat"
  have good: "lane_good j (pair_lane j s)" "now (snd (pair_lane j s)) \<le> U" if "j < 2" for j
    using assms(1) that by (auto simp: pair_within_def less_2_cases_iff)
  have g: "lane_good i (Some p, c)" "now c \<le> U" using good [OF assms(3)] assms(4) by simp_all
  have req: "unat (req_time (pb_op p)) = now c" using g(1) by (simp add: lane_good_def stamped_def now_def)
  have free: "unat (bus_free_time b) \<le> U" using assms(1) b(1) by (simp add: pair_within_def)
  have owed: "U + lane_owed ?l (Some p, c) + lane_owed ?l (pair_lane (1 - i) s) \<le> K"
    using assms(1,3,4) by (auto simp: pair_within_def less_2_cases_iff)
  then have room: "U + ?l < 2 ^ 64" using assms(2) by (simp add: lane_owed_def)
  have late: "now c + unat (rsp_stall rsp) \<le> U + ?l" "unat (bus_free_time b1) \<le> U + ?l"
    using commit_reach [OF free _ room [folded b(2)], of "pb_op p" tie, unfolded b(2)] g(2) req by (simp_all add: e)
  note served = answered_lane [OF g(1) late(1) room, where tok = tok and tr = tr]
  have halts: "halt_on_fault (arb_trace b1) = halt_on_fault (arb_trace b)"
    "should_halt (arb_trace b1) \<longrightarrow> should_halt (arb_trace b) \<or> halt_on_fault (arb_trace b)"
    using execute_frame(6) [of b "pb_op p" tie] should_halt_execute [of b "pb_op p" tie] by (auto simp: e)
  have ours: "j = i \<or> j = 1 - i" if "j < 2" for j using assms(3) that by (auto simp: less_2_cases_iff)
  have all: "lane_good j (pair_lane j t)" "now (snd (pair_lane j t)) \<le> U + ?l" "now (snd (pair_lane j s)) \<le> now (snd (pair_lane j t))"
    if "j < 2" for j
    using ours [OF that] good [OF that] served assms(4) lanes by auto
  have "lane_owed ?l (pair_lane 0 t) + lane_owed ?l (pair_lane 1 t) = lane_owed ?l (pair_lane i t) + lane_owed ?l (pair_lane (1 - i) t)"
    using assms(3) by (auto simp: less_2_cases_iff)
  then have "U + ?l + lane_owed ?l (pair_lane 0 t) + lane_owed ?l (pair_lane 1 t) \<le> K"
    using owed served(4) [where l = ?l] unfolding lanes by simp
  moreover have "progress_up_to (pr_arbiter s) j = tick_max \<or> unat (progress_up_to (pr_arbiter s) j) \<le> now (snd (pair_lane j t)) + 1"
    if "j < 2" for j using assms(1) all(3) [OF that] that by (auto simp: pair_within_def)
  ultimately show ?thesis
    using assms(1) all(1,2) late(2) halts unfolding pair_within_def a b(3) by simp
qed

text \<open>The loop ends with the result of the reference run, or goes on towards it.\<close>

lemma prepared_course:
  assumes "pair_course lat K f s" "K < 2 ^ 64 - 1"
    and "commit_batch default_priority_of (pr_arbiter (prepared s))
      (map (\<lambda>x. pb_op (snd x)) (pending_list (pr_p0 (prepared s)) (pr_p1 (prepared s)))) = (committed, a)"
  defines "t \<equiv> fold (deliver (pending_list (pr_p0 (prepared s)) (pr_p1 (prepared s)))) committed ((prepared s)\<lparr>pr_arbiter := a\<rparr>)"
  shows "pair_course lat K f t"
proof -
  let ?s = "prepared s" and ?l = "max_latency lat"
  let ?b = "pr_arbiter ?s"
  obtain U where U: "pair_within lat K U ?s" using assms(1) unfolding pair_course_def by (meson prepared_within [OF _ assms(2)])
  obtain n where n: "reference_run n (pair_settled ?s) = Some f" using assms(1) by (auto simp: pair_course_def prepared_settled)
  have tr: "progress_tracking_enabled ?b" by (simp add: prepared_def Let_def update_progress_0)
  have idem: "\<forall>j < 2. filled (pair_lane j ?s) = pair_lane j ?s" by (simp add: prepared_lane)
  have pr: "progress_up_to a = progress_up_to ?b"
    using commit_batch_progress [of default_priority_of ?b] assms(3) by (metis snd_conv)
  show ?thesis
  proof (cases rule: pair_commit [OF U assms(2) n tr idem assms(3), case_names unready one])
    case unready
    have same: "arb_trace a = arb_trace ?b" "bus_free_time a = bus_free_time ?b" "arb_latency a = arb_latency ?b"
      using unready(2) by (metis bus_core_select)+
    have "pair_lane j t = pair_lane j ?s" "pr_arbiter t = a" for j by (simp_all add: t_def unready(1) pair_lane_def)
    then have "pair_within lat K U t" "pair_settled t = pair_settled ?s"
      using U unready(2) by (simp_all add: pair_within_def pair_settled_def same pr)
    then show ?thesis using n by (auto simp: pair_course_def)
  next
    case (one i p c r)
    let ?e = "execute_commit (bus_core ?b) (pb_op p) False"
    have t: "t = deliver (pending_list (pr_p0 ?s) (pr_p1 ?s)) r (?s\<lparr>pr_arbiter := a\<rparr>)" by (simp add: t_def one(4))
    have "lane_good i (Some p, c)" using U one(1,2) by (auto simp: pair_within_def less_2_cases_iff)
    note d = deliver_serves [OF one(1,2) this one(5,6), of a, folded t]
    obtain rsp b1 where e: "execute_commit (bus_core ?b) (pb_op p) False = (rsp, b1)" by fastforce
    have same: "bus_free_time a = bus_free_time b1" "arb_latency a = arb_latency ?b" "arb_trace a = arb_trace b1"
      using one(7) execute_frame(1) [of "bus_core ?b" "pb_op p" False] unfolding e by (metis bus_core_select snd_conv)+
    have "pair_within lat K (U + ?l) t"
      using U by (intro committed_within [OF U assms(2) one(1,2) _ _ _ e _ d(2)])
        (simp_all add: d(1,3) serve_def e same pr pair_within_def)
    moreover have "\<exists>m. reference_run m (pair_settled t) = Some f"
    proof -
      have o: "1 - i < 2" by simp
      have "bus_core a = snd (serve p c (bus_core ?b))" using one(7) by (simp add: serve_def split_def Let_def)
      then have "pair_settled t = with_lanes i (filled (fst (serve p c (bus_core ?b)))) (filled (pair_lane (1 - i) ?s))
          (snd (serve p c (bus_core ?b)))"
        unfolding pair_settled_lanes [OF one(1)] d by simp
      then show ?thesis
        using pair_ready_serves(2) [OF U assms(2) n tr idem one(1-3)] reference_refilled idem o by (metis (no_types, lifting))
    qed
    ultimately show ?thesis by (auto simp: pair_course_def)
  qed
qed

lemma filled_none: "fst (filled v) = None \<Longrightarrow> sc_done (snd (filled v))"
  using produce_none_done [of "snd v"] by (auto simp: filled_def refill_def)

lemma pair_reaches_reference:
  "run_scripted_pair fuel s = Some t \<Longrightarrow> pair_course lat K f s \<Longrightarrow> K < 2 ^ 64 - 1 \<Longrightarrow>
    f = (pr_cpu0 t, pr_cpu1 t, bus_core (pr_arbiter t))"
proof (induction fuel arbitrary: s)
  case (Suc fuel)
  let ?s = "prepared s"
  let ?P = "pending_list (pr_p0 ?s) (pr_p1 ?s)"
  have idle: "sc_done (pr_cpu0 ?s)" "sc_done (pr_cpu1 ?s)" if "pr_p0 ?s = None" "pr_p1 ?s = None"
    using that filled_none by (auto simp: prepared_def Let_def)
  show ?case
  proof (cases "pr_p0 ?s = None \<and> pr_p1 ?s = None")
    case True
    then have "t = ?s" using Suc.prems(1) idle by (simp add: iteration_prepared)
    obtain n where "reference_run n (pair_settled ?s) = Some f"
      using Suc.prems(2) by (auto simp: pair_course_def prepared_settled)
    moreover have "filled (pair_lane i ?s) = (None, snd (pair_lane i ?s))" if "i < 2" for i
      using True idle that by (auto simp: filled_def refill_def pair_lane_def)
    ultimately show ?thesis
      unfolding \<open>t = ?s\<close> by (cases n) (auto simp: pair_settled_def with_lanes_def pair_lane_def filled_def refill_def idle True)
  next
    case False
    then have P: "?P \<noteq> []" by (auto simp: pending_list_def split: option.splits)
    obtain committed a where c: "commit_batch default_priority_of (pr_arbiter ?s) (map (\<lambda>x. pb_op (snd x)) ?P) = (committed, a)"
      by fastforce
    have "pair_iteration s = (False, fold (deliver ?P) committed (?s\<lparr>pr_arbiter := a\<rparr>))"
      using False P c by (auto simp: iteration_prepared Let_def)
    then have "run_scripted_pair fuel (fold (deliver ?P) committed (?s\<lparr>pr_arbiter := a\<rparr>)) = Some t"
      using Suc.prems(1) by simp
    then show ?thesis using Suc.IH prepared_course [OF Suc.prems(2,3) c] Suc.prems(3) by blast
  qed
qed simp

definition scripted_start :: "script_op list \<Rightarrow> script_op list \<Rightarrow> nat \<Rightarrow> nat \<Rightarrow> bus_arbiter \<Rightarrow> pair_state" where
  "scripted_start script0 script1 n m a = \<lparr>pr_cpu0 = new_scripted_cpu 0 script0 n m,
     pr_cpu1 = new_scripted_cpu 1 script1 n m, pr_p0 = None, pr_p1 = None, pr_arbiter = a\<rparr>"

lemma start_course:
  assumes "reference_run k (reference_start script0 script1 n m (new_bus_arbiter mem dev new_trace lat)) = Some f" "n < 256"
  shows "pair_course lat (script_work (max_latency lat) script0 + script_work (max_latency lat) script1) f
    (scripted_start script0 script1 n m (new_bus_arbiter mem dev new_trace lat))"
proof -
  let ?s = "scripted_start script0 script1 n m (new_bus_arbiter mem dev new_trace lat)"
  have "bus_core (new_bus_arbiter mem dev new_trace lat) = new_bus_arbiter mem dev new_trace lat"
    by (simp add: bus_core_def new_bus_arbiter_def)
  then have "reference_run k (pair_settled ?s) = Some f"
    using assms(1) by (simp add: pair_settled_def with_lanes_def pair_lane_def scripted_start_def reference_start_def reference_filled)
  moreover have "pair_within lat (script_work (max_latency lat) script0 + script_work (max_latency lat) script1) 0 ?s"
    using assms(2) by (simp add: pair_within_def lane_good_def pair_lane_def scripted_start_def new_scripted_cpu_def now_def
        lane_owed_def work_left_def new_bus_arbiter_def new_trace_def new_cache_def)
  ultimately show ?thesis by (auto simp: pair_course_def)
qed

text \<open>
  (C2) The threads agree with the single-threaded run. When both runs of two scripts end and no two requests
  ever ask for the same tick (the reference run ends without a tie), they end with the same CPUs and the same
  arbiter, up to its progress, and write the same trace, whatever the schedule. The line size has to fit the byte
  in which a read announces it.
\<close>

theorem threads_agree_with_the_single_thread:
  assumes "run_scripted_pair fuel (scripted_start script0 script1 n m (new_bus_arbiter mem dev new_trace lat)) = Some u"
    and "run_schedule ths (start_threads (new_scripted_cpu 0 script0 n m) (new_scripted_cpu 1 script1 n m)
      (new_bus_arbiter mem dev new_trace lat)) = Some s"
    and "joined s"
    and "reference_run k (reference_start script0 script1 n m (new_bus_arbiter mem dev new_trace lat)) \<noteq> None"
    and "script_work (max_latency lat) script0 + script_work (max_latency lat) script1 < 2 ^ 64 - 1"
    and "n < 256"
  shows "th_cpu (producers s 0) = pr_cpu0 u \<and> th_cpu (producers s 1) = pr_cpu1 u \<and>
    bus_core (mt_arbiter s) = bus_core (pr_arbiter u) \<and>
    write_jsonl (arb_trace (mt_arbiter s)) = write_jsonl (arb_trace (pr_arbiter u))"
proof -
  obtain f where f: "reference_run k (reference_start script0 script1 n m (new_bus_arbiter mem dev new_trace lat)) = Some f"
    using assms(4) by auto
  have t: "f = (th_cpu (producers s 0), th_cpu (producers s 1), bus_core (mt_arbiter s))"
    using threads_reach_reference [OF f assms(2,3,5)] .
  have p: "f = (pr_cpu0 u, pr_cpu1 u, bus_core (pr_arbiter u))"
    using pair_reaches_reference [OF assms(1) start_course [OF f assms(6)] assms(5)] .
  have "arb_trace (mt_arbiter s) = arb_trace (pr_arbiter u)" using t p by (metis bus_core_select(3) prod.inject)
  then show ?thesis using t p by simp
qed

lemma threads_agree_with_the_single_thread_witness:
  "\<exists>s u. run_schedule staggered_schedule staggered_start = Some s \<and> joined s \<and>
     commit_times (mt_arbiter s) = [(0, 0, 3), (1, 3, 6)] \<and>
     run_scripted_pair 3 (scripted_start [write_op 0x10 1] [compute_op 2, write_op 0x20 2] 16 4
       (new_bus_arbiter (new_memory 64) new_device_hub new_trace default_latency)) = Some u \<and>
     write_jsonl (arb_trace (mt_arbiter s)) = write_jsonl (arb_trace (pr_arbiter u))"
proof -
  obtain s where s: "run_schedule staggered_schedule staggered_start = Some s" "joined s"
    "commit_times (mt_arbiter s) = [(0, 0, 3), (1, 3, 6)]" by (rule staggered_joins)
  have "run_scripted_pair 3 (scripted_start [write_op 0x10 1] [compute_op 2, write_op 0x20 2] 16 4
       (new_bus_arbiter (new_memory 64) new_device_hub new_trace default_latency)) \<noteq> None" by code_simp
  then obtain u where u: "run_scripted_pair 3 (scripted_start [write_op 0x10 1] [compute_op 2, write_op 0x20 2] 16 4
       (new_bus_arbiter (new_memory 64) new_device_hub new_trace default_latency)) = Some u" by auto
  have "(16 :: nat) < 256" by simp
  from threads_agree_with_the_single_thread [OF u s(1) [unfolded staggered_start_def] s(2)
      staggered_reference_ends [unfolded staggered_reference_def] staggered_work this] s u
  show ?thesis by metis
qed


end
