(* ===== verification/PairRun.thy ===== *)
theory PairRun
  imports PairParity
begin

text \<open>
  An iteration of the single-threaded loop as what it is made of: both lanes filled, then one commit after the other,
  each answered. The locale \<open>pair_invariant\<close> states what an invariant of the loop has to survive; the clocks are
  its first instance. With them: a CPU that has finished early blocks the other for ever.
\<close>

section \<open>One commit, answered\<close>

definition answered :: "nat \<Rightarrow> pending_bus_op \<Rightarrow> scripted_cpu \<Rightarrow> bus_response \<Rightarrow> bus_arbiter \<Rightarrow> pair_state \<Rightarrow> pair_state" where
  "answered i p c rsp b s =
    (let d = fst (sc_apply_response c (pb_script_index p) rsp (producer_token (pb_op p)) None)
     in if i = 0 then s\<lparr>pr_cpu0 := d, pr_p0 := None, pr_arbiter := b\<rparr> else s\<lparr>pr_cpu1 := d, pr_p1 := None, pr_arbiter := b\<rparr>)"

lemma answered_lanes:
  assumes "i < 2"
  shows "pair_lane i (answered i p c rsp b s) =
      (None, fst (sc_apply_response c (pb_script_index p) rsp (producer_token (pb_op p)) None))"
    and "pair_lane (1 - i) (answered i p c rsp b s) = pair_lane (1 - i) s"
    and "pr_arbiter (answered i p c rsp b s) = b"
  using assms by (auto simp: answered_def pair_lane_def Let_def less_2_cases_iff)

lemma lane_arbiter [simp]: "pair_lane i (s\<lparr>pr_arbiter := a\<rparr>) = pair_lane i s"
  by (simp add: pair_lane_def)

text \<open>The loop applies a response with the trace; the trace stays as it is, whatever the arbiter has become meanwhile.\<close>

lemma deliver_answered:
  assumes "i < 2" "pair_lane i s = (Some p, c)" "lane_good i (Some p, c)" "pending ! input_index r = (int i, p)"
    and "response r = fst (execute_commit b (pb_op p) tie)"
  shows "deliver pending r (s\<lparr>pr_arbiter := a\<rparr>) = (answered i p c (response r) b1 s)\<lparr>pr_arbiter := a\<rparr>"
  using assms fill_matches [of p c b tie "producer_token (pb_op p)" "arb_trace a"]
  by (auto simp: deliver_def answered_def pair_lane_def Let_def split_def lane_good_def less_2_cases_iff)

section \<open>Invariants of the loop\<close>

locale pair_invariant =
  fixes Q :: "pair_state \<Rightarrow> bool"
  assumes stamps: "Q s \<Longrightarrow> i < 2 \<Longrightarrow> lane_good i (pair_lane i s)"
    and filling: "Q s \<Longrightarrow> Q (prepared s)"
    and enqueuing: "Q s \<Longrightarrow> Q (s\<lparr>pr_arbiter := (pr_arbiter s)\<lparr>producer_enqueued_seen := e, producer_last_enqueued_req_time := t\<rparr>\<rparr>)"
    and committing: "Q s \<Longrightarrow> i < 2 \<Longrightarrow> pair_lane i s = (Some p, c) \<Longrightarrow>
      execute_commit (pr_arbiter s) (pb_op p) tie = (rsp, b) \<Longrightarrow> Q (answered i p c rsp b s)"
begin

text \<open>What is still pending in a batch belongs to lanes that are not answered yet, each to its own.\<close>

definition awaits :: "(int \<times> pending_bus_op) list \<Rightarrow> commit_result list \<Rightarrow> pair_state \<Rightarrow> bool" where
  "awaits pl pending s \<longleftrightarrow> distinct (map (\<lambda>x. fst (pl ! input_index x)) pending) \<and>
     (\<forall>x \<in> set pending. \<exists>i p c. i < 2 \<and> pl ! input_index x = (int i, p) \<and> cr_op x = pb_op p \<and> pair_lane i s = (Some p, c))"

lemma awaits_rest:
  assumes "awaits pl pending s" "k < length pending" "i < 2" "fst (pl ! input_index (pending ! k)) = int i"
  shows "awaits pl (erase_at k pending) (answered i p c rsp b s)"
proof -
  have d: "distinct (map (\<lambda>x. fst (pl ! input_index x)) pending)" using assms(1) by (simp add: awaits_def)
  have "distinct (map (\<lambda>x. fst (pl ! input_index x)) (erase_at k pending))"
    using d assms(2) by (metis (no_types, lifting) distinct.simps(2) mset_eq_imp_distinct_iff mset.simps(2) mset_erase_map)
  moreover have "\<exists>j q e. j < 2 \<and> pl ! input_index x = (int j, q) \<and> cr_op x = pb_op q \<and>
      pair_lane j (answered i p c rsp b s) = (Some q, e)" if x: "x \<in> set (erase_at k pending)" for x
  proof -
    obtain m where m: "m < length pending" "m \<noteq> k" "x = pending ! m" using erase_at_others [OF assms(2) x] by blast
    then obtain j q e where j: "j < 2" "pl ! input_index x = (int j, q)" "cr_op x = pb_op q" "pair_lane j s = (Some q, e)"
      using assms(1) unfolding awaits_def by (metis nth_mem)
    have "fst (pl ! input_index x) \<noteq> int i"
      using nth_eq_iff_index_eq [OF d, of m k] m assms(2,4) by auto
    then have "j = 1 - i" using j(1,2) assms(3) by (auto simp: less_2_cases_iff)
    then show ?thesis using j answered_lanes(2) [OF assms(3)] by metis
  qed
  ultimately show ?thesis by (simp add: awaits_def)
qed

lemma batch_keeps:
  assumes "Q (s\<lparr>pr_arbiter := a\<rparr>)" "awaits pl pending s"
  shows "Q (fold (deliver pl) (fst (batch_loop policy a pending)) (s\<lparr>pr_arbiter := snd (batch_loop policy a pending)\<rparr>))"
  using assms
proof (induction a pending arbitrary: s rule: batch_induct [where policy = policy])
  case (round a pending k tie rsp a1)
  let ?x = "pending ! k" and ?rest = "erase_at k pending"
  obtain i p c where i: "i < 2" "pl ! input_index ?x = (int i, p)" "cr_op ?x = pb_op p" "pair_lane i s = (Some p, c)"
    using round(4) round(10) unfolding awaits_def by (metis nth_mem)
  have e: "execute_commit (pr_arbiter (s\<lparr>pr_arbiter := a\<rparr>)) (pb_op p) tie = (rsp, a1)" using round(6) i(3) by simp
  let ?s = "answered i p c rsp a1 s"
  have "answered i p c rsp a1 (s\<lparr>pr_arbiter := a\<rparr>) = ?s" by (simp add: answered_def Let_def)
  then have q: "Q ?s" using committing [OF round(9) i(1) _ e] i(4) by simp
  then have "Q (?s\<lparr>pr_arbiter := a1\<rparr>)" using answered_lanes(3) [OF i(1), of p c rsp a1 s] by (metis pair_state.surjective pair_state.update_convs(5) pair_state.select_convs(5))
  moreover have "awaits pl ?rest ?s" using awaits_rest [OF round(10,4) i(1)] i(2) by simp
  ultimately have "Q (fold (deliver pl) (fst (batch_loop policy a1 ?rest)) (?s\<lparr>pr_arbiter := snd (batch_loop policy a1 ?rest)\<rparr>))"
    by (rule round(8))
  moreover have "lane_good i (Some p, c)" using stamps [OF round(9) i(1)] i(4) by simp
  then have "deliver pl (?x\<lparr>response := rsp\<rparr>) (s\<lparr>pr_arbiter := a'\<rparr>) = ?s\<lparr>pr_arbiter := a'\<rparr>" for a'
    using deliver_answered [OF i(1,4), of pl "?x\<lparr>response := rsp\<rparr>" a tie a' a1] i(2) round(6) i(3) by simp
  ultimately show ?case by (simp add: round(7))
qed simp

lemma iteration_keeps:
  assumes "Q s"
  shows "Q (snd (pair_iteration s))"
proof -
  let ?s = "prepared s"
  let ?P = "pending_list (pr_p0 ?s) (pr_p1 ?s)" and ?a = "pr_arbiter (prepared s)"
  let ?ops = "map (\<lambda>x. pb_op (snd x)) ?P"
  have q: "Q ?s" using assms by (rule filling)
  obtain committed a where c: "commit_batch default_priority_of ?a ?ops = (committed, a)" by fastforce
  have "Q (fold (deliver ?P) committed (?s\<lparr>pr_arbiter := a\<rparr>))"
  proof (cases "should_halt (arb_trace ?a)")
    case True
    then have "committed = []" "a = fresh_enqueue ?a" using batch_halted [OF True, of default_priority_of ?ops] c by simp_all
    then show ?thesis using enqueuing [OF q] by simp
  next
    case False
    have good: "lane_good 0 (pair_lane 0 ?s)" "lane_good 1 (pair_lane 1 ?s)" using stamps [OF q] by simp_all
    note e = enqueue_fresh [OF pair_slots [OF good] False]
    let ?b = "snd (enqueue_loop (fresh_enqueue ?a) 0 ?ops)" and ?pending = "map entry (enumerate 0 ?ops)"
    have r: "(committed, a) = batch_loop default_priority_of ?b ?pending"
      using c unfolding commit_batch_split by (simp add: e)
    have "Q (?s\<lparr>pr_arbiter := ?b\<rparr>)" using enqueuing [OF q] by (simp add: e)
    moreover have "awaits ?P ?pending ?s"
    proof -
      have "map (\<lambda>x. fst (?P ! input_index x)) ?pending = map fst ?P"
        by (rule nth_equalityI) (simp_all add: nth_enumerate_eq)
      moreover have "\<exists>i p c. i < 2 \<and> ?P ! input_index x = (int i, p) \<and> cr_op x = pb_op p \<and> pair_lane i ?s = (Some p, c)"
        if x: "x \<in> set ?pending" for x
      proof -
        obtain k where k: "k < length ?P" "x = entry (k, ?ops ! k)" using x by (auto simp: in_set_enumerate_eq)
        obtain i p c where "i < 2" "?P ! k = (int i, p)" "pair_lane i ?s = (Some p, c)" using k(1) by (rule pending_lane)
        then show ?thesis using k by (intro exI [of _ i] exI [of _ p] exI [of _ c]) simp
      qed
      ultimately show ?thesis by (simp only: awaits_def pending_list_distinct) simp
    qed
    ultimately show ?thesis using batch_keeps [where policy = default_priority_of] r by (metis fst_conv snd_conv)
  qed
  then show ?thesis using q c by (simp add: iteration_prepared Let_def)
qed

lemma run_keeps: "run_scripted_pair fuel s = Some t \<Longrightarrow> Q s \<Longrightarrow> Q t"
proof (induction fuel arbitrary: s)
  case (Suc fuel)
  then show ?case using iteration_keeps [OF Suc.prems(2)] by (auto simp: split_def Let_def split: if_splits)
qed simp

lemma iterations_keep: "Q s \<Longrightarrow> Q (((\<lambda>s. snd (pair_iteration s)) ^^ n) s)"
  by (induction n) (simp_all add: iteration_keeps)

end

section \<open>The clocks\<close>

definition clocked :: "latency_model \<Rightarrow> nat \<Rightarrow> pair_state \<Rightarrow> bool" where
  "clocked lat K s \<longleftrightarrow> K < 2 ^ 64 - 1 \<and> (\<exists>U. pair_within lat K U s)"

lemma clocked_committed:
  assumes "clocked lat K s" "i < 2" "pair_lane i s = (Some p, c)" "execute_commit (pr_arbiter s) (pb_op p) tie = (rsp, b)"
  shows "clocked lat K (answered i p c rsp b s)"
proof -
  obtain U where K: "K < 2 ^ 64 - 1" and U: "pair_within lat K U s" using assms(1) by (auto simp: clocked_def)
  have lat: "arb_latency (pr_arbiter s) = lat" using U by (simp add: pair_within_def)
  have b: "arb_latency b = lat" "progress_up_to b = progress_up_to (pr_arbiter s)"
    using execute_frame(1,3) [of "pr_arbiter s" "pb_op p" tie] lat unfolding assms(4) by simp_all
  have "pair_within lat K (U + max_latency lat) (answered i p c rsp b s)"
    by (rule committed_within [OF U K assms(2,3) refl lat refl assms(4) answered_lanes(1,2) [OF assms(2)]])
      (simp_all add: answered_lanes(3) [OF assms(2)] b)
  then show ?thesis using K by (auto simp: clocked_def)
qed

lemma pair_within_enqueue:
  "pair_within lat K U (s\<lparr>pr_arbiter := (pr_arbiter s)\<lparr>producer_enqueued_seen := e, producer_last_enqueued_req_time := t\<rparr>\<rparr>) =
     pair_within lat K U s"
  by (simp add: pair_within_def)

lemma clocked_stamps: "clocked lat K s \<Longrightarrow> i < 2 \<Longrightarrow> lane_good i (pair_lane i s)"
  by (auto simp: clocked_def pair_within_def less_2_cases_iff)

lemma clocked_filled:
  assumes "clocked lat K s"
  shows "clocked lat K (prepared s)" and "i < 2 \<Longrightarrow> now (snd (pair_lane i s)) \<le> now (snd (filled (pair_lane i s)))"
proof -
  obtain U where K: "K < 2 ^ 64 - 1" and U: "pair_within lat K U s" using assms by (auto simp: clocked_def)
  show "clocked lat K (prepared s)" using prepared_within [OF U K] K by (auto simp: clocked_def)
  assume "i < 2"
  moreover have "now (snd (pair_lane i s)) \<le> U" "U + lane_owed (max_latency lat) (pair_lane i s) < 2 ^ 64" if "i < 2"
    using U K that by (auto simp: pair_within_def less_2_cases_iff)
  ultimately show "now (snd (pair_lane i s)) \<le> now (snd (filled (pair_lane i s)))"
    using filled_lane(2) [OF clocked_stamps [OF assms]] by blast
qed

interpretation pair_clocks: pair_invariant "clocked lat K" for lat K
  by unfold_locales (simp_all add: clocked_stamps clocked_filled clocked_committed, simp add: clocked_def pair_within_enqueue)

lemma start_clocked:
  assumes "script_work (max_latency lat) script0 + script_work (max_latency lat) script1 < 2 ^ 64 - 1" "n < 256"
  shows "clocked lat (script_work (max_latency lat) script0 + script_work (max_latency lat) script1)
    (scripted_start script0 script1 n m (new_bus_arbiter mem dev new_trace lat))"
  using assms
  by (auto simp: clocked_def pair_within_def lane_good_def pair_lane_def scripted_start_def new_scripted_cpu_def now_def
      lane_owed_def work_left_def new_bus_arbiter_def new_trace_def new_cache_def intro!: exI [of _ 0])

section \<open>A finished CPU can block the other\<close>

definition fault_free :: "bus_arbiter \<Rightarrow> bool" where
  "fault_free a \<longleftrightarrow> list_all (\<lambda>e. case e of FaultLine _ \<Rightarrow> False | _ \<Rightarrow> True) (events (arb_trace a))"

lemma fault_free_execute: "fault_free (snd (execute_commit a op tie)) \<longleftrightarrow> fault_free a \<and> accepted a op"
  using execute_accepted_facts(8) [of a op tie] execute_rejected_facts(2) [of a op tie]
  by (cases "accepted a op") (auto simp: fault_free_def)

text \<open>Every accepted operation takes time, so its CPU's clock passes what was announced for it.\<close>

lemma stall_moves:
  assumes "accepted a op" "arb_latency a = default_latency" "unat (bus_free_time a) \<le> U" "unat (req_time op) \<le> U"
    and "U + max_latency default_latency < 2 ^ 64"
  shows "unat (rsp_stall (fst (execute_commit a op tie))) \<noteq> 0"
proof
  let ?d = "base_latency a op + contention_extra a op tie"
  assume "unat (rsp_stall (fst (execute_commit a op tie))) = 0"
  then have "commit_finish a op tie = req_time op"
    by (simp add: execute_accepted_facts(3) [OF assms(1)] unat_eq_0)
  moreover have "?d \<noteq> 0"
    by (simp add: base_latency_def contention_extra_def assms(2) default_latency_def Let_def)
  then have "unat ?d \<noteq> 0" by (simp add: unat_eq_0)
  moreover have "unat (commit_finish a op tie) = unat (bus_start a op) + unat ?d"
  proof -
    have "unat (bus_start a op) \<le> U" using assms(3,4) by (simp add: bus_start_def)
    moreover have "unat ?d \<le> max_latency default_latency"
      using latency_bound [of a op tie] assms(2,5) by simp
    ultimately show ?thesis using assms(5) by (simp add: commit_finish_def unat_word_ariths(1) [of "bus_start a op"])
  qed
  moreover have "unat (req_time op) \<le> unat (bus_start a op)" by (simp add: bus_start_max max_def word_le_nat_alt)
  ultimately show False by simp
qed

text \<open>As long as nothing was rejected, nothing later than its clock was announced for a CPU without a request.\<close>

definition announced :: "nat \<Rightarrow> pair_state \<Rightarrow> bool" where
  "announced K s \<longleftrightarrow> clocked default_latency K s \<and> (fault_free (pr_arbiter s) \<longrightarrow>
     (\<forall>i < 2. fst (pair_lane i s) = None \<longrightarrow> progress_up_to (pr_arbiter s) i = tick_max \<or>
        progress_up_to (pr_arbiter s) i \<le> sc_local_time (snd (pair_lane i s))))"

lemma filled_idle: "fst (filled v) = None \<Longrightarrow> fst v = None"
  by (auto simp: filled_def refill_def split: if_splits)

lemma announced_filled:
  assumes "announced K s"
  shows "announced K (prepared s)"
proof -
  have c: "clocked default_latency K s" using assms by (simp add: announced_def)
  have "progress_up_to (pr_arbiter (prepared s)) i = tick_max \<or>
      progress_up_to (pr_arbiter (prepared s)) i \<le> sc_local_time (snd (pair_lane i (prepared s)))"
    if i: "i < 2" "fst (pair_lane i (prepared s)) = None" and f: "fault_free (pr_arbiter (prepared s))" for i
  proof -
    have f': "fault_free (pr_arbiter s)" using f by (simp add: fault_free_def prepared_def Let_def prepared_progress)
    have n: "fst (filled (pair_lane i s)) = None" using i(2) unfolding prepared_lane [OF i(1)] .
    have "sc_local_time (snd (pair_lane i s)) \<le> sc_local_time (snd (filled (pair_lane i s)))"
      using clocked_filled(2) [OF c i(1)] by (simp add: now_def word_le_nat_alt)
    moreover have "progress_up_to (pr_arbiter s) i = tick_max \<or> progress_up_to (pr_arbiter s) i \<le> sc_local_time (snd (pair_lane i s))"
      using assms f' i(1) filled_idle [OF n] by (simp add: announced_def)
    ultimately show ?thesis
      using n i(1) unfolding prepared_lane [OF i(1)]
      by (auto simp: prepared_def Let_def prepared_progress watermark_def less_2_cases_iff)
  qed
  then show ?thesis using clocked_filled(1) [OF c] by (simp add: announced_def)
qed

lemma announced_committed:
  assumes "announced K s" "i < 2" "pair_lane i s = (Some p, c)" "execute_commit (pr_arbiter s) (pb_op p) tie = (rsp, b)"
  shows "announced K (answered i p c rsp b s)"
proof -
  let ?t = "answered i p c rsp b s" and ?a = "pr_arbiter s"
  have c: "clocked default_latency K s" using assms(1) by (simp add: announced_def)
  then obtain U where U: "pair_within default_latency K U s" and K: "K < 2 ^ 64 - 1" by (auto simp: clocked_def)
  note lanes = answered_lanes [OF assms(2), of p c rsp b s]
  have b: "progress_up_to b = progress_up_to ?a"
    using execute_frame(3) [of ?a "pb_op p" tie] unfolding assms(4) by simp
  have "progress_up_to b j = tick_max \<or> progress_up_to b j \<le> sc_local_time (snd (pair_lane j ?t))"
    if j: "j < 2" "fst (pair_lane j ?t) = None" and f: "fault_free b" for j
  proof (cases "j = i")
    case True
    have acc: "accepted ?a (pb_op p)" "fault_free ?a" using f fault_free_execute [of ?a "pb_op p" tie] by (simp_all add: assms(4))
    have g: "lane_good i (Some p, c)" using clocked_stamps [OF c assms(2)] assms(3) by simp
    have in_time: "now c \<le> U" "U + max_latency default_latency < 2 ^ 64" "unat (bus_free_time ?a) \<le> U"
        "arb_latency ?a = default_latency" "progress_up_to ?a i = tick_max \<or> unat (progress_up_to ?a i) \<le> now c + 1"
      using U K assms(2,3) by (auto simp: pair_within_def lane_owed_def less_2_cases_iff)
    have req: "unat (req_time (pb_op p)) = now c" using g by (simp add: lane_good_def stamped_def now_def)
    have "unat (rsp_stall rsp) \<noteq> 0" "now c + unat (rsp_stall rsp) \<le> U + max_latency default_latency"
      using stall_moves [OF acc(1) in_time(4,3) _ in_time(2), of tie]
        commit_reach [OF in_time(3), of "pb_op p" tie] in_time req by (simp_all add: assms(4))
    moreover from this(2) have "now (snd (pair_lane i ?t)) = now c + unat (rsp_stall rsp)"
      using in_time(2) by (simp add: lanes apply_response_time now_def unat_word_ariths)
    ultimately show ?thesis using in_time(5) by (auto simp: True b now_def word_le_nat_alt)
  next
    case False
    then have o: "j = 1 - i" using j(1) assms(2) by (auto simp: less_2_cases_iff)
    have "fault_free ?a" using f fault_free_execute [of ?a "pb_op p" tie] by (simp add: assms(4))
    then show ?thesis using assms(1) j unfolding o b lanes(2) by (simp add: announced_def)
  qed
  then show ?thesis using clocked_committed [OF c assms(2-4)] by (simp add: announced_def lanes(3))
qed

interpretation pair_announced: pair_invariant "announced K" for K
proof unfold_locales
  show "announced K s \<Longrightarrow> i < 2 \<Longrightarrow> lane_good i (pair_lane i s)" for s i
    using clocked_stamps [of default_latency K s i] by (simp add: announced_def)
  show "announced K (s\<lparr>pr_arbiter := (pr_arbiter s)\<lparr>producer_enqueued_seen := e, producer_last_enqueued_req_time := t\<rparr>\<rparr>)"
    if "announced K s" for s e t
    using that by (simp add: announced_def clocked_def pair_within_enqueue fault_free_def)
qed (simp_all add: announced_filled announced_committed)

text \<open>CPU \<open>i\<close> has ended its script, no later than the request the other has pending, and announced nothing later.\<close>

definition blocked :: "nat \<Rightarrow> pair_state \<Rightarrow> bool" where
  "blocked i s \<longleftrightarrow> fst (pair_lane i s) = None \<and> sc_done (snd (pair_lane i s)) \<and>
     (\<exists>p. fst (pair_lane (1 - i) s) = Some p \<and> sc_local_time (snd (pair_lane i s)) \<le> req_time (pb_op p)) \<and>
     (progress_up_to (pr_arbiter s) i = tick_max \<or> progress_up_to (pr_arbiter s) i \<le> sc_local_time (snd (pair_lane i s)))"

lemma filled_fixed: "fst v \<noteq> None \<or> sc_done (snd v) \<Longrightarrow> filled v = v"
  by (cases v) (auto simp: filled_def refill_def)

lemma blocked_iteration:
  assumes "blocked i s" "i < 2"
  shows "\<not> fst (pair_iteration s) \<and> blocked i (snd (pair_iteration s))"
proof -
  let ?s = "prepared s" and ?c = "snd (pair_lane i s)"
  let ?P = "pending_list (pr_p0 ?s) (pr_p1 ?s)" and ?a = "pr_arbiter ?s"
  obtain p where p: "fst (pair_lane (1 - i) s) = Some p" "sc_local_time ?c \<le> req_time (pb_op p)"
    using assms(1) by (auto simp: blocked_def)
  have idle: "fst (pair_lane i s) = None" "sc_done ?c" using assms(1) by (simp_all add: blocked_def)
  have same: "pair_lane j ?s = pair_lane j s" if "j < 2" for j
  proof -
    have "j = i \<or> j = 1 - i" using assms(2) that by (auto simp: less_2_cases_iff)
    then show ?thesis using prepared_lane [OF that] idle p(1) by (auto simp: filled_fixed)
  qed
  have pr: "progress_up_to ?a i = tick_max \<or> progress_up_to ?a i \<le> sc_local_time ?c"
    using assms idle same [of i]
    by (auto simp: blocked_def prepared_def Let_def prepared_progress watermark_def filled_fixed pair_lane_def less_2_cases_iff)
  have pending: "map (\<lambda>x. pb_op (snd x)) ?P = [pb_op p]"
    using idle(1) p(1) same [of 0] same [of 1] assms(2) by (auto simp: pending_list_def pair_lane_def less_2_cases_iff)
  have "\<not> ready ?a (pb_op p)"
  proof
    assume "ready ?a (pb_op p)"
    moreover have "progress_tracking_enabled ?a" by (simp add: prepared_def Let_def update_progress_0)
    ultimately have "progress_up_to ?a i \<noteq> tick_max" "req_time (pb_op p) < progress_up_to ?a i"
      using assms(2) by (auto simp: ready_def has_safe_horizon_def commit_horizon_def less_2_cases_iff)
    then show False using pr p(2) by auto
  qed
  then have none: "fst (commit_batch default_priority_of ?a [pb_op p]) = []" by (intro commit_batch_none_ready) simp
  have "\<not> (pr_p0 ?s = None \<and> pr_p1 ?s = None)" "?P \<noteq> []"
    using pending p(1) same [of "1 - i"] assms(2) by (auto simp: pair_lane_def less_2_cases_iff)
  then have "pair_iteration s = (False, ?s\<lparr>pr_arbiter := snd (commit_batch default_priority_of ?a [pb_op p])\<rparr>)"
    using none unfolding iteration_prepared pending Let_def by (auto simp: split_def)
  then show ?thesis
    using pr p idle same assms(2) by (simp add: blocked_def commit_batch_progress)
qed

lemma blocked_forever: "blocked i s \<Longrightarrow> i < 2 \<Longrightarrow> run_scripted_pair fuel s = None"
proof (induction fuel arbitrary: s)
  case (Suc fuel)
  then show ?case using blocked_iteration [OF Suc.prems] by (simp add: split_def Let_def)
qed simp

text \<open>Once the loop has broken off both lanes stay idle, so a state that is blocked was reached without a break.\<close>

definition ended :: "pair_state \<Rightarrow> bool" where
  "ended s \<longleftrightarrow> (\<forall>i < 2. fst (pair_lane i s) = None \<and> sc_done (snd (pair_lane i s)))"

lemma break_ended: "fst (pair_iteration s) \<longleftrightarrow> ended (prepared s)"
  by (auto simp: ended_def pair_lane_def iteration_prepared Let_def split_def less_2_cases_iff)

lemma ended_iteration: "ended (prepared s) \<Longrightarrow> snd (pair_iteration s) = prepared s \<and> ended (snd (pair_iteration s))"
  by (auto simp: ended_def pair_lane_def iteration_prepared Let_def split_def less_2_cases_iff)

lemma ended_prepared: "ended s \<Longrightarrow> ended (prepared s)"
  by (simp add: ended_def prepared_lane filled_fixed)

lemma ended_stays: "ended s \<Longrightarrow> ended (((\<lambda>s. snd (pair_iteration s)) ^^ n) s)"
  by (induction n) (simp_all add: ended_prepared ended_iteration)

lemma blocked_later:
  assumes "blocked i (((\<lambda>s. snd (pair_iteration s)) ^^ n) s)" "i < 2"
  shows "run_scripted_pair fuel s = None"
  using assms(1)
proof (induction n arbitrary: s fuel)
  case 0
  then show ?case using blocked_forever assms(2) by simp
next
  case (Suc n)
  let ?t = "snd (pair_iteration s)"
  have b: "blocked i (((\<lambda>s. snd (pair_iteration s)) ^^ n) ?t)" using Suc.prems by (simp only: funpow_Suc_right comp_apply)
  have "\<not> fst (pair_iteration s)"
  proof
    assume "fst (pair_iteration s)"
    then have "ended (((\<lambda>s. snd (pair_iteration s)) ^^ n) ?t)" using break_ended ended_iteration ended_stays by blast
    moreover have "1 - i < 2" by simp
    ultimately show False using b unfolding ended_def blocked_def by (metis option.distinct(1))
  qed
  then show ?case using Suc.IH [OF b] by (cases fuel) (simp_all add: split_def Let_def)
qed

section \<open>Properties\<close>

text \<open>
  (C21) A finished CPU can block the other for ever. Take the loop on any two scripts (whose work fits the clock) and any
  number of its iterations that logged no fault. If now either CPU has ended its script and stands at a tick no
  later than the request the other one has pending, the run does not end: no number of iterations breaks the loop.
  The watermark of the finished CPU stays where its clock stands, below the request.
\<close>

theorem finished_cpu_blocks_the_other:
  assumes "script_work (max_latency default_latency) script0 + script_work (max_latency default_latency) script1 < 2 ^ 64 - 1"
    and "k < 256" and "start = scripted_start script0 script1 k m (new_bus_arbiter mem dev new_trace default_latency)"
    and "s = ((\<lambda>s. snd (pair_iteration s)) ^^ n) start" and "fault_free (pr_arbiter s)"
    and "i < 2" and "fst (pair_lane i s) = None" and "sc_done (snd (pair_lane i s))"
    and "fst (pair_lane (1 - i) s) = Some p" and "sc_local_time (snd (pair_lane i s)) \<le> req_time (pb_op p)"
  shows "run_scripted_pair fuel start = None"
proof -
  let ?K = "script_work (max_latency default_latency) script0 + script_work (max_latency default_latency) script1"
  have "announced ?K start"
    using start_clocked [OF assms(1,2)] unfolding assms(3)
    by (simp add: announced_def) (simp add: scripted_start_def new_bus_arbiter_def)
  then have "announced ?K s" unfolding assms(4) by (rule pair_announced.iterations_keep)
  then have "blocked i s" using assms(5-10) by (simp add: announced_def blocked_def)
  then show ?thesis using blocked_later assms(4,6) by blast
qed

lemma finished_cpu_blocks_the_other_witness:
  "run_scripted_pair 1000 (scripted_start [write_op 0x10 1] [compute_op 10, write_op 0x20 2] 16 4
     (new_bus_arbiter (new_memory 64) new_device_hub new_trace default_latency)) = None"
proof -
  let ?start = "scripted_start [write_op 0x10 1] [compute_op 10, write_op 0x20 2] 16 4
     (new_bus_arbiter (new_memory 64) new_device_hub new_trace default_latency)"
  let ?s = "((\<lambda>s. snd (pair_iteration s)) ^^ 1) ?start"
  have work: "script_work (max_latency default_latency) [write_op 0x10 1] +
      script_work (max_latency default_latency) [compute_op 10, write_op 0x20 2] < 2 ^ 64 - 1" "(16 :: nat) < 256"
    by (simp_all add: script_work_def max_latency_def default_latency_def)
  have "let s = ?s in fault_free (pr_arbiter s) \<and> fst (pair_lane 0 s) = None \<and> sc_done (snd (pair_lane 0 s)) \<and>
      (case fst (pair_lane 1 s) of None \<Rightarrow> False | Some p \<Rightarrow> sc_local_time (snd (pair_lane 0 s)) \<le> req_time (pb_op p))"
    by code_simp
  then obtain p where "fault_free (pr_arbiter ?s)" "fst (pair_lane 0 ?s) = None" "sc_done (snd (pair_lane 0 ?s))"
      "fst (pair_lane (1 - 0) ?s) = Some p" "sc_local_time (snd (pair_lane 0 ?s)) \<le> req_time (pb_op p)"
    by (auto simp: Let_def split: option.splits)
  from finished_cpu_blocks_the_other [OF work refl refl this(1) _ this(2-5)] show ?thesis by simp
qed

end
