(* ===== verification/PairMemory.thy ===== *)
theory PairMemory
  imports PairRun
begin

text \<open>
  What two scripts compute together. When they touch no common cache line, the pair of CPUs, each with its store buffer and
  its cache that nothing keeps coherent, leaves in memory what the two scripts leave on a flat memory one after the
  other, and each reads what its script reads there.
\<close>

section \<open>The cells an access covers\<close>

definition accesses :: "script_op \<Rightarrow> bool" where
  "accesses ins \<longleftrightarrow> so_kind ins = ScRead \<or> so_kind ins = ScWrite"

text \<open>No line of \<open>l\<close> bytes is accessed by both scripts.\<close>

definition separate :: "nat \<Rightarrow> script_op list \<Rightarrow> script_op list \<Rightarrow> bool" where
  "separate l xs ys \<longleftrightarrow> (\<forall>x \<in> set xs. \<forall>y \<in> set ys. accesses x \<longrightarrow> accesses y \<longrightarrow>
     unat (to_phys (so_vaddr x)) div l \<noteq> unat (to_phys (so_vaddr y)) div l)"

lemma separate_sym: "separate l xs ys \<longleftrightarrow> separate l ys xs"
  unfolding separate_def by metis

lemma separate_take: "separate l xs ys \<Longrightarrow> separate l (take i xs) (take j ys)"
  unfolding separate_def by (meson in_set_takeD)

definition cells :: "script_op \<Rightarrow> nat set" where
  "cells ins = {unat (to_phys (so_vaddr ins)) ..< unat (to_phys (so_vaddr ins)) + unat (so_size ins)}"

text \<open>Accesses inside memory and inside their line.\<close>

definition lined :: "nat \<Rightarrow> nat \<Rightarrow> script_op list \<Rightarrow> bool" where
  "lined l msize xs \<longleftrightarrow> (\<forall>ins \<in> set xs. accesses ins \<longrightarrow>
     access_in_range msize (to_phys (so_vaddr ins)) (unat (so_size ins)) \<and>
     unat (to_phys (so_vaddr ins)) mod l + unat (so_size ins) \<le> l)"

lemma cached_lined: "cached_script l msize xs \<Longrightarrow> lined l msize xs"
  by (simp add: cached_script_def lined_def accesses_def)

lemma lined_take: "lined l msize xs \<Longrightarrow> lined l msize (take i xs)"
  unfolding lined_def by (meson in_set_takeD)

lemma cell_line:
  assumes "lined l msize xs" "x \<in> set xs" "accesses x" "c \<in> cells x"
  shows "c div l = unat (to_phys (so_vaddr x)) div l"
proof -
  let ?p = "unat (to_phys (so_vaddr x))"
  obtain d where d: "c = ?p + d" "d < unat (so_size x)"
    using assms(4) by (auto simp: cells_def dest!: le_Suc_ex)
  then have m: "?p mod l + d < l" using assms(1-3) by (fastforce simp: lined_def)
  have "(?p + d) div l = ((?p mod l + d) + ?p div l * l) div l" 
    by (metis add.assoc add.commute mod_div_mult_eq)
  also have "\<dots> = ?p div l"
  proof -
    have "(r + q * l) div l = q" if "r < l" for r q :: nat using that by simp
    then show ?thesis using m by blast
  qed
  finally show ?thesis by (simp add: d(1))
qed

lemma separate_cells:
  assumes "separate l xs ys" "lined l msize xs" "lined l msize ys"
    and "x \<in> set xs" "accesses x" "y \<in> set ys" "accesses y" "c \<in> cells x"
  shows "c \<notin> cells y"
  using assms cell_line by (metis separate_def)

section \<open>Flat memory, script by script\<close>

definition ref_mem_step :: "script_op \<Rightarrow> committed_memory \<Rightarrow> committed_memory" where
  "ref_mem_step ins m = fst (ref_step ins (m, None))"

definition ref_mem :: "script_op list \<Rightarrow> committed_memory \<Rightarrow> committed_memory" where
  "ref_mem script m = fst (ref_run script m)"

lemma ref_step_mem: "fst (ref_step ins s) = ref_mem_step ins (fst s)"
  by (simp add: ref_mem_step_def ref_step_def split: script_op_kind.splits)

lemma ref_mem_fold: "ref_mem script m = fold ref_mem_step script m"
proof -
  have "fst (fold ref_step script s) = fold ref_mem_step script (fst s)" for s
    by (induction script arbitrary: s) (simp_all add: ref_step_mem)
  then show ?thesis by (simp add: ref_mem_def ref_run_def)
qed

lemma ref_mem_step_size [simp]: "mem_size (ref_mem_step ins m) = mem_size m"
  by (simp add: ref_mem_step_def ref_step_def split: script_op_kind.splits)

lemma ref_mem_size [simp]: "mem_size (ref_mem script m) = mem_size m"
  by (induction script arbitrary: m) (simp_all add: ref_mem_fold)

lemma mem_wf_size: "mem_size m = mem_size m' \<Longrightarrow> mem_wf m = mem_wf m'"
  by (simp add: mem_wf_def)

lemma mem_bytes_write:
  assumes "mem_wf m" "access_in_range (mem_size m) p (unat n)"
  shows "mem_bytes (mem_write m p n v) a =
    (if unat p \<le> a \<and> a < unat p + unat n then be_byte (unat n) v (a - unat p) else mem_bytes m a)"
proof -
  have "unat (p + of_nat i) = unat p + i" if "i < unat n" for i
    using that assms by (intro unat_add_of_nat) (simp add: access_in_range_def mem_wf_def)
  then have step: "i < unat n \<Longrightarrow> bs(unat (p + of_nat i) := w) = bs(unat p + i := w)" for i and bs :: "nat \<Rightarrow> u8" and w
    by simp
  have "k \<le> unat n \<Longrightarrow> fold (\<lambda>i bs. bs(unat (p + of_nat i) := be_byte (unat n) v i)) [0..<k] (mem_bytes m) a =
      (if unat p \<le> a \<and> a < unat p + k then be_byte (unat n) v (a - unat p) else mem_bytes m a)" for k
    by (induction k) (auto simp: step)
  from this [of "unat n"] show ?thesis using assms(2) by (simp add: mem_write_def)
qed

text \<open>What a step writes does not depend on the memory, and it writes only its own cells.\<close>

lemma ref_mem_step_bytes:
  assumes "mem_wf m" "accesses ins \<Longrightarrow> access_in_range (mem_size m) (to_phys (so_vaddr ins)) (unat (so_size ins))"
  shows "mem_bytes (ref_mem_step ins m) a = (if so_kind ins = ScWrite \<and> a \<in> cells ins
    then be_byte (unat (so_size ins)) (so_value ins) (a - unat (to_phys (so_vaddr ins))) else mem_bytes m a)"
  using assms
  by (cases "so_kind ins") (simp_all add: ref_mem_step_def ref_step_def mem_bytes_write accesses_def cells_def)

lemma ref_mem_frame:
  assumes "mem_wf m" "lined l (mem_size m) xs" "\<forall>x \<in> set xs. accesses x \<longrightarrow> a \<notin> cells x"
  shows "mem_bytes (ref_mem xs m) a = mem_bytes m a"
  using assms
proof (induction xs arbitrary: m)
  case (Cons x xs)
  have "mem_bytes (ref_mem_step x m) a = mem_bytes m a"
    using Cons.prems by (subst ref_mem_step_bytes) (auto simp: lined_def accesses_def)
  moreover have "mem_bytes (ref_mem xs (ref_mem_step x m)) a = mem_bytes (ref_mem_step x m) a"
    using Cons.prems by (intro Cons.IH) (auto simp: lined_def mem_wf_def)
  ultimately show ?case by (simp add: ref_mem_fold)
qed (simp add: ref_mem_fold)

lemma committed_memory_eqI:
  "mem_size m = mem_size m' \<Longrightarrow> (\<And>a. mem_bytes m a = mem_bytes m' a) \<Longrightarrow> m = (m' :: committed_memory)"
  by (cases m; cases m') auto

lemma ref_mem_step_commute:
  assumes "mem_wf m" "lined l (mem_size m) [x]" "lined l (mem_size m) ys" "separate l [x] ys"
  shows "ref_mem ys (ref_mem_step x m) = ref_mem_step x (ref_mem ys m)"
  using assms
proof (induction ys arbitrary: m)
  case (Cons y ys)
  have step: "mem_bytes (ref_mem_step z m') a = (if so_kind z = ScWrite \<and> a \<in> cells z
      then be_byte (unat (so_size z)) (so_value z) (a - unat (to_phys (so_vaddr z))) else mem_bytes m' a)"
    if "z = x \<or> z = y" "mem_size m' = mem_size m" for z m' a
    using Cons.prems(1-3) that by (intro ref_mem_step_bytes) (auto simp: lined_def mem_wf_def)
  have "\<not> (so_kind x = ScWrite \<and> c \<in> cells x \<and> so_kind y = ScWrite \<and> c \<in> cells y)" for c
    using separate_cells [OF Cons.prems(4,2,3), of x y c] by (auto simp: accesses_def)
  then have "ref_mem_step y (ref_mem_step x m) = ref_mem_step x (ref_mem_step y m)"
    by (intro committed_memory_eqI) (simp, simp add: step, blast)
  moreover have "ref_mem ys (ref_mem_step x (ref_mem_step y m)) = ref_mem_step x (ref_mem ys (ref_mem_step y m))"
    using Cons.prems by (intro Cons.IH) (auto simp: lined_def separate_def mem_wf_def)
  ultimately show ?case by (simp add: ref_mem_fold)
qed (simp add: ref_mem_fold)

lemma ref_mem_commute:
  assumes "mem_wf m" "lined l (mem_size m) xs" "lined l (mem_size m) ys" "separate l xs ys"
  shows "ref_mem ys (ref_mem xs m) = ref_mem xs (ref_mem ys m)"
  using assms
proof (induction xs arbitrary: m)
  case (Cons x xs)
  have "ref_mem ys (ref_mem xs (ref_mem_step x m)) = ref_mem xs (ref_mem ys (ref_mem_step x m))"
    using Cons.prems by (intro Cons.IH) (auto simp: lined_def separate_def mem_wf_def)
  also have "ref_mem ys (ref_mem_step x m) = ref_mem_step x (ref_mem ys m)"
    using Cons.prems by (intro ref_mem_step_commute) (auto simp: lined_def separate_def)
  finally show ?case by (simp add: ref_mem_fold)
qed (simp add: ref_mem_fold)

text \<open>The other script changes nothing a script reads.\<close>

lemma mem_read_cong:
  assumes "mem_size m' = mem_size m" "\<And>a. unat p \<le> a \<Longrightarrow> a < unat p + unat n \<Longrightarrow> mem_bytes m' a = mem_bytes m a" "mem_wf m"
  shows "mem_read m' p n = mem_read m p n"
proof (cases "access_in_range (mem_size m) p (unat n)")
  case True
  have "unat (p + of_nat i) = unat p + i" if "i < unat n" for i
    using that True assms(3) by (intro unat_add_of_nat) (simp add: access_in_range_def mem_wf_def)
  then have "be_assemble (\<lambda>i. mem_bytes m' (unat (p + of_nat i))) (unat n) =
      be_assemble (\<lambda>i. mem_bytes m (unat (p + of_nat i))) (unat n)"
    using assms(2) by (intro be_assemble_cong) simp_all
  then show ?thesis using assms(1) by (simp add: mem_read_def)
qed (use assms(1) in \<open>simp add: mem_read_def\<close>)

lemma ref_run_snoc: "ref_run (xs @ [x]) m = ref_step x (ref_run xs m)"
  by (simp add: ref_run_def)

lemma ref_run_reads:
  assumes "mem_wf m" "lined l (mem_size m) xs" "lined l (mem_size m) ys" "separate l xs ys"
  shows "snd (ref_run ys (ref_mem xs m)) = snd (ref_run ys m)"
  using assms
proof (induction ys rule: rev_induct)
  case (snoc y ys)
  have rest: "lined l (mem_size m) ys" "separate l xs ys" "separate l xs [y]" "lined l (mem_size m) [y]"
    using snoc.prems by (auto simp: lined_def separate_def)
  note IH = snoc.IH [OF snoc.prems(1,2) rest(1,2)]
  show ?case
  proof (cases "so_kind y = ScRead")
    case True
    have "mem_bytes (ref_mem xs (ref_mem ys m)) a = mem_bytes (ref_mem ys m) a" if "a \<in> cells y" for a
      using separate_cells [OF rest(3) snoc.prems(2) rest(4)] that True snoc.prems(1,2)
      by (intro ref_mem_frame [of _ l]) (auto simp: mem_wf_def accesses_def)
    then have "mem_read (ref_mem xs (ref_mem ys m)) (to_phys (so_vaddr y)) (so_size y) =
        mem_read (ref_mem ys m) (to_phys (so_vaddr y)) (so_size y)"
      using snoc.prems(1) by (intro mem_read_cong) (auto simp: cells_def mem_wf_def)
    then show ?thesis
      using True ref_mem_commute [OF snoc.prems(1,2) rest(1,2)]
      by (simp add: ref_run_snoc ref_step_def ref_mem_def)
  next
    case False
    then show ?thesis using IH by (cases "so_kind y") (simp_all add: ref_run_snoc ref_step_def)
  qed
qed (simp add: ref_run_def)

section \<open>The lines a CPU holds\<close>

text \<open>A cache holds only lines its own script accesses.\<close>

definition own_lines :: "tiny_cache \<Rightarrow> script_op list \<Rightarrow> bool" where
  "own_lines c script \<longleftrightarrow> (\<forall>q. cache_hit c q 1 \<longrightarrow> (\<exists>y \<in> set script. accesses y \<and>
     unat q div line_size c = unat (to_phys (so_vaddr y)) div line_size c))"

lemma own_lines_write: "cache_wf c \<Longrightarrow> own_lines c script \<Longrightarrow> own_lines (cache_write c p n v) script"
  by (simp add: own_lines_def cache_hit_write)

lemma own_lines_fill:
  assumes "cache_wf c" "own_lines c script" "y \<in> set script" "accesses y" "b = cache_line_base c (to_phys (so_vaddr y))"
  shows "own_lines (fill_line c b d) script"
  unfolding own_lines_def
proof (intro allI impI)
  fix q assume h: "cache_hit (fill_line c b d) q 1"
  show "\<exists>y \<in> set script. accesses y \<and> unat q div line_size (fill_line c b d) =
      unat (to_phys (so_vaddr y)) div line_size (fill_line c b d)"
  proof (cases "length d = line_size c \<and> cache_line_base c q = b")
    case True
    then have "unat (cache_line_base c q) = unat b" by simp
    then show ?thesis using assms(3,4) by (auto simp: assms(5) cache_geometry(1) [OF assms(1)])
  next
    case False
    have "cache_hit c q 1"
    proof (cases "length d = line_size c")
      case True
      then have ne: "cache_line_base c q \<noteq> b" using False by simp
      then have "cache_index c (cache_line_base c q) \<noteq> cache_index c b"
        using h fill_line_nth [OF assms(1) True, of b] by (auto simp: cache_hit_conv)
      then have "cache_lines (fill_line c b d) ! cache_index c (cache_line_base c q) =
          cache_lines c ! cache_index c (cache_line_base c q)" by (simp add: fill_line_def)
      then show ?thesis using h by (simp add: cache_hit_conv)
    qed (use h in \<open>simp add: fill_line_def\<close>)
    then show ?thesis using assms(2) by (simp add: own_lines_def)
  qed
qed

lemma produce_own:
  assumes "produce c = (r, d)" "cache_wf (sc_cache c)" "own_lines (sc_cache c) (sc_script c)"
  shows "cache_wf (sc_cache d) \<and> own_lines (sc_cache d) (sc_script c)"
  using assms
proof (induction c arbitrary: r d rule: produce.induct)
  case (1 c)
  let ?ins = "sc_script c ! sc_pc c"
  consider (ended) "sc_done c" | (compute) "\<not> sc_done c" "so_kind ?ins = ScCompute"
    | (answered) v where "\<not> sc_done c" "so_kind ?ins = ScRead" "local_read c ?ins = Some v"
    | (asks) "\<not> sc_done c" "so_kind ?ins \<noteq> ScCompute" "so_kind ?ins = ScRead \<Longrightarrow> local_read c ?ins = None"
    by (cases "local_read c ?ins") auto
  then show ?case
  proof cases
    case ended
    then show ?thesis using "1.prems" by (simp add: produce.simps [of c])
  next
    case compute
    then show ?thesis using "1.IH"(2) [OF compute(1) refl compute(2)] "1.prems" by (simp add: produce.simps [of c] Let_def)
  next
    case answered
    then show ?thesis using "1.IH"(1) [OF answered(1) refl answered(2,3)] "1.prems" by (simp add: produce.simps [of c] Let_def)
  next
    case asks
    then show ?thesis
      using "1.prems"
      by (cases "so_kind ?ins")
        (auto simp: produce.simps [of c] Let_def issue_def issue_write_def issue_read_def cache_wf_write own_lines_write)
  qed
qed

lemma apply_own:
  assumes "cache_wf (sc_cache c)" "own_lines (sc_cache c) (sc_script c)" "i < length (sc_script c)"
  shows "own_lines (sc_cache (fst (sc_apply_response c i rsp tok tr))) (sc_script c)"
proof -
  let ?ins = "sc_script c ! i"
  have y: "?ins \<in> set (sc_script c)" using assms(3) by simp
  have fill: "own_lines (fill_line (sc_cache c) (to_phys (so_vaddr ?ins) div of_nat (line_size (sc_cache c))) d) (sc_script c)"
    if "so_kind ?ins = ScRead" for d
    using own_lines_fill [OF assms(1,2) y] that by (simp add: accesses_def cache_line_base_def)
  then show ?thesis
    using assms(1,2)
    by (auto simp: sc_apply_response_def Let_def intro!: own_lines_write cache_wf_fill)
qed

section \<open>Two CPUs on one memory\<close>

text \<open>
  The state a lane stands for: its CPU, or the CPU as it was before it issued the pending operation. On the memory the other
  script has left so far, that CPU agrees with its script run so far.
\<close>

definition based :: "lane_view \<Rightarrow> scripted_cpu \<Rightarrow> bool" where
  "based v b \<longleftrightarrow> (case fst v of None \<Rightarrow> b = snd v | Some p \<Rightarrow> produce b = (Some p, snd v))"

definition flat_lane :: "nat \<Rightarrow> script_op list \<Rightarrow> script_op list \<Rightarrow> committed_memory \<Rightarrow> bus_arbiter \<Rightarrow>
    lane_view \<Rightarrow> scripted_cpu \<Rightarrow> nat \<Rightarrow> bool" where
  "flat_lane l own other m a v b pc \<longleftrightarrow> based v b \<and> sc_script b = own \<and> line_size (sc_cache b) = l \<and>
     own_lines (sc_cache b) own \<and> cached_inv (ref_mem (take pc other) m) a b"

lemma cached_inv_cong: "arb_memory a' = arb_memory a \<Longrightarrow> cached_inv m a' c = cached_inv m a c"
  by (simp add: cached_inv_def)

lemma cached_inv_wf: "cached_inv m a c \<Longrightarrow> cache_wf (sc_cache c)"
  by (simp add: cached_inv_def coherent_def)

lemma cached_inv_mem: "cached_inv m a c \<Longrightarrow> arb_memory a = ref_mem (take (sc_pc c) (sc_script c)) m"
  by (metis cached_inv_def fst_conv ref_mem_def)

text \<open>A step of one lane moves the memory under the other; the other still agrees with its own script.\<close>

lemma other_lane:
  assumes "flat_lane l own other m a v b pc" "flat_lane l other own m a' w d (sc_pc b)"
    and "separate l own other" "mem_wf m"
  shows "flat_lane l own other m a' v b (sc_pc d)"
proof -
  let ?X = "take (sc_pc b) own" and ?Z = "take pc other" and ?Y = "take (sc_pc d) other"
  have ci: "cached_inv (ref_mem ?Z m) a b" "cached_inv (ref_mem ?X m) a' d"
    and b: "sc_script b = own" "line_size (sc_cache b) = l" "own_lines (sc_cache b) own"
    and d: "sc_script d = other" "line_size (sc_cache d) = l"
    using assms(1,2) by (simp_all add: flat_lane_def)
  have mem: "arb_memory a = ref_mem ?X (ref_mem ?Z m)" "arb_memory a' = ref_mem ?Y (ref_mem ?X m)"
    using cached_inv_mem [OF ci(1)] cached_inv_mem [OF ci(2)] b(1) d(1) by simp_all
  have sizes: "mem_size (arb_memory a) = mem_size m" "mem_size (arb_memory a') = mem_size m" by (simp_all add: mem)
  have lined: "lined l (mem_size m) own" "lined l (mem_size m) other"
    using ci b d cached_lined sizes by (auto simp: cached_inv_def)
  note x = lined_take [OF lined(1), of "sc_pc b"]
  have commute: "ref_mem ?X (ref_mem (take k other) m) = ref_mem (take k other) (ref_mem ?X m)"
    and reads: "snd (ref_run ?X (ref_mem (take k other) m)) = snd (ref_run ?X m)" for k
    using ref_mem_commute [OF assms(4) lined_take [OF lined(2)] x] ref_run_reads [OF assms(4) lined_take [OF lined(2)] x]
      separate_take assms(3) separate_sym by blast+
  have last: "sc_last_read b = snd (ref_run ?X (ref_mem ?Y m))"
    using ci(1) b(1) reads by (metis cached_inv_def snd_conv)
  have "mem_byte (arb_memory a') q = mem_byte (arb_memory a) q" if q: "cache_hit (sc_cache b) q 1" for q
  proof -
    have "unat q \<notin> cells z" if "z \<in> set (take k other)" "accesses z" for z k
    proof
      assume "unat q \<in> cells z"
      then have "unat q div l = unat (to_phys (so_vaddr z)) div l"
        using cell_line [OF lined(2)] that in_set_takeD by fast
      then show False
        using q b(2,3) assms(3) that in_set_takeD unfolding own_lines_def separate_def by metis
    qed
    then have "mem_bytes (ref_mem (take k other) (ref_mem ?X m)) (unat q) = mem_bytes (ref_mem ?X m) (unat q)" for k
      using assms(4) lined_take [OF lined(2)] by (intro ref_mem_frame [of _ l]) (auto simp: mem_wf_def)
    then show ?thesis by (simp add: mem_byte_def mem commute)
  qed
  moreover have "mem_hit (arb_memory a') q 1 = mem_hit (arb_memory a) q 1" for q by (simp add: mem_hit_def sizes)
  ultimately have "coherent (sc_cache b) (arb_memory a')"
    using ci(1) assms(4) by (simp add: cached_inv_def coherent_def sizes mem_wf_def)
  moreover have "(arb_memory a', sc_last_read b) = ref_run ?X (ref_mem ?Y m)"
    using last commute mem(2) by (metis prod.collapse ref_mem_def)
  ultimately show ?thesis
    using assms(1) b(1,2) by (simp add: flat_lane_def cached_inv_def sizes)
qed

text \<open>Filling a lane, and answering its operation.\<close>

lemma flat_lane_filled:
  assumes "flat_lane l own other m a v b pc"
  shows "\<exists>d. flat_lane l own other m a (filled v) d pc"
proof (cases "fst v = None \<and> \<not> sc_done (snd v)")
  case True
  have b: "b = snd v" using assms True by (simp add: flat_lane_def based_def)
  obtain r e where p: "produce b = (r, e)" by fastforce
  have f: "filled v = (r, e)" using True p by (simp add: filled_def refill_def b)
  show ?thesis
  proof (cases r)
    case None
    have ci: "cached_inv (ref_mem (take pc other) m) a b" using assms by (simp add: flat_lane_def)
    have "cached_inv (ref_mem (take pc other) m) a e" using produce_ends [OF ci p [unfolded None]] by simp
    then show ?thesis
      using assms produce_own [OF p cached_inv_wf [OF ci]] produce_asks [OF p]
      by (auto simp: f None flat_lane_def based_def)
  next
    case (Some q)
    then show ?thesis using assms p by (auto simp: f flat_lane_def based_def intro!: exI [of _ b])
  qed
next
  case False
  then show ?thesis using assms by (auto simp: filled_fixed)
qed

lemma flat_lane_answered:
  assumes "flat_lane l own other m a (Some p, c) b pc" "accepted a (pb_op p)" "execute_commit a (pb_op p) tie = (rsp, a1)"
  defines "d \<equiv> fst (sc_apply_response c (pb_script_index p) rsp (producer_token (pb_op p)) None)"
  shows "flat_lane l own other m a1 (None, d) d pc"
proof -
  have p: "produce b = (Some p, c)" and ci: "cached_inv (ref_mem (take pc other) m) a b"
    and b: "sc_script b = own" "line_size (sc_cache b) = l" "own_lines (sc_cache b) own"
    using assms(1) by (simp_all add: flat_lane_def based_def)
  have ap: "sc_apply_response c (pb_script_index p) rsp (producer_token (pb_op p)) None =
      (d, snd (sc_apply_response c (pb_script_index p) rsp (producer_token (pb_op p)) None))" by (simp add: d_def)
  have round: "cached_inv (ref_mem (take pc other) m) a1 d" using cached_round [OF ci p assms(2,3) ap] by simp
  have c: "sc_script c = own" "line_size (sc_cache c) = l" using produce_asks [OF p] b by simp_all
  have "buffer_matches (Some p) c" using produce_buffer [of b] ci p by (simp add: cached_inv_def)
  then have i: "pb_script_index p < length (sc_script c)" by (simp add: buffer_matches_def)
  have own: "cache_wf (sc_cache c)" "own_lines (sc_cache c) (sc_script c)"
    using produce_own [OF p cached_inv_wf [OF ci]] b c by simp_all
  have "own_lines (sc_cache d) own" using apply_own [OF own i] c(1) by (simp add: d_def)
  moreover have "sc_script d = own" "line_size (sc_cache d) = l" using c by (simp_all add: d_def sc_apply_response_def Let_def)
  ultimately show ?thesis using round by (simp add: flat_lane_def based_def)
qed

text \<open>Both lanes, each against the memory the other one's script has left so far.\<close>

definition flat_lanes :: "nat \<Rightarrow> (nat \<Rightarrow> script_op list) \<Rightarrow> committed_memory \<Rightarrow> bus_arbiter \<Rightarrow> (nat \<Rightarrow> lane_view) \<Rightarrow> bool" where
  "flat_lanes l scripts m a v \<longleftrightarrow>
     (\<exists>b. \<forall>i < 2. flat_lane l (scripts i) (scripts (1 - i)) m a (v i) (b i) (sc_pc (b (1 - i))))"

lemma flat_lanes_step:
  assumes "flat_lanes l scripts m a v" "i < 2" "separate l (scripts 0) (scripts 1)" "mem_wf m"
    and step: "\<And>b pc. flat_lane l (scripts i) (scripts (1 - i)) m a (v i) b pc \<Longrightarrow>
      \<exists>d. flat_lane l (scripts i) (scripts (1 - i)) m a' w d pc"
  shows "flat_lanes l scripts m a' (v(i := w))"
proof -
  let ?j = "1 - i"
  have j: "?j < 2" "?j \<noteq> i" "1 - ?j = i" using assms(2) by (auto simp: less_2_cases_iff)
  obtain b where b: "\<And>k. k < 2 \<Longrightarrow> flat_lane l (scripts k) (scripts (1 - k)) m a (v k) (b k) (sc_pc (b (1 - k)))"
    using assms(1) by (auto simp: flat_lanes_def)
  obtain d where d: "flat_lane l (scripts i) (scripts ?j) m a' w d (sc_pc (b ?j))" using step [OF b [OF assms(2)]] by blast
  have "separate l (scripts ?j) (scripts i)" using assms(2,3) separate_sym by (auto simp: less_2_cases_iff)
  then have o: "flat_lane l (scripts ?j) (scripts i) m a' (v ?j) (b ?j) (sc_pc d)"
    using other_lane [OF b [OF j(1)] _ _ assms(4)] d j(3) by simp
  have "flat_lane l (scripts k) (scripts (1 - k)) m a' ((v(i := w)) k) ((b(i := d)) k) (sc_pc ((b(i := d)) (1 - k)))"
    if "k < 2" for k
  proof -
    have "k = i \<or> k = ?j" using that assms(2) by (auto simp: less_2_cases_iff)
    then show ?thesis using d o j by auto
  qed
  then show ?thesis unfolding flat_lanes_def by blast
qed

lemma flat_lanes_cong:
  assumes "arb_memory a' = arb_memory a" "\<And>i. i < 2 \<Longrightarrow> v' i = v i"
  shows "flat_lanes l scripts m a' v' = flat_lanes l scripts m a v"
  using assms by (simp add: flat_lanes_def flat_lane_def cached_inv_cong [OF assms(1)])

text \<open>The invariant of the loop; the time a request is stamped with never runs backwards for its CPU.\<close>

definition flat_pair ::
    "latency_model \<Rightarrow> nat \<Rightarrow> nat \<Rightarrow> (nat \<Rightarrow> script_op list) \<Rightarrow> committed_memory \<Rightarrow> pair_state \<Rightarrow> bool" where
  "flat_pair lat K l scripts m s \<longleftrightarrow> clocked lat K s \<and> fault_free (pr_arbiter s) \<and> mem_wf m \<and>
     separate l (scripts 0) (scripts 1) \<and> flat_lanes l scripts m (pr_arbiter s) (\<lambda>i. pair_lane i s) \<and>
     (\<forall>i < 2. producer_seen (pr_arbiter s) i \<longrightarrow>
        producer_last_req_time (pr_arbiter s) i \<le> sc_local_time (snd (pair_lane i s)))"

lemma prepared_frame:
  "arb_memory (pr_arbiter (prepared s)) = arb_memory (pr_arbiter s)"
  "fault_free (pr_arbiter (prepared s)) = fault_free (pr_arbiter s)"
  "producer_seen (pr_arbiter (prepared s)) = producer_seen (pr_arbiter s)"
  "producer_last_req_time (pr_arbiter (prepared s)) = producer_last_req_time (pr_arbiter s)"
  by (simp_all add: prepared_def Let_def update_progress_def fault_free_def)

lemma flat_pair_filled:
  assumes "flat_pair lat K l scripts m s"
  shows "flat_pair lat K l scripts m (prepared s)"
proof -
  let ?a = "pr_arbiter s" and ?v = "\<lambda>i. pair_lane i s"
  have c: "clocked lat K s" and sep: "separate l (scripts 0) (scripts 1)" and wf: "mem_wf m"
    and lanes: "flat_lanes l scripts m ?a ?v" using assms by (simp_all add: flat_pair_def)
  have "flat_lanes l scripts m ?a (?v(0 := filled (?v 0)))"
    by (rule flat_lanes_step [OF lanes _ sep wf flat_lane_filled]) simp_all
  then have "flat_lanes l scripts m ?a (?v(0 := filled (?v 0), 1 := filled (?v 1)))"
    by (rule flat_lanes_step [OF _ _ sep wf flat_lane_filled]) simp_all
  then have "flat_lanes l scripts m (pr_arbiter (prepared s)) (\<lambda>i. pair_lane i (prepared s))"
    by (rule flat_lanes_cong [THEN iffD2, rotated 2]) (auto simp: prepared_frame prepared_lane less_2_cases_iff)
  moreover have "sc_local_time (snd (?v i)) \<le> sc_local_time (snd (pair_lane i (prepared s)))" if "i < 2" for i
    using clocked_filled(2) [OF c that] prepared_lane [OF that] by (simp add: now_def word_le_nat_alt)
  ultimately show ?thesis
    using assms clocked_filled(1) [OF c] unfolding flat_pair_def prepared_frame by (meson order_trans)
qed

lemma answered_later:
  assumes "clocked lat K s" "i < 2" "pair_lane i s = (Some p, c)" "execute_commit (pr_arbiter s) (pb_op p) tie = (rsp, b)"
  shows "sc_local_time c \<le> sc_local_time (fst (sc_apply_response c (pb_script_index p) rsp tok tr))"
proof -
  obtain U where U: "pair_within lat K U s" and K: "K < 2 ^ 64 - 1" using assms(1) by (auto simp: clocked_def)
  have g: "lane_good i (Some p, c)" using clocked_stamps [OF assms(1,2)] assms(3) by simp
  have t: "now c \<le> U" "U + max_latency lat < 2 ^ 64" "unat (bus_free_time (pr_arbiter s)) \<le> U" "arb_latency (pr_arbiter s) = lat"
    using U K assms(2,3) by (auto simp: pair_within_def lane_owed_def less_2_cases_iff)
  have req: "unat (req_time (pb_op p)) = now c" using g by (simp add: lane_good_def stamped_def now_def)
  have "now c + unat (rsp_stall rsp) \<le> U + max_latency lat"
    using commit_reach(1) [OF t(3), of "pb_op p" tie] t req by (simp add: assms(4))
  from answered_lane(2) [OF g this t(2), where tok = tok and tr = tr] show ?thesis by (simp add: now_def word_le_nat_alt)
qed

lemma flat_pair_answered:
  assumes "flat_pair lat K l scripts m s" "i < 2" "pair_lane i s = (Some p, c)"
    and e: "execute_commit (pr_arbiter s) (pb_op p) tie = (rsp, a1)"
  shows "flat_pair lat K l scripts m (answered i p c rsp a1 s)"
proof -
  let ?a = "pr_arbiter s" and ?t = "answered i p c rsp a1 s" and ?v = "\<lambda>i. pair_lane i s"
  let ?d = "fst (sc_apply_response c (pb_script_index p) rsp (producer_token (pb_op p)) None)"
  note lanes = answered_lanes [OF assms(2), of p c rsp a1 s]
  have ck: "clocked lat K s" and sep: "separate l (scripts 0) (scripts 1)" and wf: "mem_wf m"
    and flat: "flat_lanes l scripts m ?a ?v"
    and order: "\<And>k. k < 2 \<Longrightarrow> producer_seen ?a k \<Longrightarrow> producer_last_req_time ?a k \<le> sc_local_time (snd (?v k))"
    using assms(1) by (simp_all add: flat_pair_def)
  have g: "lane_good i (Some p, c)" using clocked_stamps [OF ck assms(2)] assms(3) by simp
  have slot: "producer_slot (pb_op p) = i" "req_time (pb_op p) = sc_local_time c"
    using g assms(2) by (auto simp: lane_good_def stamped_def producer_slot_def less_2_cases_iff)
  obtain b pc where b: "flat_lane l (scripts i) (scripts (1 - i)) m ?a (Some p, c) b pc"
    using flat assms(2,3) unfolding flat_lanes_def by metis
  have "validate_bus_op (pb_op p) = NoError"
    using b by (auto simp: flat_lane_def based_def intro: produce_valid)
  then have acc: "accepted ?a (pb_op p)" using order [OF assms(2)] assms(3) slot by (auto simp: accepted_def)
  have a1: "producer_seen a1 = (producer_seen ?a)(i := True)" "fault_free a1"
    "producer_last_req_time a1 = (producer_last_req_time ?a)(i := sc_local_time c)"
    using execute_accepted_facts(6,7) [OF acc, of tie] fault_free_execute [of ?a "pb_op p" tie] acc assms(1) slot
    by (simp_all add: e flat_pair_def)
  have "flat_lanes l scripts m a1 (?v(i := (None, ?d)))"
  proof (rule flat_lanes_step [OF flat assms(2) sep wf])
    fix b pc assume "flat_lane l (scripts i) (scripts (1 - i)) m ?a (?v i) b pc"
    then show "\<exists>d. flat_lane l (scripts i) (scripts (1 - i)) m a1 (None, ?d) d pc"
      unfolding assms(3) using flat_lane_answered [OF _ acc e] by blast
  qed
  then have "flat_lanes l scripts m a1 (\<lambda>j. pair_lane j ?t)"
  proof (rule flat_lanes_cong [THEN iffD2, rotated 2])
    fix k :: nat assume "k < 2"
    then have "k = i \<or> k = 1 - i" using assms(2) by (auto simp: less_2_cases_iff)
    then show "pair_lane k ?t = (?v(i := (None, ?d))) k" using lanes assms(2) by (auto simp: less_2_cases_iff)
  qed simp
  moreover have "producer_last_req_time a1 k \<le> sc_local_time (snd (pair_lane k ?t))" if k: "k < 2" "producer_seen a1 k" for k
  proof (cases "k = i")
    case True
    then show ?thesis using answered_later [OF ck assms(2,3) e] by (simp add: lanes a1)
  next
    case False
    then have "k = 1 - i" using k(1) assms(2) by (auto simp: less_2_cases_iff)
    then show ?thesis using order [OF k(1)] k(2) False lanes(2) by (simp add: a1)
  qed
  ultimately show ?thesis
    using clocked_committed [OF ck assms(2,3) e] a1(2) sep wf by (simp add: flat_pair_def lanes(3))
qed

interpretation pair_flat: pair_invariant "flat_pair lat K l scripts m" for lat K l scripts m
proof unfold_locales
  show "flat_pair lat K l scripts m s \<Longrightarrow> i < 2 \<Longrightarrow> lane_good i (pair_lane i s)" for s i
    using clocked_stamps [of lat K s i] by (simp add: flat_pair_def)
  show "flat_pair lat K l scripts m (s\<lparr>pr_arbiter := (pr_arbiter s)\<lparr>producer_enqueued_seen := e, producer_last_enqueued_req_time := t\<rparr>\<rparr>)"
    if "flat_pair lat K l scripts m s" for s e t
    using that by (simp add: flat_pair_def clocked_def pair_within_enqueue fault_free_def
        flat_lanes_cong [of "(pr_arbiter s)\<lparr>producer_enqueued_seen := e, producer_last_enqueued_req_time := t\<rparr>" "pr_arbiter s"])
qed (simp_all add: flat_pair_filled flat_pair_answered)

text \<open>The loop ends with both lanes idle, so each CPU stands for itself.\<close>

lemma ended_lanes:
  assumes "run_scripted_pair fuel s = Some t"
  shows "ended t"
  using assms
proof (induction fuel arbitrary: s)
  case (Suc fuel)
  then show ?case
    using break_ended ended_iteration by (cases "fst (pair_iteration s)") (auto simp: split_def Let_def)
qed simp

lemma start_flat:
  assumes "0 < l" "l < 256" "4294967296 mod l = 0" "0 < k" "mem_size m \<le> 4294967296" "mem_size m mod l = 0"
    and "cached_script l (mem_size m) script0" "cached_script l (mem_size m) script1" "separate l script0 script1"
    and "script_work (max_latency lat) script0 + script_work (max_latency lat) script1 < 2 ^ 64 - 1"
  shows "flat_pair lat (script_work (max_latency lat) script0 + script_work (max_latency lat) script1) l
    (\<lambda>i. if i = 0 then script0 else script1) m (scripted_start script0 script1 l k (new_bus_arbiter m dev new_trace lat))"
proof -
  let ?a = "new_bus_arbiter m dev new_trace lat" and ?b = "\<lambda>i. new_scripted_cpu (int i) (if i = 0 then script0 else script1) l k"
  have no_line: "\<not> cache_hit (new_cache l k) q n" for q n
  proof -
    have "0 < l" "0 < k" using assms(1,4) by simp_all
    then have "cl_valid (cache_lines (new_cache l k) ! (x mod k)) = False" for x
      by (simp add: new_cache_def)
    then show ?thesis by (simp add: cache_hit_conv cache_index_def new_cache_def)
  qed
  have "coherent (new_cache l k) m"
    using cache_wf_new [of l k] assms(1-6) no_line by (simp add: coherent_def mem_wf_def new_cache_def)
  then have lane: "flat_lane l (if i = 0 then script0 else script1) (if 1 - i = 0 then script0 else script1) m ?a (None, ?b i) (?b i) 0"
    for i :: nat
    using assms(2,7,8) no_line
    by (simp add: flat_lane_def based_def new_scripted_cpu_def own_lines_def cached_inv_def new_bus_arbiter_def
        empty_store_buffer_def ref_run_def ref_mem_def) (simp add: new_cache_def)
  have start: "pair_lane i (scripted_start script0 script1 l k ?a) = (None, ?b i)" "sc_pc (?b i) = 0" if "i < 2" for i
    using that by (auto simp: pair_lane_def scripted_start_def less_2_cases_iff new_scripted_cpu_def)
  have "flat_lanes l (\<lambda>i. if i = 0 then script0 else script1) m ?a (\<lambda>i. pair_lane i (scripted_start script0 script1 l k ?a))"
    unfolding flat_lanes_def
  proof (intro exI [of _ ?b] allI impI)
    fix i :: nat assume i: "i < 2"
    have "sc_pc (?b (1 - i)) = 0" by (rule start(2)) simp
    then show "flat_lane l (if i = 0 then script0 else script1) (if 1 - i = 0 then script0 else script1) m ?a
        (pair_lane i (scripted_start script0 script1 l k ?a)) (?b i) (sc_pc (?b (1 - i)))"
      using lane [of i] start(1) [OF i] by simp
  qed
  moreover have "pr_arbiter (scripted_start script0 script1 l k ?a) = ?a" by (simp add: scripted_start_def)
  ultimately show ?thesis
    using start_clocked [OF assms(10), of l k m dev] assms(2,5,9)
    by (simp add: flat_pair_def mem_wf_def fault_free_def) (simp add: new_bus_arbiter_def new_trace_def)
qed

section \<open>Properties\<close>

text \<open>
  (C9) The caches and the store buffers are invisible, for two CPUs at once. Two scripts make cached RAM accesses of legal
  sizes, inside memory and within a cache line, and no line is accessed by both (nothing keeps the caches coherent). When
  the loop on them ends, memory is what the scripts leave on a flat memory, one after the other; each CPU has read
  last what its script alone reads last on that memory; and no operation was ever rejected. How the arbiter interleaved
  the operations, ties included, does not show.
\<close>

theorem scripts_refine_flat_memory:
  assumes "run_scripted_pair fuel (scripted_start script0 script1 l k (new_bus_arbiter m dev new_trace lat)) = Some t"
    and "0 < l" "l < 256" "4294967296 mod l = 0" "0 < k" "mem_size m \<le> 4294967296" "mem_size m mod l = 0"
    and "cached_script l (mem_size m) script0" "cached_script l (mem_size m) script1" "separate l script0 script1"
    and "script_work (max_latency lat) script0 + script_work (max_latency lat) script1 < 2 ^ 64 - 1"
  shows "arb_memory (pr_arbiter t) = fst (ref_run script1 (fst (ref_run script0 m))) \<and>
    sc_last_read (pr_cpu0 t) = snd (ref_run script0 m) \<and> sc_last_read (pr_cpu1 t) = snd (ref_run script1 m) \<and>
    fault_free (pr_arbiter t)"
proof -
  define scripts where "scripts = (\<lambda>i :: nat. if i = 0 then script0 else script1)"
  obtain K where "flat_pair lat K l scripts m (scripted_start script0 script1 l k (new_bus_arbiter m dev new_trace lat))"
    using start_flat [OF assms(2-11)] unfolding scripts_def by blast
  then have flat: "flat_pair lat K l scripts m t" by (rule pair_flat.run_keeps [OF assms(1)])
  then obtain b where b: "\<And>i. i < 2 \<Longrightarrow>
      flat_lane l (scripts i) (scripts (1 - i)) m (pr_arbiter t) (pair_lane i t) (b i) (sc_pc (b (1 - i)))"
    by (auto simp: flat_pair_def flat_lanes_def)
  have final: "b i = snd (pair_lane i t)" "take (sc_pc (b i)) (scripts i) = scripts i" if "i < 2" for i
    using ended_lanes [OF assms(1)] b [OF that] that by (auto simp: ended_def flat_lane_def based_def sc_done_def)
  have run: "(arb_memory (pr_arbiter t), sc_last_read (b i)) = ref_run (scripts i) (ref_mem (scripts (1 - i)) m)" if "i < 2" for i
    using b [OF that] final [OF that] final [of "1 - i"] by (auto simp: flat_lane_def cached_inv_def)
  have wf: "mem_wf m" "lined l (mem_size m) script0" "lined l (mem_size m) script1" "separate l script1 script0"
    using assms(6,8-10) cached_lined separate_sym by (auto simp: mem_wf_def)
  note reads = ref_run_reads [OF wf(1,2,3) assms(10)] ref_run_reads [OF wf(1,3,2,4)]
  have "sc_last_read (b 0) = snd (ref_run script0 m)" "sc_last_read (b 1) = snd (ref_run script1 m)"
    "arb_memory (pr_arbiter t) = ref_mem script1 (ref_mem script0 m)"
    using run [of 0] run [of 1] reads by (simp_all add: scripts_def) (metis snd_conv, metis snd_conv, metis fst_conv ref_mem_def)
  then show ?thesis
    using flat final(1) [of 0] final(1) [of 1] by (simp add: flat_pair_def ref_mem_def pair_lane_def)
qed

lemma scripts_refine_flat_memory_witness:
  "\<exists>t. run_scripted_pair 10 (scripted_start [write_op 0x10 0x11223344, read_op 0x14, read_op 0x10]
       [compute_op 2, write_op 0x20 5, read_op 0x24] 16 4
       (new_bus_arbiter (new_memory 64) new_device_hub new_trace default_latency)) = Some t \<and>
     sc_last_read (pr_cpu0 t) = Some 0x11223344 \<and> sc_last_read (pr_cpu1 t) = Some 0 \<and>
     mem_read (arb_memory (pr_arbiter t)) 0x10 4 = 0x11223344 \<and> mem_read (arb_memory (pr_arbiter t)) 0x20 4 = 5"
proof -
  let ?s0 = "[write_op 0x10 0x11223344, read_op 0x14, read_op 0x10]" and ?s1 = "[compute_op 2, write_op 0x20 5, read_op 0x24]"
  let ?start = "scripted_start ?s0 ?s1 16 4 (new_bus_arbiter (new_memory 64) new_device_hub new_trace default_latency)"
  have "run_scripted_pair 10 ?start \<noteq> None" by code_simp
  then obtain t where t: "run_scripted_pair 10 ?start = Some t" by blast
  have cached: "cached_script 16 (mem_size (new_memory 64)) ?s0" "cached_script 16 (mem_size (new_memory 64)) ?s1"
    "separate 16 ?s0 ?s1"
    by (simp_all add: cached_script_def separate_def accesses_def script_uncached_def is_uncached_alias_def is_mmio_def
        to_phys_def valid_size_def access_in_range_def new_memory_def)
  have work: "script_work (max_latency default_latency) ?s0 + script_work (max_latency default_latency) ?s1 < 2 ^ 64 - 1"
    by (simp add: script_work_def max_latency_def default_latency_def)
  have "arb_memory (pr_arbiter t) = fst (ref_run ?s1 (fst (ref_run ?s0 (new_memory 64)))) \<and>
      sc_last_read (pr_cpu0 t) = snd (ref_run ?s0 (new_memory 64)) \<and> sc_last_read (pr_cpu1 t) = snd (ref_run ?s1 (new_memory 64)) \<and>
      fault_free (pr_arbiter t)"
    by (rule scripts_refine_flat_memory [OF t _ _ _ _ _ _ cached work]) (simp_all add: new_memory_def)
  moreover have "snd (ref_run ?s0 (new_memory 64)) = Some 0x11223344" "snd (ref_run ?s1 (new_memory 64)) = Some 0"
    "mem_read (fst (ref_run ?s1 (fst (ref_run ?s0 (new_memory 64))))) 0x10 4 = 0x11223344"
    "mem_read (fst (ref_run ?s1 (fst (ref_run ?s0 (new_memory 64))))) 0x20 4 = 5"
    by code_simp+
  ultimately show ?thesis using t by metis
qed

end
