(* ===== verification/ReplayReport.thy ===== *)
theory ReplayReport
  imports TraceReplay
begin

text \<open>
  The rest of \<open>main\<close> of the replay tool (\<open>src/tools/trace_replay/trace_replay.cpp\<close>): the loop that
  measures every record against its own ticks and, on request, against the arbiter library; the two
  consistency checks that can end the tool with an error; the rankings; the annotated output. The result
  record has the members the loop uses, seven of which the struct of the source does not declare. The
  console report, the summary file and the whole tool have their own theories.
\<close>

section \<open>Results\<close>

type_synonym i64 = "64 word"

record replay_result =
  rr_record :: trace_record
  observed_service_cycles :: u32
  observed_retries :: u32
  ymir_service_cycles :: u32
  ymir_retries :: u32
  ymir_elapsed :: u32
  ymir_wait :: u32
  ymir_wait_metric_kind :: string
  cache_bucket :: string
  arbiter_predicted_service :: u32
  arbiter_predicted_wait :: u32
  arbiter_predicted_total :: u32
  base_latency_of :: u32
  contention_stall :: u32
  total_predicted :: u32
  model_vs_trace_wait_delta :: i64
  normalized_delta_wait :: i64
  normalized_delta_total :: i64
  cumulative_drift_wait :: i64
  cumulative_drift_total :: i64
  classification :: string
  known_gap_reason :: string

text \<open>\<open>ReplayResult r{}; r.record = record;\<close>\<close>

definition blank_result :: "trace_record \<Rightarrow> replay_result" where
  "blank_result r = \<lparr>rr_record = r, observed_service_cycles = 0, observed_retries = 0,
     ymir_service_cycles = 0, ymir_retries = 0, ymir_elapsed = 0, ymir_wait = 0, ymir_wait_metric_kind = [],
     cache_bucket = [], arbiter_predicted_service = 0, arbiter_predicted_wait = 0, arbiter_predicted_total = 0,
     base_latency_of = 0, contention_stall = 0, total_predicted = 0, model_vs_trace_wait_delta = 0,
     normalized_delta_wait = 0, normalized_delta_total = 0, cumulative_drift_wait = 0, cumulative_drift_total = 0,
     classification = [], known_gap_reason = []\<rparr>"

record observed_bucket_stats =
  sample_size :: nat
  observed_wait_nonzero_count :: nat
  observed_elapsed_values :: "i64 list"
  observed_wait_values :: "i64 list"

text \<open>The counters and tables the loop fills.\<close>

record report =
  rp_results :: "replay_result list"
  rp_arbiter :: arbiter
  rp_previous :: "trace_record option"
  known_gap_count :: nat
  known_gap_byte_access_count :: nat
  cumulative_agreement_count :: nat
  cumulative_mismatch_count :: nat
  normalized_agreement_count :: nat
  normalized_mismatch_count :: nat
  histogram :: distribution
  normalized_by_master :: distribution
  normalized_by_region :: distribution
  normalized_by_size :: distribution
  normalized_mismatch_by_key :: distribution
  sample_size_by_key :: distribution
  normalized_delta_by_access_kind :: "i64 list table"
  observed_buckets :: "observed_bucket_stats table"
  normalized_wait_deltas :: "i64 list"

definition new_report :: report where
  "new_report = \<lparr>rp_results = [], rp_arbiter = new_arbiter default_config, rp_previous = None,
     known_gap_count = 0, known_gap_byte_access_count = 0, cumulative_agreement_count = 0,
     cumulative_mismatch_count = 0, normalized_agreement_count = 0, normalized_mismatch_count = 0,
     histogram = RBT.empty, normalized_by_master = RBT.empty, normalized_by_region = RBT.empty,
     normalized_by_size = RBT.empty, normalized_mismatch_by_key = RBT.empty, sample_size_by_key = RBT.empty,
     normalized_delta_by_access_kind = RBT.empty, observed_buckets = RBT.empty, normalized_wait_deltas = []\<rparr>"

section \<open>Measuring a record\<close>

definition observe :: "trace_record \<Rightarrow> replay_result" where
  "observe record =
    (let r = (blank_result record)\<lparr>observed_service_cycles := tr_service_cycles record,
               observed_retries := tr_retries record\<rparr>;
         r = (if tick_complete record \<ge> tick_first_attempt record
              then r\<lparr>ymir_elapsed := ucast (tick_complete record - tick_first_attempt record),
                     ymir_wait_metric_kind := ''exact_tick_elapsed_exclusive''\<rparr>
              else r\<lparr>ymir_elapsed := ymir_retries r * ymir_service_cycles r + ymir_service_cycles r,
                     ymir_wait_metric_kind := ''proxy_retries_x_service''\<rparr>)
     in r\<lparr>ymir_wait := (if ymir_elapsed r > ymir_service_cycles r then ymir_elapsed r - ymir_service_cycles r else 0),
          cache_bucket := classify_cache_bucket (tr_addr record) (ymir_service_cycles r)\<rparr>)"

definition observe_bucket :: "replay_result \<Rightarrow> observed_bucket_stats table \<Rightarrow> observed_bucket_stats table" where
  "observe_bucket r m =
    (let record = rr_record r;
         key = tr_master record @ '' | '' @ region_name (tr_addr record) @ '' | '' @ tr_kind record @ '' | '' @ cache_bucket r;
         b = (case RBT.lookup m key of Some b \<Rightarrow> b
              | None \<Rightarrow> \<lparr>sample_size = 0, observed_wait_nonzero_count = 0, observed_elapsed_values = [], observed_wait_values = []\<rparr>)
     in RBT.insert key \<lparr>sample_size = sample_size b + 1,
          observed_wait_nonzero_count = observed_wait_nonzero_count b + (if ymir_wait r > 0 then 1 else 0),
          observed_elapsed_values = observed_elapsed_values b @ [ucast (ymir_elapsed r)],
          observed_wait_values = observed_wait_values b @ [ucast (ymir_wait r)]\<rparr> m)"

definition request_of :: "trace_record \<Rightarrow> bus_request" where
  "request_of record = \<lparr>master_id = the (parse_master (tr_master record)), req_addr = tr_addr record,
     is_write = (tr_rw record = ''W''), size_bytes = tr_size record, now_tick = tick_first_attempt record\<rparr>"

text \<open>The comparison with the arbiter: the prediction, the deltas and the drift.\<close>

definition compare_model :: "arbiter \<Rightarrow> arbiter \<Rightarrow> trace_record option \<Rightarrow> replay_result \<Rightarrow> replay_result" where
  "compare_model before_grant after_grant previous r =
    (let record = rr_record r;
         wait = estimate_local_wait_cycles record previous default_config;
         service = max 1 (ymir_access_cycles (tr_addr record) (tr_rw record = ''W'') (tr_size record));
         total = wait + service;
         start = tick_first_attempt record;
         finish = tick_complete record + 1;
         arbiter_start = max (bus_free_tick before_grant) start
     in r\<lparr>arbiter_predicted_wait := wait, arbiter_predicted_service := service, arbiter_predicted_total := total,
          base_latency_of := service, contention_stall := wait, total_predicted := total,
          normalized_delta_wait := ucast wait - ucast (ymir_wait r),
          normalized_delta_total := ucast total - ucast (ymir_elapsed r),
          cumulative_drift_wait := arbiter_start - start,
          cumulative_drift_total := bus_free_tick after_grant - finish\<rparr>)"

definition known_byte_gap :: "replay_result \<Rightarrow> bool" where
  "known_byte_gap r \<longleftrightarrow> tr_size (rr_record r) = 1 \<and> ymir_retries r = 0 \<and> sint (normalized_delta_wait r) > 0"

definition classify :: "replay_result \<Rightarrow> replay_result" where
  "classify r =
    (if known_byte_gap r
     then r\<lparr>classification := ''known_ymir_wait_model_gap'', known_gap_reason := ''byte_access_wait_check_gap''\<rparr>
     else if cumulative_drift_wait r = 0 \<and> cumulative_drift_total r = 0 then r\<lparr>classification := ''agreement''\<rparr>
     else r\<lparr>classification := ''mismatch''\<rparr>)"

definition count_class :: "replay_result \<Rightarrow> report \<Rightarrow> report" where
  "count_class r p =
    (if known_byte_gap r
     then p\<lparr>known_gap_count := known_gap_count p + 1, known_gap_byte_access_count := known_gap_byte_access_count p + 1\<rparr>
     else if cumulative_drift_wait r = 0 \<and> cumulative_drift_total r = 0
     then p\<lparr>cumulative_agreement_count := cumulative_agreement_count p + 1\<rparr>
     else p\<lparr>cumulative_mismatch_count := cumulative_mismatch_count p + 1\<rparr>)"

text \<open>The tables of the model comparison.\<close>

definition count_normalized :: "replay_result \<Rightarrow> report \<Rightarrow> report" where
  "count_normalized r p =
    (let record = rr_record r; agrees = normalized_delta_wait r = 0; miss = (if agrees then 0 else 1);
         region = region_name (tr_addr record);
         mk = tr_master record @ '' | '' @ region @ '' | '' @ tr_kind record;
         q = (if agrees then p\<lparr>normalized_agreement_count := normalized_agreement_count p + 1\<rparr>
              else p\<lparr>normalized_mismatch_count := normalized_mismatch_count p + 1\<rparr>)
     in q\<lparr>histogram := bump (region @ '' | '' @ classification r) (histogram q),
          normalized_by_master := add_count (tr_master record) miss (normalized_by_master q),
          normalized_by_region := add_count region miss (normalized_by_region q),
          normalized_by_size := add_count (dec_word (tr_size record)) miss (normalized_by_size q),
          sample_size_by_key := bump mk (sample_size_by_key q),
          normalized_mismatch_by_key :=
            (if agrees then normalized_mismatch_by_key q else bump mk (normalized_mismatch_by_key q)),
          normalized_delta_by_access_kind := RBT.insert (tr_kind record)
            ((case RBT.lookup (normalized_delta_by_access_kind q) (tr_kind record) of None \<Rightarrow> [] | Some ds \<Rightarrow> ds)
              @ [normalized_delta_wait r]) (normalized_delta_by_access_kind q),
          normalized_wait_deltas := normalized_wait_deltas q @ [normalized_delta_wait r]\<rparr>)"

text \<open>The body of the loop over the filtered records.\<close>

definition measure_record :: "bool \<Rightarrow> report \<Rightarrow> trace_record \<Rightarrow> report" where
  "measure_record compare p record =
    (let r = observe record;
         p = p\<lparr>observed_buckets := observe_bucket r (observed_buckets p)\<rparr>
     in if compare then
          (let after = commit_grant ymir_access_cycles (rp_arbiter p) (request_of record) (tick_first_attempt record) False;
               r = compare_model (rp_arbiter p) after (rp_previous p) r;
               q = count_normalized (classify r) (count_class r (p\<lparr>rp_arbiter := after\<rparr>))
           in q\<lparr>rp_results := rp_results q @ [classify r], rp_previous := Some record\<rparr>)
        else
          (let r = r\<lparr>classification := (if ymir_wait r > 0 then ''wait_nonzero'' else ''wait_zero'')\<rparr>
           in p\<lparr>histogram := bump (region_name (tr_addr record) @ '' | '' @ classification r) (histogram p),
                cumulative_agreement_count := cumulative_agreement_count p + 1,
                rp_results := rp_results p @ [r]\<rparr>))"

definition measure_all :: "bool \<Rightarrow> trace_record list \<Rightarrow> report" where
  "measure_all compare records = foldl (measure_record compare) new_report records"

section \<open>Checks, rankings and rows\<close>

datatype report_error = ClassificationInvariantFailed | NormalizedInvariantFailed

definition check_report :: "bool \<Rightarrow> report \<Rightarrow> report_error option" where
  "check_report compare p =
    (if cumulative_agreement_count p + cumulative_mismatch_count p + known_gap_count p \<noteq> length (rp_results p)
     then Some ClassificationInvariantFailed
     else if compare \<and> normalized_agreement_count p + normalized_mismatch_count p \<noteq> length (rp_results p)
     then Some NormalizedInvariantFailed
     else None)"

text \<open>\<open>std::stable_sort\<close> by descending \<open>std::llabs\<close>.\<close>

definition top_cumulative :: "replay_result list \<Rightarrow> replay_result list" where
  "top_cumulative results = sort_key (\<lambda>r. - \<bar>sint (cumulative_drift_total r)\<bar>) results"

definition top_normalized :: "replay_result list \<Rightarrow> replay_result list" where
  "top_normalized results = sort_key (\<lambda>r. - \<bar>sint (model_vs_trace_wait_delta r)\<bar>) results"

definition dec_i64 :: "i64 \<Rightarrow> string" where
  "dec_i64 w = dec_int (sint w)"

definition plain_field :: "string \<Rightarrow> string \<Rightarrow> string" where
  "plain_field key v = [quote] @ key @ [quote] @ '':'' @ [quote] @ v @ [quote]"

definition annotated_row :: "bool \<Rightarrow> replay_result \<Rightarrow> string" where
  "annotated_row compare r = annotated_row_head (rr_record r) @ '','' @
     number_field ''observed_service_cycles'' (dec_word (ymir_service_cycles r)) @ '','' @
     number_field ''observed_retries'' (dec_word (ymir_retries r)) @ '','' @
     number_field ''observed_elapsed'' (dec_word (ymir_elapsed r)) @ '','' @
     number_field ''observed_wait'' (dec_word (ymir_wait r)) @ '','' @
     plain_field ''observed_wait_metric_kind'' (ymir_wait_metric_kind r) @ '','' @
     plain_field ''cache_bucket'' (cache_bucket r) @ '','' @
     plain_field ''classification'' (classification r) @
     (if compare then '','' @
        number_field ''model_predicted_wait'' (dec_word (arbiter_predicted_wait r)) @ '','' @
        number_field ''model_predicted_service'' (dec_word (arbiter_predicted_service r)) @ '','' @
        number_field ''model_predicted_total'' (dec_word (arbiter_predicted_total r)) @ '','' @
        number_field ''model_vs_trace_wait_delta'' (dec_i64 (normalized_delta_wait r)) @ '','' @
        number_field ''model_vs_trace_total_delta'' (dec_i64 (normalized_delta_total r)) @ '','' @
        number_field ''cumulative_drift_wait'' (dec_i64 (cumulative_drift_wait r)) @ '','' @
        number_field ''cumulative_drift_total'' (dec_i64 (cumulative_drift_total r)) @ '','' @
        plain_field ''known_gap_reason'' (known_gap_reason r)
      else []) @ ''}'' @ [newline]"

text \<open>What the annotated file holds, when it is asked for and opens.\<close>

definition annotated_output :: "options \<Rightarrow> replay_result list \<Rightarrow> string" where
  "annotated_output opts results =
    (let emit_limit = (case annotated_limit opts of Some n \<Rightarrow> min n (length results) | None \<Rightarrow> length results)
     in concat (map (annotated_row (include_model_comparison opts)) (take emit_limit results)))"

section \<open>Properties\<close>

text \<open>One result per record, in order, and every one in exactly one class.\<close>

definition tallied :: "bool \<Rightarrow> report \<Rightarrow> bool" where
  "tallied compare p \<longleftrightarrow>
     cumulative_agreement_count p + cumulative_mismatch_count p + known_gap_count p = length (rp_results p) \<and>
     known_gap_byte_access_count p = known_gap_count p \<and>
     (compare \<longrightarrow> normalized_agreement_count p + normalized_mismatch_count p = length (rp_results p) \<and>
        normalized_wait_deltas p = map normalized_delta_wait (rp_results p))"

lemma observe_record [simp]: "rr_record (observe r) = r"
  by (simp add: observe_def blank_result_def Let_def)

lemma compare_record [simp]: "rr_record (compare_model a b prev r) = rr_record r"
  by (simp add: compare_model_def Let_def)

lemma classify_frame [simp]:
  "rr_record (classify r) = rr_record r" "normalized_delta_wait (classify r) = normalized_delta_wait r"
  "model_vs_trace_wait_delta (classify r) = model_vs_trace_wait_delta r"
  by (simp_all add: classify_def)

lemma count_class_frame [simp]:
  "rp_results (count_class r p) = rp_results p" "normalized_agreement_count (count_class r p) = normalized_agreement_count p"
  "normalized_mismatch_count (count_class r p) = normalized_mismatch_count p"
  "normalized_wait_deltas (count_class r p) = normalized_wait_deltas p"
  by (simp_all add: count_class_def)

lemma count_class_tally:
  "cumulative_agreement_count (count_class r p) + cumulative_mismatch_count (count_class r p) + known_gap_count (count_class r p) =
     Suc (cumulative_agreement_count p + cumulative_mismatch_count p + known_gap_count p)"
  "known_gap_byte_access_count p = known_gap_count p \<Longrightarrow>
     known_gap_byte_access_count (count_class r p) = known_gap_count (count_class r p)"
  by (simp_all add: count_class_def)

lemma count_normalized_frame [simp]:
  "rp_results (count_normalized r p) = rp_results p" "known_gap_count (count_normalized r p) = known_gap_count p"
  "known_gap_byte_access_count (count_normalized r p) = known_gap_byte_access_count p"
  "cumulative_agreement_count (count_normalized r p) = cumulative_agreement_count p"
  "cumulative_mismatch_count (count_normalized r p) = cumulative_mismatch_count p"
  "normalized_wait_deltas (count_normalized r p) = normalized_wait_deltas p @ [normalized_delta_wait r]"
  "normalized_agreement_count (count_normalized r p) + normalized_mismatch_count (count_normalized r p) =
     Suc (normalized_agreement_count p + normalized_mismatch_count p)"
  by (simp_all add: count_normalized_def Let_def)

lemma measure_tallied:
  assumes "tallied compare p"
  shows "tallied compare (measure_record compare p r)"
    and "map rr_record (rp_results (measure_record compare p r)) = map rr_record (rp_results p) @ [r]"
  using assms count_class_tally
  by (simp_all add: tallied_def measure_record_def Let_def)

lemma measure_all_tallied:
  "tallied compare (measure_all compare records) \<and> map rr_record (rp_results (measure_all compare records)) = records"
proof (induction records rule: rev_induct)
  case Nil
  show ?case by (simp add: measure_all_def new_report_def tallied_def)
next
  case (snoc r records)
  then show ?case
    using measure_tallied [of compare "measure_all compare records" r] by (simp add: measure_all_def)
qed

text \<open>The members that hold the recorded service cycles and retries are never set: no service is subtracted.\<close>

lemma observed_wait_is_elapsed:
  "ymir_wait (observe r) = ymir_elapsed (observe r)"
  "cache_bucket (observe r) = (if is_high_wram (tr_addr r) then ''anomaly'' else ''not_applicable'')"
  by (auto simp: observe_def blank_result_def Let_def classify_cache_bucket_def not_less)

text \<open>The key of the second ranking is a member that is never set, so it ranks nothing.\<close>

lemma top_normalized_ranks_nothing:
  "top_normalized (rp_results (measure_all compare records)) = rp_results (measure_all compare records)"
proof -
  have "\<forall>x \<in> set (rp_results (measure_all compare records)). model_vs_trace_wait_delta x = 0"
  proof (induction records rule: rev_induct)
    case (snoc r records)
    then show ?case
      by (auto simp: measure_all_def measure_record_def Let_def observe_def compare_model_def blank_result_def)
  qed (simp add: measure_all_def new_report_def)
  then have "sorted (map (\<lambda>r. - \<bar>sint (model_vs_trace_wait_delta r)\<bar>) (rp_results (measure_all compare records)))"
    by (simp add: sorted_iff_nth_mono)
  then show ?thesis unfolding top_normalized_def by (rule sort_key_id_if_sorted)
qed

section \<open>The annotated output as an input\<close>

definition bytes_of :: "string \<Rightarrow> u8 list" where
  "bytes_of text = map of_char text"

lemma text_of_bytes_of [simp]: "text_of (bytes_of text) = text"
proof -
  have "char_of (unat (of_char c :: u8)) = c" for c
  proof -
    have "(of_char c :: u8) = of_nat (of_char c)" by (simp only: of_nat_of_char)
    moreover have "(of_char c :: nat) < 256" by simp
    ultimately have "unat (of_char c :: u8) = of_char c" by (simp only: unat_of_nat) (simp add: take_bit_nat_eq_self)
    then show ?thesis by simp
  qed
  then show ?thesis by (simp add: text_of_def bytes_of_def map_idI)
qed

lemma getlines_line: "newline \<notin> set line \<Longrightarrow> getlines (line @ newline # rest) = line # getlines rest"
  by (subst getlines.simps) (simp add: takeWhile_append dropWhile_append)

lemma getlines_rows:
  "\<forall>r \<in> set rs. newline \<notin> set (f r) \<Longrightarrow> getlines (concat (map (\<lambda>r. f r @ [newline]) rs)) = map f rs"
proof (induction rs)
  case Nil
  show ?case by (simp add: getlines.simps)
next
  case (Cons r rs)
  then show ?case using getlines_line [of "f r" "concat (map (\<lambda>r. f r @ [newline]) rs)"] by simp
qed

text \<open>No value breaks a line.\<close>

definition one_line :: "string \<Rightarrow> bool" where
  "one_line s \<longleftrightarrow> newline \<notin> set s"

lemma one_line_simps [simp]:
  "one_line []" "one_line (xs @ ys) \<longleftrightarrow> one_line xs \<and> one_line ys" "one_line (c # cs) \<longleftrightarrow> c \<noteq> newline \<and> one_line cs"
  by (auto simp: one_line_def)

lemma newline_eq: "newline = CHR 0x0A"
  by code_simp

lemma one_line_dec [simp]: "one_line (dec_word w)" "one_line (dec n)"
proof -
  have "\<not> is_digit 10 newline" by (simp add: newline_eq is_digit_def digit_value_def)
  then show "one_line (dec n)" for n using dec_digits [of n] by (auto simp: one_line_def list_all_iff)
  then show "one_line (dec_word w)" by (simp add: dec_word_def)
qed

lemma one_line_i64 [simp]: "one_line (dec_i64 w)"
  by (simp add: dec_i64_def dec_int_def newline_eq)

lemma one_line_escape [simp]: "one_line s \<Longrightarrow> one_line (json_escape s)"
  by (auto simp: one_line_def json_escape_def newline_eq)

lemma one_line_fields [simp]:
  "one_line k \<Longrightarrow> one_line v \<Longrightarrow> one_line (text_field k v)" "one_line k \<Longrightarrow> one_line v \<Longrightarrow> one_line (number_field k v)"
  "one_line k \<Longrightarrow> one_line v \<Longrightarrow> one_line (plain_field k v)"
  by (simp_all add: text_field_def number_field_def plain_field_def newline_eq)

text \<open>A row without its newline: the head, a comma, and a tail.\<close>

definition row_tail :: "bool \<Rightarrow> replay_result \<Rightarrow> string" where
  "row_tail compare r = drop (length (annotated_row_head (rr_record r) @ '','')) (butlast (annotated_row compare r))"

lemma annotated_row_split: "annotated_row compare r = (annotated_row_head (rr_record r) @ '','' @ row_tail compare r) @ [newline]"
  by (simp add: row_tail_def annotated_row_def butlast_append)

definition texts_ok :: "replay_result \<Rightarrow> bool" where
  "texts_ok r \<longleftrightarrow> one_line (ymir_wait_metric_kind r) \<and> one_line (cache_bucket r) \<and> one_line (classification r) \<and>
     one_line (known_gap_reason r)"

lemma one_line_row:
  assumes "texts_ok r" "one_line (annotated_row_head (rr_record r))"
  shows "one_line (annotated_row_head (rr_record r) @ '','' @ row_tail compare r)"
proof -
  have "annotated_row_head (rr_record r) @ '','' @ row_tail compare r = butlast (annotated_row compare r)"
    by (simp only: annotated_row_split butlast_snoc)
  moreover have "one_line (butlast (annotated_row compare r))"
    using assms by (simp add: annotated_row_def texts_ok_def butlast_append newline_eq)
  ultimately show ?thesis by simp
qed

lemma one_line_head:
  assumes "accept_raw raw i = Some r"
  shows "one_line (annotated_row_head r)"
proof -
  note v = accept_rawD [OF assms]
  have "one_line (tr_master r)" "one_line (tr_rw r)" "one_line (tr_kind r)"
    using v(1-3) by (auto simp: newline_eq)
  moreover have "one_line (addr_text r)"
  proof -
    have "CHR 0x0A \<noteq> hex_digit (n mod 16)" for n
    proof -
      have "digit_value (CHR 0x0A) = None" by (simp add: digit_value_def)
      then show ?thesis using hex_digit_value [of "n mod 16"] by force
    qed
    then show ?thesis unfolding v(4) to_hex32_eq by (simp add: one_line_def newline_eq image_iff)
  qed
  ultimately show ?thesis by (simp add: annotated_row_head_def newline_eq)
qed

lemma observe_texts: "texts_ok (compare_model a b prev (observe r)) \<and> texts_ok (observe r)"
  by (simp add: texts_ok_def observe_def compare_model_def blank_result_def Let_def classify_cache_bucket_def newline_eq)

lemma classify_texts: "texts_ok r \<Longrightarrow> texts_ok (classify r)"
  by (simp add: texts_ok_def classify_def newline_eq)

lemma measure_texts: "\<forall>r \<in> set (rp_results (measure_all compare records)). texts_ok r"
proof (induction records rule: rev_induct)
  case (snoc r records)
  have "texts_ok (observe r\<lparr>classification := ''wait_nonzero''\<rparr>)" "texts_ok (observe r\<lparr>classification := ''wait_zero''\<rparr>)"
    using observe_texts [of undefined undefined None r] by (simp_all add: texts_ok_def newline_eq)
  then show ?case
    using snoc observe_texts classify_texts by (simp add: measure_all_def measure_record_def Let_def)
qed (simp add: measure_all_def new_report_def)

text \<open>What the binary loader keeps, and how a row of it is parsed on any line.\<close>

definition from_binary :: "trace_record \<Rightarrow> bool" where
  "from_binary r \<longleftrightarrow> (\<exists>raw i. accept_raw raw i = Some r)"

lemma binary_step_loaded:
  "set (loaded (binary_step index bytes l)) \<subseteq> set (loaded l) \<union> Collect from_binary"
  by (auto simp: binary_step_def count_malformed_def count_event_def keep_record_def from_binary_def Let_def split: option.splits)

lemma binary_records_loaded:
  "set (loaded (snd (binary_records bytes index l))) \<subseteq> set (loaded l) \<union> Collect from_binary"
proof (induction bytes index l rule: binary_records.induct)
  case (1 bytes index l)
  show ?case
  proof (cases "bytes = [] \<or> length bytes < binary_record_size")
    case True
    then show ?thesis by (subst binary_records.simps) auto
  next
    case False
    then have "set (loaded (snd (binary_records bytes index l))) \<subseteq>
        set (loaded (binary_step index (take binary_record_size bytes) l)) \<union> Collect from_binary"
      using 1 by (subst binary_records.simps) simp
    then show ?thesis using binary_step_loaded [of index "take binary_record_size bytes" l] by blast
  qed
qed

lemma row_parses:
  assumes "from_binary r"
  shows "parse_record (annotated_row_head r @ '','' @ tail) (Suc n) = Some (r\<lparr>source_line := Suc n\<rparr>)"
proof -
  obtain raw i where a: "accept_raw raw i = Some r" using assms by (auto simp: from_binary_def)
  have "accept_raw raw n = Some (r\<lparr>source_line := Suc n\<rparr>)"
    using a by (elim accept_rawE) (simp add: accept_raw_def)
  from annotated_row_round_trip [OF this, of tail] show ?thesis by (simp add: annotated_row_head_def)
qed

definition number_lines :: "nat \<Rightarrow> trace_record list \<Rightarrow> trace_record list" where
  "number_lines n rs = map (\<lambda>(k, r). r\<lparr>source_line := k\<rparr>) (enumerate n rs)"

lemma reload_rows:
  fixes tail :: "replay_result \<Rightarrow> string"
  assumes "\<forall>r \<in> set results. from_binary (rr_record r)"
  defines "row \<equiv> \<lambda>r. annotated_row_head (rr_record r) @ '','' @ tail r"
  defines "reload \<equiv> \<lambda>l n. foldl jsonl_line l (enumerate (Suc n) (map row results))"
  shows "loaded (reload l n) = loaded l @ number_lines (Suc n) (map rr_record results) \<and>
    total_events (stats (reload l n)) = total_events (stats l) + length results \<and>
    malformed_lines (stats (reload l n)) = malformed_lines (stats l)"
  using assms(1) unfolding reload_def
proof (induction results arbitrary: l n)
  case (Cons r results)
  have "jsonl_line l (Suc n, row r) = keep_record (rr_record r\<lparr>source_line := Suc n\<rparr>) (count_event l)"
    using row_parses [of "rr_record r" "tail r" n] Cons.prems by (simp add: jsonl_line_def row_def Let_def)
  moreover have "loaded (keep_record x (count_event l)) = loaded l @ [x] \<and>
      total_events (stats (keep_record x (count_event l))) = Suc (total_events (stats l)) \<and>
      malformed_lines (stats (keep_record x (count_event l))) = malformed_lines (stats l)" for x
    by (simp add: keep_record_def count_event_def Let_def split: option.splits)
  ultimately show ?case
    using Cons by (simp add: number_lines_def)
qed (simp add: number_lines_def)

lemma from_binary_master: "from_binary r \<Longrightarrow> valid_master r"
  by (auto simp: from_binary_def valid_master_def parse_master_def dest: accept_rawD(1))

text \<open>
  (C34) The annotated output of a binary trace is the trace. Whatever bytes a BTR1 file holds, with or without
  the model comparison, the rows the tool writes for it load again as JSON lines: every row is a record, none
  is malformed, and the records are those of the binary file in replay order, numbered by their lines.
\<close>

theorem annotated_output_reloads:
  assumes "load_binary_records (Some bytes) [] no_stats = (ok, records, st)" "annotated_limit opts = None"
  shows "\<exists>st'. load_jsonl_records (Some (bytes_of (annotated_output opts (rp_results (measure_all
      (include_model_comparison opts) (filtered_records (build_dataset records st))))))) [] no_stats =
    (True, number_lines 1 (replay_order records), st') \<and>
    total_events st' = length records \<and> malformed_lines st' = 0"
proof -
  let ?c = "include_model_comparison opts"
  define results where "results = rp_results (measure_all ?c (filtered_records (build_dataset records st)))"
  have binary: "\<forall>r \<in> set records. from_binary r"
    using assms(1) binary_records_loaded [of "drop 8 bytes" 0 "new_loader [] no_stats"]
    by (auto simp: load_binary_records_def new_loader_def split: if_splits prod.splits)
  have "filtered_records (build_dataset records st) = filter valid_master (replay_order records)"
    by (simp add: build_dataset_def include_all no_dataset_def Let_def)
  also have "\<dots> = replay_order records"
    using binary from_binary_master by (simp add: filter_id_conv replay_order_def)
  finally have order: "map rr_record results = replay_order records"
    using measure_all_tallied by (simp add: results_def)
  have size: "length results = length records"
    using arg_cong [OF order, of length] by (simp add: replay_order_def)
  have ok: "\<forall>r \<in> set results. from_binary (rr_record r)"
  proof
    fix r assume "r \<in> set results"
    then have "rr_record r \<in> set (replay_order records)" unfolding order [symmetric] by simp
    then show "from_binary (rr_record r)" using binary by (simp add: replay_order_def)
  qed
  let ?row = "\<lambda>r. annotated_row_head (rr_record r) @ '','' @ row_tail ?c r"
  have "\<forall>r \<in> set results. newline \<notin> set (?row r)"
    using ok one_line_row measure_texts [of ?c] one_line_head
    unfolding results_def from_binary_def one_line_def [symmetric] by blast
  then have lines: "getlines (annotated_output opts results) = map ?row results"
  proof -
    assume l: "\<forall>r \<in> set results. newline \<notin> set (?row r)"
    have "annotated_row ?c = (\<lambda>r. ?row r @ [newline])" by (intro ext annotated_row_split)
    then have "annotated_output opts results = concat (map (\<lambda>r. ?row r @ [newline]) results)"
      by (simp add: annotated_output_def assms(2))
    then show ?thesis by (simp only: getlines_rows [OF l])
  qed
  show ?thesis
    using reload_rows [OF ok, where tail = "row_tail ?c" and l = "new_loader [] no_stats" and n = 0] size
    unfolding results_def [symmetric]
    by (simp add: load_jsonl_records_def lines order Let_def new_loader_def no_stats_def replay_order_def)
qed

text \<open>Two records, the second of which completes first.\<close>

definition two_record_file :: "u8 list" where
  "two_record_file = bytes_of ''BTR1'' @ [1, 0, 48, 0] @ (replicate 48 0)[0 := 7, 16 := 3, 44 := 4] @
     (replicate 48 0)[0 := 8, 16 := 2, 44 := 1, 45 := 1]"

lemma annotated_output_reloads_witness:
  "\<exists>records st st'. load_binary_records (Some two_record_file) [] no_stats = (True, records, st) \<and>
     map tr_seq (replay_order records) = [8, 7] \<and>
     load_jsonl_records (Some (bytes_of (annotated_output default_options (rp_results (measure_all False
        (filtered_records (build_dataset records st))))))) [] no_stats =
      (True, number_lines 1 (replay_order records), st')"
proof -
  obtain ok records st where l: "load_binary_records (Some two_record_file) [] no_stats = (ok, records, st)"
    by (metis prod_cases3)
  have "fst (load_binary_records (Some two_record_file) [] no_stats) \<and>
      map tr_seq (replay_order (fst (snd (load_binary_records (Some two_record_file) [] no_stats)))) = [8, 7]"
    by code_simp
  then have o: "ok" "map tr_seq (replay_order records) = [8, 7]" by (simp_all add: l)
  have d: "annotated_limit default_options = None" "include_model_comparison default_options = False"
    by (simp_all add: default_options_def)
  obtain st' where "load_jsonl_records (Some (bytes_of (annotated_output default_options (rp_results (measure_all False
        (filtered_records (build_dataset records st))))))) [] no_stats = (True, number_lines 1 (replay_order records), st')"
    using annotated_output_reloads [OF l d(1)] unfolding d(2) by blast
  then show ?thesis using l o by auto
qed

text \<open>
  The consistency checks of the tool cannot fail. For any records, with or without the model
  comparison, the loop makes one result per record, in order, puts each in exactly one class, and the tool
  never ends with one of its two invariant errors.
\<close>

theorem report_checks_never_fail:
  "check_report compare (measure_all compare records) = None \<and>
   map rr_record (rp_results (measure_all compare records)) = records \<and>
   known_gap_byte_access_count (measure_all compare records) = known_gap_count (measure_all compare records)"
proof -
  note m = measure_all_tallied [of compare records]
  then show ?thesis by (simp add: check_report_def tallied_def)
qed

end
