(* ===== verification/ReplayConsole.thy ===== *)
theory ReplayConsole
  imports ReplayReport
begin

text \<open>
  What the replay tool prints (\<open>src/tools/trace_replay/trace_replay.cpp\<close>, the end of \<open>main\<close> and \<open>print_help\<close>): the
  hygiene summary, the counts, the histogram and the ranked lists; and the same report recounted from the
  records, which the tables and counters of the one pass are shown to agree with.
\<close>

section \<open>Lines\<close>

text \<open>\<open>for (const auto &[key, count] : map)\<close>, one line per entry in the order of the keys.\<close>

definition table_lines :: "string \<Rightarrow> distribution \<Rightarrow> string" where
  "table_lines indent m = concat (map (\<lambda>(key, count). indent @ key @ '' => '' @ dec count @ [newline]) (RBT.entries m))"

definition count_line :: "string \<Rightarrow> nat \<Rightarrow> string" where
  "count_line name n = name @ '': '' @ dec n @ [newline]"

definition text_line :: "string \<Rightarrow> string" where
  "text_line s = s @ [newline]"

section \<open>The report\<close>

definition hygiene_summary :: "dataset \<Rightarrow> input_stats \<Rightarrow> string" where
  "hygiene_summary d st =
    text_line ''dataset_hygiene_summary:'' @
    count_line ''  total_events'' (total_events st) @
    count_line ''  included_events'' (length (filtered_records d)) @
    count_line ''  excluded_events'' (excluded_events d st) @
    count_line ''  excluded_malformed_line'' (count_of ''malformed_line'' (excluded_reason_counts d)) @
    count_line ''  excluded_invalid_master'' (count_of ''invalid_master'' (excluded_reason_counts d)) @
    count_line ''  known_gap_bucket_byte_access_wait_check_gap_candidate''
      (count_of ''byte_access_wait_check_gap_candidate'' (known_gap_bucket_counts d)) @
    text_line ''  master_distribution:'' @ table_lines ''    '' (master_distribution d) @
    text_line ''  region_distribution:'' @ table_lines ''    '' (region_distribution d) @
    text_line ''  size_distribution:'' @ table_lines ''    '' (size_distribution d) @
    text_line ''  rw_distribution:'' @ table_lines ''    '' (rw_distribution d) @
    text_line ''  access_kind_distribution:'' @ table_lines ''    '' (access_kind_distribution d) @
    text_line ''  cache_bucket_distribution:'' @ table_lines ''    '' (cache_bucket_distribution d)"

definition final_drift :: "(replay_result \<Rightarrow> i64) \<Rightarrow> report \<Rightarrow> i64" where
  "final_drift drift p = (if rp_results p = [] then 0 else drift (last (rp_results p)))"

definition counts_summary :: "bool \<Rightarrow> input_stats \<Rightarrow> report \<Rightarrow> string" where
  "counts_summary compare st p =
    count_line ''records_processed'' (length (rp_results p)) @
    count_line ''malformed_lines_skipped'' (malformed_lines st) @
    count_line ''duplicate_seq_count'' (duplicate_seq_count st) @
    count_line ''non_monotonic_seq_count'' (non_monotonic_seq_count st) @
    (if compare then
       text_line ''Model comparison: ENABLED (hypothesis mode)'' @
       count_line ''agreement_count'' (cumulative_agreement_count p) @
       count_line ''mismatch_count'' (cumulative_mismatch_count p) @
       count_line ''known_gap_count'' (known_gap_count p) @
       count_line ''normalized_agreement_count'' (normalized_agreement_count p) @
       count_line ''normalized_mismatch_count'' (normalized_mismatch_count p) @
       text_line (''final_cumulative_drift_total: '' @ dec_i64 (final_drift cumulative_drift_total p))
     else text_line ''Model comparison: DISABLED (trace-only mode)'') @
    text_line ''delta_histogram:'' @ table_lines ''  '' (histogram p)"

text \<open>The ranked lists: at most \<open>top_k\<close> lines, numbered from one.\<close>

definition ranked_lines :: "(replay_result \<Rightarrow> string) \<Rightarrow> nat \<Rightarrow> replay_result list \<Rightarrow> string" where
  "ranked_lines row k results =
    concat (map (\<lambda>(i, r). ''  #'' @ dec i @ '' seq='' @ dec_word (tr_seq (rr_record r)) @ row r @
      '' class='' @ classification r @ [newline]) (enumerate 1 (take k results)))"

definition cumulative_row :: "replay_result \<Rightarrow> string" where
  "cumulative_row r = '' cumulative_drift_total='' @ dec_i64 (cumulative_drift_total r) @
     '' normalized_delta_wait='' @ dec_i64 (normalized_delta_wait r)"

definition normalized_row :: "replay_result \<Rightarrow> string" where
  "normalized_row r = '' normalized_delta_wait='' @ dec_i64 (normalized_delta_wait r) @
     '' cumulative_drift_total='' @ dec_i64 (cumulative_drift_total r)"

definition console_report :: "options \<Rightarrow> input_stats \<Rightarrow> dataset \<Rightarrow> report \<Rightarrow> string" where
  "console_report opts st d p =
    hygiene_summary d st @ counts_summary (include_model_comparison opts) st p @
    (if include_model_comparison opts then
       text_line ''top_cumulative_drifts:'' @
       ranked_lines cumulative_row (top_k opts) (top_cumulative (rp_results p)) @
       text_line ''top_normalized_deltas:'' @
       ranked_lines normalized_row (top_k opts) (top_normalized (rp_results p))
     else [])"

definition help_text :: string where
  "help_text = concat (map text_line
    [''Usage: trace_replay <input.{jsonl|bin}> [options]'',
     ''  --annotated-output <path>   Write annotated JSONL'',
     ''  --summary-output <path>     Write machine-readable summary JSON'',
     ''  --summary-only              Skip annotated output even if path supplied'',
     ''  --include-model-comparison  Enable arbiter/model-comparison metrics (hypothesis-only)'',
     ''  --annotated-limit <N>       Emit first N annotated rows'',
     ''  --top <N>                   Legacy alias for --top-k'',
     ''  --top-k <N>                 Number of ranked entries to emit'',
     ''  --help                      Show this help'',
     ''Schema: Phase 1 per-successful-access JSONL records or BTR1 binary v1 records.'',
     ''Comparative replay only: keeps recorded Ymir ticks; does not retime downstream records.''])"

section \<open>The report recounted\<close>

text \<open>The lines of a distribution from the records alone: each key that occurs, in order, with its number of records.\<close>

definition counted_lines :: "string \<Rightarrow> ('a \<Rightarrow> string) \<Rightarrow> 'a list \<Rightarrow> string" where
  "counted_lines indent key xs = concat (map (\<lambda>k. indent @ k @ '' => '' @ dec (length (filter (\<lambda>x. key x = k) xs)) @ [newline])
     (sorted_list_of_set (key ` set xs)))"

definition table_of :: "('a \<Rightarrow> string) \<Rightarrow> 'a list \<Rightarrow> distribution" where
  "table_of key xs = foldl (\<lambda>m x. bump (key x) m) RBT.empty xs"

lemma table_of_snoc [simp]: "table_of key (xs @ [x]) = bump (key x) (table_of key xs)"
  by (simp add: table_of_def)

lemma table_of_Nil [simp]: "table_of key [] = RBT.empty"
  by (simp add: table_of_def)

lemma lookup_table_of:
  "RBT.lookup (table_of key xs) k = (if k \<in> key ` set xs then Some (length (filter (\<lambda>x. key x = k) xs)) else None)"
proof (induction xs rule: rev_induct)
  case (snoc x xs)
  then show ?case by (auto simp: bump_def filter_empty_conv) (metis imageI)
qed simp

lemma table_lines_counted: "table_lines indent (table_of key xs) = counted_lines indent key xs"
proof -
  let ?m = "table_of key xs"
  have d: "dom (RBT.lookup ?m) = key ` set xs" by (auto simp: lookup_table_of split: if_splits)
  then have keys: "RBT.keys ?m = sorted_list_of_set (key ` set xs)"
    by (intro sorted_distinct_set_unique) (simp_all add: RBT.lookup_keys [symmetric])
  have "RBT.entries ?m = map (\<lambda>k. (k, length (filter (\<lambda>x. key x = k) xs))) (RBT.keys ?m)"
  proof -
    have "snd e = length (filter (\<lambda>x. key x = fst e) xs)" if "e \<in> set (RBT.entries ?m)" for e
      using that RBT.lookup_in_tree [of ?m "fst e" "snd e"] by (simp add: lookup_table_of split: if_splits)
    then show ?thesis by (simp add: RBT.keys_def_alt map_idI prod_eq_iff)
  qed
  then show ?thesis by (simp add: table_lines_def counted_lines_def keys comp_def)
qed

text \<open>Every table of the dataset is a count over the included records.\<close>

definition cache_bucket_of :: "trace_record \<Rightarrow> string" where
  "cache_bucket_of r = classify_cache_bucket (tr_addr r) (tr_service_cycles r)"

lemma dataset_tables:
  fixes records :: "trace_record list"
  defines "d \<equiv> foldl include_record no_dataset records" and "included \<equiv> filter valid_master records"
  shows "filtered_records d = included \<and> master_distribution d = table_of tr_master included \<and>
    region_distribution d = table_of (\<lambda>r. region_name (tr_addr r)) included \<and>
    size_distribution d = table_of (\<lambda>r. size_label (tr_size r)) included \<and>
    rw_distribution d = table_of tr_rw included \<and> access_kind_distribution d = table_of tr_kind included \<and>
    cache_bucket_distribution d = table_of cache_bucket_of included \<and>
    count_of ''byte_access_wait_check_gap_candidate'' (known_gap_bucket_counts d) = length (filter (\<lambda>r. tr_size r = 1) included)"
  unfolding d_def included_def
proof (induction records rule: rev_induct)
  case Nil
  show ?case by (simp add: no_dataset_def count_of_def)
next
  case (snoc r records)
  then show ?case
    by (simp add: include_record_def valid_master_def Let_def cache_bucket_of_def count_of_bump)
qed

text \<open>Every counter of the loop is a count over its results.\<close>

definition histogram_key :: "replay_result \<Rightarrow> string" where
  "histogram_key r = region_name (tr_addr (rr_record r)) @ '' | '' @ classification r"

definition number_of :: "('a \<Rightarrow> bool) \<Rightarrow> 'a list \<Rightarrow> nat" where
  "number_of f xs = length (filter f xs)"

lemma number_of_simps [simp]:
  "number_of f [] = 0" "number_of f (xs @ [x]) = number_of f xs + (if f x then 1 else 0)"
  by (simp_all add: number_of_def)

definition counts_ok :: "bool \<Rightarrow> report \<Rightarrow> bool" where
  "counts_ok compare p \<longleftrightarrow> histogram p = table_of histogram_key (rp_results p) \<and>
     (compare \<longrightarrow> cumulative_agreement_count p = number_of (\<lambda>r. classification r = ''agreement'') (rp_results p) \<and>
        cumulative_mismatch_count p = number_of (\<lambda>r. classification r = ''mismatch'') (rp_results p) \<and>
        known_gap_count p = number_of (\<lambda>r. classification r = ''known_ymir_wait_model_gap'') (rp_results p) \<and>
        normalized_agreement_count p = number_of (\<lambda>r. normalized_delta_wait r = 0) (rp_results p) \<and>
        normalized_mismatch_count p = number_of (\<lambda>r. normalized_delta_wait r \<noteq> 0) (rp_results p))"

lemma classify_counted:
  "cumulative_agreement_count (count_class r p) = cumulative_agreement_count p + of_bool (classification (classify r) = ''agreement'')"
  "cumulative_mismatch_count (count_class r p) = cumulative_mismatch_count p + of_bool (classification (classify r) = ''mismatch'')"
  "known_gap_count (count_class r p) =
     known_gap_count p + of_bool (classification (classify r) = ''known_ymir_wait_model_gap'')"
  "histogram (count_class r p) = histogram p"
  by (simp_all add: count_class_def classify_def)

lemma normalized_counted:
  "normalized_agreement_count (count_normalized r p) = normalized_agreement_count p + of_bool (normalized_delta_wait r = 0)"
  "normalized_mismatch_count (count_normalized r p) = normalized_mismatch_count p + of_bool (normalized_delta_wait r \<noteq> 0)"
  "histogram (count_normalized r p) = bump (histogram_key r) (histogram p)"
  by (simp_all add: count_normalized_def Let_def histogram_key_def)

lemma measure_record_counts:
  assumes "counts_ok compare p"
  shows "counts_ok compare (measure_record compare p r)"
proof (cases compare)
  case True
  define after where "after = commit_grant ymir_access_cycles (rp_arbiter p) (request_of r) (tick_first_attempt r) False"
  define x where "x = compare_model (rp_arbiter p) after (rp_previous p) (observe r)"
  let ?q = "p\<lparr>observed_buckets := observe_bucket (observe r) (observed_buckets p), rp_arbiter := after\<rparr>"
  have "measure_record compare p r = (count_normalized (classify x) (count_class x ?q))\<lparr>rp_results := rp_results p @ [classify x],
      rp_previous := Some r\<rparr>"
    by (simp add: True measure_record_def Let_def after_def x_def)
  then show ?thesis
    using assms by (simp add: True counts_ok_def classify_counted normalized_counted of_bool_def)
next
  case False
  then show ?thesis using assms by (simp add: counts_ok_def measure_record_def Let_def histogram_key_def)
qed

lemma measure_counts: "counts_ok compare (measure_all compare records)"
proof (induction records rule: rev_induct)
  case Nil
  show ?case by (simp add: counts_ok_def measure_all_def new_report_def)
next
  case (snoc r records)
  then show ?case using measure_record_counts by (simp add: measure_all_def)
qed

section \<open>The report as a function of the records\<close>

definition hygiene_spec :: "input_stats \<Rightarrow> trace_record list \<Rightarrow> trace_record list \<Rightarrow> string" where
  "hygiene_spec st records included =
    text_line ''dataset_hygiene_summary:'' @
    count_line ''  total_events'' (total_events st) @
    count_line ''  included_events'' (length included) @
    count_line ''  excluded_events'' (total_events st - length included) @
    count_line ''  excluded_malformed_line'' (malformed_lines st) @
    count_line ''  excluded_invalid_master'' (number_of (\<lambda>r. \<not> valid_master r) records) @
    count_line ''  known_gap_bucket_byte_access_wait_check_gap_candidate'' (number_of (\<lambda>r. tr_size r = 1) included) @
    text_line ''  master_distribution:'' @ counted_lines ''    '' tr_master included @
    text_line ''  region_distribution:'' @ counted_lines ''    '' (\<lambda>r. region_name (tr_addr r)) included @
    text_line ''  size_distribution:'' @ counted_lines ''    '' (\<lambda>r. size_label (tr_size r)) included @
    text_line ''  rw_distribution:'' @ counted_lines ''    '' tr_rw included @
    text_line ''  access_kind_distribution:'' @ counted_lines ''    '' tr_kind included @
    text_line ''  cache_bucket_distribution:'' @ counted_lines ''    '' cache_bucket_of included"

lemma number_of_permuted: "mset xs = mset ys \<Longrightarrow> number_of f xs = number_of f ys"
  unfolding number_of_def by (metis mset_filter size_mset)

lemma hygiene_recounted:
  "hygiene_summary (build_dataset records st) st = hygiene_spec st records (filter valid_master (replay_order records))"
proof -
  let ?d = "foldl include_record no_dataset (replay_order records)"
  have "length (filter (\<lambda>r. \<not> valid_master r) (replay_order records)) = number_of (\<lambda>r. \<not> valid_master r) records"
    using number_of_permuted [of "replay_order records" records] by (simp add: number_of_def replay_order_def)
  then have "count_of ''invalid_master'' (excluded_reason_counts ?d) = number_of (\<lambda>r. \<not> valid_master r) records"
    "count_of ''malformed_line'' (excluded_reason_counts ?d) = 0"
    by (simp_all add: include_all no_dataset_def) (simp_all add: count_of_def)
  then show ?thesis
    using dataset_tables [of "replay_order records"]
    by (simp add: hygiene_summary_def hygiene_spec_def build_dataset_def Let_def count_of_add_count excluded_events_def
        table_lines_counted number_of_def)
qed

definition counts_spec :: "bool \<Rightarrow> input_stats \<Rightarrow> replay_result list \<Rightarrow> string" where
  "counts_spec compare st results =
    count_line ''records_processed'' (length results) @
    count_line ''malformed_lines_skipped'' (malformed_lines st) @
    count_line ''duplicate_seq_count'' (duplicate_seq_count st) @
    count_line ''non_monotonic_seq_count'' (non_monotonic_seq_count st) @
    (if compare then
       text_line ''Model comparison: ENABLED (hypothesis mode)'' @
       count_line ''agreement_count'' (number_of (\<lambda>r. classification r = ''agreement'') results) @
       count_line ''mismatch_count'' (number_of (\<lambda>r. classification r = ''mismatch'') results) @
       count_line ''known_gap_count'' (number_of (\<lambda>r. classification r = ''known_ymir_wait_model_gap'') results) @
       count_line ''normalized_agreement_count'' (number_of (\<lambda>r. normalized_delta_wait r = 0) results) @
       count_line ''normalized_mismatch_count'' (number_of (\<lambda>r. normalized_delta_wait r \<noteq> 0) results) @
       text_line (''final_cumulative_drift_total: '' @
         dec_i64 (if results = [] then 0 else cumulative_drift_total (last results)))
     else text_line ''Model comparison: DISABLED (trace-only mode)'') @
    text_line ''delta_histogram:'' @ counted_lines ''  '' histogram_key results"

text \<open>The second ranking lists the results in their order: nothing assigns its key.\<close>

definition console_spec :: "options \<Rightarrow> input_stats \<Rightarrow> trace_record list \<Rightarrow> replay_result list \<Rightarrow> string" where
  "console_spec opts st records results =
    hygiene_spec st records (map rr_record results) @ counts_spec (include_model_comparison opts) st results @
    (if include_model_comparison opts then
       text_line ''top_cumulative_drifts:'' @ ranked_lines cumulative_row (top_k opts) (top_cumulative results) @
       text_line ''top_normalized_deltas:'' @ ranked_lines normalized_row (top_k opts) results
     else [])"

text \<open>
  (C36) The console report counts what it says it counts. The tool fills its tables and counters in one pass over
  the records; what it prints is what a recount gives: every distribution lists, in order, each key that occurs
  with the number of included records that have it, the classes and the histogram count the results, and the
  ranked list is at most \<open>top_k\<close> results by decreasing drift. (The second ranking is in input order.)
\<close>

theorem console_report_recounts:
  "let c = include_model_comparison opts; d = build_dataset records st; p = measure_all c (filtered_records d) in
     console_report opts st d p = console_spec opts st records (rp_results p) \<and>
     filtered_records d = filter valid_master (replay_order records) \<and>
     map rr_record (rp_results p) = filtered_records d \<and>
     sorted (map (\<lambda>r. - \<bar>sint (cumulative_drift_total r)\<bar>) (top_cumulative (rp_results p))) \<and>
     mset (top_cumulative (rp_results p)) = mset (rp_results p)"
proof -
  let ?c = "include_model_comparison opts" and ?d = "build_dataset records st"
  define p where "p = measure_all ?c (filtered_records ?d)"
  have f: "filtered_records ?d = filter valid_master (replay_order records)"
    by (simp add: build_dataset_def include_all no_dataset_def Let_def)
  have r: "map rr_record (rp_results p) = filtered_records ?d" using measure_all_tallied by (simp add: p_def)
  have "counts_ok ?c p" unfolding p_def by (rule measure_counts)
  then have "counts_summary ?c st p = counts_spec ?c st (rp_results p)"
    by (simp add: counts_summary_def counts_spec_def counts_ok_def table_lines_counted final_drift_def)
  moreover have "hygiene_summary ?d st = hygiene_spec st records (map rr_record (rp_results p))"
    by (simp add: hygiene_recounted r f)
  moreover have "top_normalized (rp_results p) = rp_results p" unfolding p_def by (rule top_normalized_ranks_nothing)
  ultimately have "console_report opts st ?d p = console_spec opts st records (rp_results p)"
    by (simp add: console_report_def console_spec_def)
  then show ?thesis
    unfolding p_def [symmetric] Let_def using f r by (simp add: top_cumulative_def)
qed

end
