(* ===== verification/ReplaySummary.thy ===== *)
theory ReplaySummary
  imports ReplayConsole Complex_Main
begin

text \<open>
  The summary file of the replay tool (\<open>src/tools/trace_replay/trace_replay.cpp\<close>): percentiles and rates, the
  symmetry checks of the two CPUs, and the JSON text. Floating-point arithmetic is a parameter: the record \<open>doubles\<close>
  holds the conversions, literals, operations and the printing the code uses, with no assumption about them.
\<close>

section \<open>Floating point\<close>

text \<open>
  \<open>double\<close>: the conversions from counters and from 64-bit deltas, the decimal literals (\<open>literal m e\<close> is
  the one that spells \<open>m\<close> over ten to the \<open>e\<close>), the operations of the code, and what the stream prints.
\<close>

record 'd doubles =
  of_count :: "nat \<Rightarrow> 'd"
  of_delta :: "i64 \<Rightarrow> 'd"
  literal :: "nat \<Rightarrow> nat \<Rightarrow> 'd"
  d_add :: "'d \<Rightarrow> 'd \<Rightarrow> 'd"
  d_sub :: "'d \<Rightarrow> 'd \<Rightarrow> 'd"
  d_mul :: "'d \<Rightarrow> 'd \<Rightarrow> 'd"
  d_div :: "'d \<Rightarrow> 'd \<Rightarrow> 'd"
  d_fabs :: "'d \<Rightarrow> 'd"
  d_greater :: "'d \<Rightarrow> 'd \<Rightarrow> bool"
  d_floor :: "'d \<Rightarrow> nat"
  d_ceil :: "'d \<Rightarrow> nat"
  d_show :: "'d \<Rightarrow> string"

text \<open>\<open>std::size_t\<close> of \<open>floor\<close> and \<open>ceil\<close> index the sorted vector.\<close>

definition percentile :: "'d doubles \<Rightarrow> i64 list \<Rightarrow> 'd \<Rightarrow> 'd" where
  "percentile D values pct =
    (if values = [] then literal D 0 0
     else let sorted_values = sort_key sint values;
              index = d_mul D pct (of_count D (length values - 1));
              lo = d_floor D index; hi = d_ceil D index
       in if lo = hi then of_delta D (sorted_values ! lo)
          else let frac = d_sub D index (of_count D lo)
            in d_add D (of_delta D (sorted_values ! lo))
                 (d_mul D (d_sub D (of_delta D (sorted_values ! hi)) (of_delta D (sorted_values ! lo))) frac))"

definition ratio :: "'d doubles \<Rightarrow> 'd \<Rightarrow> nat \<Rightarrow> 'd" where
  "ratio D x n = (if n = 0 then literal D 0 0 else d_div D x (of_count D n))"

abbreviation "p50 D \<equiv> literal D 5 1"
abbreviation "p90 D \<equiv> literal D 9 1"
abbreviation "p99 D \<equiv> literal D 99 2"

section \<open>Symmetry of the two CPUs\<close>

type_synonym candidate = "observed_bucket_stats option \<times> observed_bucket_stats option"

text \<open>A key is split at its first delimiter, and skipped when it has fewer than three.\<close>

definition add_candidate :: "candidate table \<Rightarrow> string \<times> observed_bucket_stats \<Rightarrow> candidate table" where
  "add_candidate t e =
    (let (key, stats) = e; delim = '' | ''
     in case find_text delim key 0 of None \<Rightarrow> t
        | Some p1 \<Rightarrow> (case find_text delim key (p1 + 3) of None \<Rightarrow> t
        | Some p2 \<Rightarrow> (case find_text delim key (p2 + 3) of None \<Rightarrow> t
        | Some _ \<Rightarrow>
            (let master = take p1 key; rest = drop (p1 + 3) key;
                 old = (case RBT.lookup t rest of None \<Rightarrow> (None, None) | Some c \<Rightarrow> c)
             in if master = ''MSH2'' then RBT.insert rest (Some stats, snd old) t
                else if master = ''SSH2'' then RBT.insert rest (fst old, Some stats) t
                else t))))"

definition symmetry_candidates :: "observed_bucket_stats table \<Rightarrow> candidate table" where
  "symmetry_candidates m = foldl add_candidate RBT.empty (RBT.entries m)"

record symmetry_entry =
  se_bucket :: string
  se_msh2 :: observed_bucket_stats
  se_ssh2 :: observed_bucket_stats
  se_symmetric :: bool
  se_notes :: string

definition wait_rate :: "'d doubles \<Rightarrow> observed_bucket_stats \<Rightarrow> 'd" where
  "wait_rate D b = ratio D (of_count D (observed_wait_nonzero_count b)) (sample_size b)"

fun join_notes :: "string list \<Rightarrow> string" where
  "join_notes [] = []"
| "join_notes [x] = x"
| "join_notes (x # y # ys) = x @ '','' @ join_notes (y # ys)"

definition divergence_notes :: "'d doubles \<Rightarrow> observed_bucket_stats \<Rightarrow> observed_bucket_stats \<Rightarrow> string list" where
  "divergence_notes D a b =
    (let elapsed = (\<lambda>q. d_fabs D (d_sub D (percentile D (observed_elapsed_values a) q) (percentile D (observed_elapsed_values b) q)))
     in (if d_greater D (elapsed (p50 D)) (literal D 1 0) then [''elapsed_p50''] else []) @
        (if d_greater D (elapsed (p99 D)) (literal D 2 0) then [''elapsed_p99''] else []) @
        (if d_greater D (d_fabs D (d_sub D (wait_rate D a) (wait_rate D b))) (literal D 1 2) then [''wait_nonzero_rate''] else []))"

definition symmetry_check :: "'d doubles \<Rightarrow> string \<times> candidate \<Rightarrow> symmetry_entry option" where
  "symmetry_check D e =
    (case e of
       (bucket, Some a, Some b) \<Rightarrow>
         if sample_size a < 100 \<or> sample_size b < 100 then None
         else (let notes = divergence_notes D a b
               in Some \<lparr>se_bucket = bucket, se_msh2 = a, se_ssh2 = b, se_symmetric = (notes = []),
                        se_notes = join_notes notes\<rparr>)
     | _ \<Rightarrow> None)"

definition symmetry_checks :: "'d doubles \<Rightarrow> observed_bucket_stats table \<Rightarrow> symmetry_entry list" where
  "symmetry_checks D m = List.map_filter (symmetry_check D) (RBT.entries (symmetry_candidates m))"

section \<open>The text of the file\<close>

text \<open>Lines separated by commas: all but the last end in one.\<close>

fun comma_lines :: "string list \<Rightarrow> string" where
  "comma_lines [] = []"
| "comma_lines [x] = x @ [newline]"
| "comma_lines (x # y # ys) = x @ '','' @ [newline] @ comma_lines (y # ys)"

definition named :: "string \<Rightarrow> string \<Rightarrow> string" where
  "named indent name = indent @ [quote] @ name @ [quote] @ '': ''"

definition field_line :: "string \<Rightarrow> string \<Rightarrow> string \<Rightarrow> string" where
  "field_line indent name v = named indent name @ v @ '','' @ [newline]"

definition shown_text :: "string \<Rightarrow> string" where
  "shown_text s = [quote] @ json_escape s @ [quote]"

definition shown_bool :: "bool \<Rightarrow> string" where
  "shown_bool b = (if b then ''true'' else ''false'')"

text \<open>\<open>{"a": 1, "b": 2}\<close> on one line\<close>

definition inline_object :: "(string \<times> string) list \<Rightarrow> string" where
  "inline_object members = ''{'' @ concat (map (\<lambda>(i, (name, v)). (if i = 0 then [] else '', '') @ named [] name @ v)
     (enumerate 0 members)) @ ''}''"

definition json_counts :: "string \<Rightarrow> distribution \<Rightarrow> string" where
  "json_counts indent m = comma_lines (map (\<lambda>(k, n). named indent (json_escape k) @ dec n) (RBT.entries m))"

definition write_map :: "string \<Rightarrow> distribution \<Rightarrow> string" where
  "write_map name m = named ''  '' name @ ''{'' @ [newline] @ json_counts ''    '' m @ ''  },'' @ [newline]"

definition summary_head :: "dataset \<Rightarrow> input_stats \<Rightarrow> report \<Rightarrow> string" where
  "summary_head d st p =
    ''{'' @ [newline] @
    field_line ''  '' ''summary_schema_version'' ''4'' @
    field_line ''  '' ''records_processed'' (dec (length (rp_results p))) @
    field_line ''  '' ''malformed_lines_skipped'' (dec (malformed_lines st)) @
    field_line ''  '' ''duplicate_seq_count'' (dec (duplicate_seq_count st)) @
    field_line ''  '' ''non_monotonic_seq_count'' (dec (non_monotonic_seq_count st)) @
    field_line ''  '' ''total_events'' (dec (total_events st)) @
    field_line ''  '' ''included_events'' (dec (length (filtered_records d))) @
    field_line ''  '' ''excluded_events'' (dec (excluded_events d st)) @
    named ''  '' ''trace_observed'' @ ''{'' @ [newline] @
    field_line ''    '' ''source'' (shown_text ''TRACE_ONLY'') @
    field_line ''    '' ''records_processed'' (dec (length (rp_results p))) @
    named ''    '' ''observed_wait_nonzero_count'' @ dec (length (filter (\<lambda>r. ymir_wait r > 0) (rp_results p))) @ [newline] @
    ''  },'' @ [newline]"

text \<open>The sums of the loop over the results are 64 bits wide; the mean of the deltas is a signed sum.\<close>

definition sum_of :: "(replay_result \<Rightarrow> u32) \<Rightarrow> replay_result list \<Rightarrow> u64" where
  "sum_of f results = foldl (\<lambda>s r. s + ucast (f r)) 0 results"

definition mean_of :: "'d doubles \<Rightarrow> (replay_result \<Rightarrow> u32) \<Rightarrow> replay_result list \<Rightarrow> 'd" where
  "mean_of D f results = ratio D (of_count D (unat (sum_of f results))) (length results)"

definition mean_normalized_delta_wait :: "'d doubles \<Rightarrow> i64 list \<Rightarrow> 'd" where
  "mean_normalized_delta_wait D deltas = ratio D (of_delta D (foldl (+) 0 deltas)) (length deltas)"

text \<open>The statistics both model sections print, under their names.\<close>

definition delta_statistics :: "'d doubles \<Rightarrow> string \<Rightarrow> string \<Rightarrow> report \<Rightarrow> string" where
  "delta_statistics D indent name p =
    (let deltas = normalized_wait_deltas p; results = rp_results p;
         rate = (\<lambda>drift. ratio D (of_delta D (final_drift drift p)) (length results)) in
     field_line indent (''mean_'' @ name) (d_show D (mean_normalized_delta_wait D deltas)) @
     field_line indent (''median_'' @ name) (d_show D (percentile D deltas (p50 D))) @
     field_line indent (''max_'' @ name)
       (d_show D (if deltas = [] then literal D 0 0 else percentile D deltas (literal D 1 0))) @
     field_line indent (''p90_'' @ name) (d_show D (percentile D deltas (p90 D))) @
     field_line indent (''p99_'' @ name) (d_show D (percentile D deltas (p99 D))) @
     field_line indent ''final_cumulative_drift_wait'' (dec_i64 (final_drift cumulative_drift_wait p)) @
     field_line indent ''final_cumulative_drift_total'' (dec_i64 (final_drift cumulative_drift_total p)) @
     field_line indent ''drift_rate_wait_per_record'' (d_show D (rate cumulative_drift_wait)) @
     field_line indent ''drift_rate_total_per_record'' (d_show D (rate cumulative_drift_total)))"

definition summary_model_head :: "'d doubles \<Rightarrow> report \<Rightarrow> string" where
  "summary_model_head D p =
    (let results = rp_results p in
     field_line ''  '' ''agreement_count'' (dec (cumulative_agreement_count p)) @
     field_line ''  '' ''mismatch_count'' (dec (cumulative_mismatch_count p)) @
     field_line ''  '' ''known_gap_count'' (dec (known_gap_count p)) @
     field_line ''  '' ''known_gap_byte_access_count'' (dec (known_gap_byte_access_count p)) @
     field_line ''  '' ''normalized_agreement_count'' (dec (normalized_agreement_count p)) @
     field_line ''  '' ''normalized_mismatch_count'' (dec (normalized_mismatch_count p)) @
     field_line ''  '' ''mean_base_latency'' (d_show D (mean_of D base_latency_of results)) @
     field_line ''  '' ''mean_contention_stall'' (d_show D (mean_of D contention_stall results)) @
     field_line ''  '' ''mean_total_predicted'' (d_show D (mean_of D total_predicted results)) @
     delta_statistics D ''  '' ''normalized_delta_wait'' p)"

definition summary_maps :: "dataset \<Rightarrow> string" where
  "summary_maps d =
    write_map ''excluded_reason_counts'' (excluded_reason_counts d) @
    write_map ''known_gap_bucket_counts'' (known_gap_bucket_counts d) @
    write_map ''included_master_distribution'' (master_distribution d) @
    write_map ''included_region_distribution'' (region_distribution d) @
    write_map ''included_size_distribution'' (size_distribution d) @
    write_map ''included_rw_distribution'' (rw_distribution d) @
    write_map ''included_access_kind_distribution'' (access_kind_distribution d) @
    write_map ''included_master_region_distribution'' (master_region_distribution d) @
    write_map ''cache_bucket_distribution'' (cache_bucket_distribution d) @
    write_map ''master_region_access_kind_cache_bucket_distribution'' (master_region_kind_bucket_distribution d)"

text \<open>The statistics of the observed buckets and the symmetry checks, one object per line.\<close>

definition bucket_line :: "'d doubles \<Rightarrow> string \<times> observed_bucket_stats \<Rightarrow> string" where
  "bucket_line D e =
    (let (key, b) = e; q = (\<lambda>values pct. d_show D (percentile D values pct))
     in named ''    '' (json_escape key) @ inline_object
       [(''sample_size'', dec (sample_size b)),
        (''observed_wait_nonzero_count'', dec (observed_wait_nonzero_count b)),
        (''observed_wait_nonzero_rate'', d_show D (wait_rate D b)),
        (''observed_elapsed_p50'', q (observed_elapsed_values b) (p50 D)),
        (''observed_elapsed_p90'', q (observed_elapsed_values b) (p90 D)),
        (''observed_elapsed_p99'', q (observed_elapsed_values b) (p99 D)),
        (''observed_wait_p50'', q (observed_wait_values b) (p50 D)),
        (''observed_wait_p90'', q (observed_wait_values b) (p90 D)),
        (''observed_wait_p99'', q (observed_wait_values b) (p99 D)),
        (''low_sample'', shown_bool (sample_size b < 100))])"

definition side_object :: "'d doubles \<Rightarrow> observed_bucket_stats \<Rightarrow> string" where
  "side_object D b =
    (let q = (\<lambda>pct. d_show D (percentile D (observed_elapsed_values b) pct))
     in inline_object [(''N'', dec (sample_size b)), (''elapsed_p50'', q (p50 D)), (''elapsed_p90'', q (p90 D)),
       (''elapsed_p99'', q (p99 D)), (''wait_nonzero_rate'', d_show D (wait_rate D b))])"

definition symmetry_line :: "'d doubles \<Rightarrow> symmetry_entry \<Rightarrow> string" where
  "symmetry_line D e = ''    '' @ inline_object
    [(''bucket'', shown_text (se_bucket e)), (''msh2'', side_object D (se_msh2 e)), (''ssh2'', side_object D (se_ssh2 e)),
     (''symmetric'', shown_bool (se_symmetric e)), (''notes'', shown_text (se_notes e))]"

definition summary_observed :: "'d doubles \<Rightarrow> report \<Rightarrow> string" where
  "summary_observed D p =
    named ''  '' ''observed_bucket_stats_by_master_region_access_kind_cache_bucket'' @ ''{'' @ [newline] @
    comma_lines (map (bucket_line D) (RBT.entries (observed_buckets p))) @ ''  },'' @ [newline] @
    named ''  '' ''symmetry_checks'' @ ''['' @ [newline] @
    comma_lines (map (symmetry_line D) (symmetry_checks D (observed_buckets p))) @ ''  ],'' @ [newline] @
    named ''  '' ''delta_histogram'' @ ''{'' @ [newline] @ json_counts ''    '' (histogram p) @ ''  }''"

text \<open>The model comparison, with its tables and its rankings.\<close>

definition model_table :: "string \<Rightarrow> string list \<Rightarrow> string" where
  "model_table name rows = named ''    '' name @ ''{'' @ [newline] @ comma_lines rows @ ''    },'' @ [newline]"

definition mismatch_line :: "'d doubles \<Rightarrow> distribution \<Rightarrow> string \<times> nat \<Rightarrow> string" where
  "mismatch_line D mismatches e =
    (let (key, n) = e; m = count_of key mismatches
     in named ''      '' (json_escape key) @ inline_object
       [(''mismatch_count'', dec m), (''sample_size'', dec n), (''mismatch_rate'', d_show D (ratio D (of_count D m) n))])"

definition kind_line :: "'d doubles \<Rightarrow> string \<times> i64 list \<Rightarrow> string" where
  "kind_line D e =
    (let (kind, deltas) = e
     in named ''      '' (json_escape kind) @ inline_object
       [(''sample_size'', dec (length deltas)), (''p90'', d_show D (percentile D deltas (p90 D))),
        (''p99'', d_show D (percentile D deltas (p99 D)))])"

definition ranked_object :: "(replay_result \<Rightarrow> (string \<times> string) list) \<Rightarrow> nat \<times> replay_result \<Rightarrow> string" where
  "ranked_object row e =
    (let (rank, r) = e; record = rr_record r
     in ''      '' @ inline_object
       ([(''rank'', dec rank), (''seq'', dec_word (tr_seq record)), (''master'', shown_text (tr_master record)),
         (''addr'', shown_text (addr_text record)), (''size'', dec_word (tr_size record))] @ row r @
        [(''classification'', shown_text (classification r)), (''region'', shown_text (region_name (tr_addr record)))]))"

definition drift_members :: "replay_result \<Rightarrow> (string \<times> string) list" where
  "drift_members r = [(''cumulative_drift_wait'', dec_i64 (cumulative_drift_wait r)),
     (''cumulative_drift_total'', dec_i64 (cumulative_drift_total r))]"

definition delta_members :: "replay_result \<Rightarrow> (string \<times> string) list" where
  "delta_members r = [(''model_vs_trace_wait_delta'', dec_i64 (normalized_delta_wait r)),
     (''model_vs_trace_total_delta'', dec_i64 (normalized_delta_total r))]"

definition ranking :: "string \<Rightarrow> (replay_result \<Rightarrow> (string \<times> string) list) \<Rightarrow> nat \<Rightarrow> replay_result list \<Rightarrow> string" where
  "ranking name row k results = named ''    '' name @ ''['' @ [newline] @
     comma_lines (map (ranked_object row) (enumerate 1 (take k results))) @ ''    ]''"

definition summary_model :: "'d doubles \<Rightarrow> nat \<Rightarrow> report \<Rightarrow> string" where
  "summary_model D k p =
    (let results = rp_results p; counts = (\<lambda>m. map (\<lambda>(key, n). named ''      '' (json_escape key) @ dec n) (RBT.entries m)) in
     '','' @ [newline] @
     named ''  '' ''model_comparison'' @ ''{'' @ [newline] @
     field_line ''    '' ''source'' (shown_text ''MODEL_COMPARISON'') @
     field_line ''    '' ''hypothesis_agreement_count'' (dec (normalized_agreement_count p)) @
     field_line ''    '' ''hypothesis_mismatch_count'' (dec (normalized_mismatch_count p)) @
     field_line ''    '' ''known_gap_count'' (dec (known_gap_count p)) @
     field_line ''    '' ''known_gap_byte_access_count'' (dec (known_gap_byte_access_count p)) @
     field_line ''    '' ''mean_model_predicted_service'' (d_show D (mean_of D base_latency_of results)) @
     field_line ''    '' ''mean_model_predicted_wait'' (d_show D (mean_of D contention_stall results)) @
     field_line ''    '' ''mean_model_predicted_total'' (d_show D (mean_of D total_predicted results)) @
     delta_statistics D ''    '' ''model_vs_trace_wait_delta'' p @
     model_table ''hypothesis_mismatch_by_master_region_access_kind''
       (map (mismatch_line D (normalized_mismatch_by_key p)) (RBT.entries (sample_size_by_key p))) @
     model_table ''model_vs_trace_wait_delta_by_access_kind''
       (map (kind_line D) (RBT.entries (normalized_delta_by_access_kind p))) @
     model_table ''hypothesis_mismatch_by_master'' (counts (normalized_by_master p)) @
     model_table ''hypothesis_mismatch_by_region'' (counts (normalized_by_region p)) @
     model_table ''hypothesis_mismatch_by_size'' (counts (normalized_by_size p)) @
     ranking ''top_cumulative_drifts'' (\<lambda>r. drift_members r @ delta_members r) k (top_cumulative results) @ '','' @ [newline] @
     ranking ''top_model_vs_trace_wait_deltas'' (\<lambda>r. delta_members r @ drift_members r) k (top_normalized results) @ [newline] @
     ''  }'' @ [newline])"

definition summary_text :: "'d doubles \<Rightarrow> options \<Rightarrow> dataset \<Rightarrow> input_stats \<Rightarrow> report \<Rightarrow> string" where
  "summary_text D opts d st p =
    summary_head d st p @
    (if include_model_comparison opts then summary_model_head D p else []) @
    summary_maps d @ summary_observed D p @
    (if include_model_comparison opts then summary_model D (top_k opts) p else [newline]) @
    ''}'' @ [newline]"

section \<open>What the symmetry checks compare\<close>

lemma sint_sort: "map sint (sort_key sint xs) = sort (map sint xs)"
  by (rule properties_for_sort [symmetric]) simp_all

lemma percentile_order:
  assumes "mset xs = mset ys"
  shows "percentile D xs = percentile D ys"
proof -
  have "sort (map sint xs) = sort (map sint ys)"
    by (rule properties_for_sort) (simp_all add: assms)
  then have "map sint (sort_key sint xs) = map sint (sort_key sint ys)" by (simp add: sint_sort)
  moreover have "inj (sint :: i64 \<Rightarrow> int)" by (rule injI) (simp add: signed_word_eqI)
  ultimately have s: "sort_key sint xs = sort_key sint ys" by (rule map_injective)
  have "length xs = length ys" "xs = [] \<longleftrightarrow> ys = []" using assms by (auto dest: mset_eq_length)
  then show ?thesis by (simp add: percentile_def fun_eq_iff s)
qed

lemma find_text_exists:
  assumes "take (length n) (drop m h) = n" "p \<le> m" "m < length h"
  shows "\<exists>q. find_text n h p = Some q \<and> q \<le> m"
proof (cases "find_text n h p")
  case None
  then show ?thesis using assms by (auto simp: find_text_def find_None_iff)
next
  case (Some q)
  then obtain i where i: "i < length h - p" "q = p + i" "\<And>j. j < i \<Longrightarrow> take (length n) (drop (p + j) h) \<noteq> n"
    by (auto simp: find_text_def find_Some_iff)
  have "q \<le> m"
  proof (rule ccontr)
    assume "\<not> q \<le> m"
    then have "m - p < i" using i(2) assms(2) by simp
    from i(3) [OF this] show False using assms(1,2) by simp
  qed
  then show ?thesis using Some by simp
qed

definition observed_key :: "replay_result \<Rightarrow> string" where
  "observed_key r = (let record = rr_record r in
     tr_master record @ '' | '' @ region_name (tr_addr record) @ '' | '' @ tr_kind record @ '' | '' @ cache_bucket r)"

definition stats_of :: "replay_result list \<Rightarrow> observed_bucket_stats" where
  "stats_of rs = \<lparr>sample_size = length rs, observed_wait_nonzero_count = number_of (\<lambda>r. ymir_wait r > 0) rs,
     observed_elapsed_values = map (\<lambda>r. ucast (ymir_elapsed r)) rs, observed_wait_values = map (\<lambda>r. ucast (ymir_wait r)) rs\<rparr>"

definition observed_ok :: "report \<Rightarrow> bool" where
  "observed_ok p \<longleftrightarrow> (\<forall>k. RBT.lookup (observed_buckets p) k =
     (let rs = filter (\<lambda>r. observed_key r = k) (rp_results p) in if rs = [] then None else Some (stats_of rs)))"

lemma observed_frame:
  "rr_record (r\<lparr>classification := t\<rparr>) = rr_record r" "observed_key (r\<lparr>classification := t\<rparr>) = observed_key r"
  "cache_bucket (classify r) = cache_bucket r" "ymir_wait (classify r) = ymir_wait r" "ymir_elapsed (classify r) = ymir_elapsed r"
  "cache_bucket (compare_model a b prev r) = cache_bucket r" "ymir_wait (compare_model a b prev r) = ymir_wait r"
  "ymir_elapsed (compare_model a b prev r) = ymir_elapsed r"
  "observed_buckets (count_class r p) = observed_buckets p" "observed_buckets (count_normalized r p) = observed_buckets p"
  by (simp_all add: observed_key_def classify_def compare_model_def count_class_def count_normalized_def Let_def)

lemma measured_result:
  obtains x where "rp_results (measure_record compare p r) = rp_results p @ [x]" "observed_key x = observed_key (observe r)"
    "ymir_wait x = ymir_wait (observe r)" "ymir_elapsed x = ymir_elapsed (observe r)"
    "observed_buckets (measure_record compare p r) = observe_bucket (observe r) (observed_buckets p)"
proof (cases compare)
  case True
  define after where "after = commit_grant ymir_access_cycles (rp_arbiter p) (request_of r) (tick_first_attempt r) False"
  define x where "x = classify (compare_model (rp_arbiter p) after (rp_previous p) (observe r))"
  have "observed_key x = observed_key (observe r)" by (simp add: observed_key_def x_def observed_frame)
  then show ?thesis
    by (intro that [of x]) (simp_all add: True measure_record_def Let_def x_def after_def observed_frame)
next
  case False
  then show ?thesis
    by (intro that [of "(observe r)\<lparr>classification := if ymir_wait (observe r) > 0 then ''wait_nonzero'' else ''wait_zero''\<rparr>"])
      (simp_all add: measure_record_def Let_def observed_frame)
qed

lemma stats_snoc:
  "stats_of (rs @ [r]) = (let b = stats_of rs in
     \<lparr>sample_size = sample_size b + 1, observed_wait_nonzero_count = observed_wait_nonzero_count b + (if ymir_wait r > 0 then 1 else 0),
      observed_elapsed_values = observed_elapsed_values b @ [ucast (ymir_elapsed r)],
      observed_wait_values = observed_wait_values b @ [ucast (ymir_wait r)]\<rparr>)"
  by (simp add: stats_of_def Let_def)

lemma stats_of_Nil: "stats_of [] = \<lparr>sample_size = 0, observed_wait_nonzero_count = 0, observed_elapsed_values = [], observed_wait_values = []\<rparr>"
  by (simp add: stats_of_def)

lemma observe_bucket_insert:
  assumes "RBT.lookup m (observed_key r) = (if rs = [] then None else Some (stats_of rs))"
  shows "observe_bucket r m = RBT.insert (observed_key r) (stats_of (rs @ [r])) m"
proof -
  have "observe_bucket r m = (let b = (case RBT.lookup m (observed_key r) of Some b \<Rightarrow> b | None \<Rightarrow> stats_of [])
    in RBT.insert (observed_key r)
     \<lparr>sample_size = sample_size b + 1, observed_wait_nonzero_count = observed_wait_nonzero_count b + (if ymir_wait r > 0 then 1 else 0),
      observed_elapsed_values = observed_elapsed_values b @ [ucast (ymir_elapsed r)],
      observed_wait_values = observed_wait_values b @ [ucast (ymir_wait r)]\<rparr> m)"
    unfolding observe_bucket_def observed_key_def Let_def stats_of_Nil ..
  moreover have "(case RBT.lookup m (observed_key r) of Some b \<Rightarrow> b | None \<Rightarrow> stats_of []) = stats_of rs"
    using assms by simp
  ultimately show ?thesis by (simp only: stats_snoc Let_def)
qed

lemma measure_observed: "observed_ok (measure_all compare records)"
proof (induction records rule: rev_induct)
  case Nil
  show ?case by (simp add: observed_ok_def measure_all_def new_report_def)
next
  case (snoc r records)
  let ?p = "measure_all compare records" and ?k = "observed_key (observe r)"
  obtain x where x: "rp_results (measure_record compare ?p r) = rp_results ?p @ [x]" "observed_key x = ?k"
    "ymir_wait x = ymir_wait (observe r)" "ymir_elapsed x = ymir_elapsed (observe r)"
    and b: "observed_buckets (measure_record compare ?p r) = observe_bucket (observe r) (observed_buckets ?p)"
    by (rule measured_result [of compare ?p r])
  let ?rs = "filter (\<lambda>r. observed_key r = ?k) (rp_results ?p)"
  have "RBT.lookup (observed_buckets ?p) ?k = (if ?rs = [] then None else Some (stats_of ?rs))"
    using snoc by (simp add: observed_ok_def Let_def)
  note i = observe_bucket_insert [OF this]
  have "stats_of (?rs @ [observe r]) = stats_of (?rs @ [x])" by (simp only: stats_snoc x(3,4))
  then have "observed_ok (measure_record compare ?p r)"
    using snoc by (simp add: observed_ok_def b i x(1,2) Let_def)
  then show ?case by (simp add: measure_all_def)
qed

text \<open>A key that has its three delimiters is split after the master.\<close>

lemma key_delimiters:
  assumes "parse_master m \<noteq> None" "key = m @ '' | '' @ rg @ '' | '' @ kd @ '' | '' @ bk"
  shows "find_text '' | '' key 0 = Some (length m)"
    and "\<exists>p2 p3. find_text '' | '' key (length m + 3) = Some p2 \<and> find_text '' | '' key (p2 + 3) = Some p3"
proof -
  have "m \<in> {''MSH2'', ''SSH2'', ''DMA''}" using assms(1) by (auto simp: parse_master_def split: if_splits)
  then show "find_text '' | '' key 0 = Some (length m)"
    unfolding assms(2) by (elim insertE emptyE) (simp_all add: find_text_locate)
  let ?a = "length m + 3 + length rg"
  let ?b = "?a + 3 + length kd"
  have "key = (m @ '' | '' @ rg) @ '' | '' @ kd @ '' | '' @ bk" "key = (m @ '' | '' @ rg @ '' | '' @ kd) @ '' | '' @ bk"
    by (simp_all add: assms(2))
  then have "drop (length (m @ '' | '' @ rg)) key = '' | '' @ kd @ '' | '' @ bk"
    "drop (length (m @ '' | '' @ rg @ '' | '' @ kd)) key = '' | '' @ bk" by (metis append_eq_conv_conj)+
  moreover have "length (m @ '' | '' @ rg) = ?a" "length (m @ '' | '' @ rg @ '' | '' @ kd) = ?b" by simp_all
  moreover have "take (length ('' | '' :: string)) ('' | '' @ xs) = '' | ''" for xs by (rule append_eq_conv_conj [THEN iffD1, THEN conjunct1, symmetric]) simp
  ultimately have d: "take (length ('' | '' :: string)) (drop ?a key) = '' | ''" "take (length ('' | '' :: string)) (drop ?b key) = '' | ''"
    by metis+
  have l: "?b < length key" "?a < length key" by (simp_all add: assms(2))
  obtain p2 where p2: "find_text '' | '' key (length m + 3) = Some p2" "p2 \<le> ?a"
    using find_text_exists [OF d(1) _ l(2), of "length m + 3"] by auto
  moreover obtain p3 where "find_text '' | '' key (p2 + 3) = Some p3"
    using find_text_exists [OF d(2) _ l(1), of "p2 + 3"] p2(2) by auto
  ultimately show "\<exists>p2 p3. find_text '' | '' key (length m + 3) = Some p2 \<and> find_text '' | '' key (p2 + 3) = Some p3" by blast
qed

definition side_key :: "string \<Rightarrow> string \<Rightarrow> string" where
  "side_key m rest = m @ '' | '' @ rest"

definition splits :: "string \<Rightarrow> bool" where
  "splits key \<longleftrightarrow> (\<exists>m rg kd bk. parse_master m \<noteq> None \<and> key = m @ '' | '' @ rg @ '' | '' @ kd @ '' | '' @ bk)"

lemma add_candidate_lookup:
  assumes "splits key"
  shows "RBT.lookup (add_candidate t (key, b)) rest =
    (let old = (case RBT.lookup t rest of None \<Rightarrow> (None, None) | Some c \<Rightarrow> c)
     in if key = side_key ''MSH2'' rest then Some (Some b, snd old)
        else if key = side_key ''SSH2'' rest then Some (fst old, Some b) else RBT.lookup t rest)"
proof -
  obtain m rg kd bk where k: "parse_master m \<noteq> None" "key = m @ '' | '' @ rg @ '' | '' @ kd @ '' | '' @ bk"
    using assms unfolding splits_def by blast
  obtain p2 p3 where p: "find_text '' | '' key (length m + 3) = Some p2" "find_text '' | '' key (p2 + 3) = Some p3"
    using key_delimiters(2) [OF k] by blast
  have m: "m \<in> {''MSH2'', ''SSH2'', ''DMA''}" using k(1) by (auto simp: parse_master_def split: if_splits)
  let ?rest = "rg @ '' | '' @ kd @ '' | '' @ bk"
  have s: "take (length m) key = m" "drop (length m + 3) key = ?rest" by (simp_all add: k(2))
  have e: "key = side_key n r \<longleftrightarrow> m = n \<and> ?rest = r" if "n \<in> {''MSH2'', ''SSH2''}" for n r
    using m that by (elim insertE emptyE) (auto simp: k(2) side_key_def)
  show ?thesis
    using e [of "''MSH2''" rest] e [of "''SSH2''" rest]
    by (auto simp: add_candidate_def Let_def key_delimiters(1) [OF k] p s)
qed

lemma candidates_lookup:
  assumes "distinct (map fst es)" "\<forall>e \<in> set es. splits (fst e)"
  shows "RBT.lookup (foldl add_candidate RBT.empty es) rest =
    (let a = map_of es (side_key ''MSH2'' rest); b = map_of es (side_key ''SSH2'' rest)
     in if a = None \<and> b = None then None else Some (a, b))"
  using assms
proof (induction es rule: rev_induct)
  case (snoc e es)
  obtain key b where e: "e = (key, b)" by fastforce
  have new: "map_of es key = None" using snoc.prems(1) by (auto simp: e map_of_eq_None_iff)
  have k: "splits key" using snoc.prems(2) by (simp add: e)
  have IH: "RBT.lookup (foldl add_candidate RBT.empty es) rest =
    (let a = map_of es (side_key ''MSH2'' rest); b = map_of es (side_key ''SSH2'' rest)
     in if a = None \<and> b = None then None else Some (a, b))" using snoc by simp
  have ne: "side_key ''MSH2'' rest \<noteq> side_key ''SSH2'' rest" by (simp add: side_key_def)
  have m: "map_of (es @ [(key, b)]) k' = (if k' = key then Some b else map_of es k')" for k'
    using new by (auto simp: map_add_def split: option.splits)
  show ?case
    using new ne
    by (auto simp: e add_candidate_lookup [OF k] IH m Let_def simp del: map_of_append split: option.splits)
qed simp

lemma symmetry_check_bucket: "symmetry_check D (b, c) = Some x \<Longrightarrow> se_bucket x = b"
  by (auto simp: symmetry_check_def Let_def split: option.splits if_splits prod.splits)

lemma checked_buckets:
  "map se_bucket (symmetry_checks D m) =
     map fst (filter (\<lambda>e. symmetry_check D e \<noteq> None) (RBT.entries (symmetry_candidates m)))"
proof -
  have "map se_bucket (List.map_filter (symmetry_check D) es) = map fst (filter (\<lambda>e. symmetry_check D e \<noteq> None) es)" for es
    by (induction es) (auto simp: map_filter_simps dest: symmetry_check_bucket split: option.split)
  then show ?thesis by (simp add: symmetry_checks_def)
qed

lemma symmetry_check_iff:
  "symmetry_check D (b, x, y) \<noteq> None \<longleftrightarrow> (\<exists>u v. x = Some u \<and> y = Some v \<and> 100 \<le> sample_size u \<and> 100 \<le> sample_size v)"
  by (auto simp: symmetry_check_def Let_def not_less split: option.splits)

text \<open>The candidates of a measured report are the pairs of statistics of the two CPUs.\<close>

lemma measured_splits:
  assumes "\<forall>r \<in> set records. valid_master r" "RBT.lookup (observed_buckets (measure_all compare records)) key = Some b"
  shows "splits key"
proof -
  let ?results = "rp_results (measure_all compare records)"
  have "filter (\<lambda>r. observed_key r = key) ?results \<noteq> []"
    using measure_observed [of compare records] assms(2) by (auto simp: observed_ok_def Let_def split: if_splits)
  then obtain r where r: "r \<in> set ?results" "observed_key r = key" by (auto simp: filter_empty_conv)
  have "rr_record r \<in> set (map rr_record ?results)" using r(1) by simp
  then have "valid_master (rr_record r)" using assms(1) measure_all_tallied [of compare records] by metis
  then show ?thesis unfolding splits_def valid_master_def r(2) [symmetric] observed_key_def Let_def by blast
qed

lemma measured_candidates:
  fixes compare :: bool
  assumes "\<forall>r \<in> set records. valid_master r"
  defines "m \<equiv> observed_buckets (measure_all compare records)"
  shows "RBT.lookup (symmetry_candidates m) b =
    (let x = RBT.lookup m (side_key ''MSH2'' b); y = RBT.lookup m (side_key ''SSH2'' b)
     in if x = None \<and> y = None then None else Some (x, y))"
proof -
  have "\<forall>e \<in> set (RBT.entries m). splits (fst e)"
    using measured_splits [OF assms(1), of compare] by (auto simp: m_def RBT.lookup_in_tree [symmetric])
  then show ?thesis
    unfolding symmetry_candidates_def by (subst candidates_lookup) (simp_all add: RBT.distinct_entries RBT.map_of_entries)
qed

lemma checked_iff:
  fixes compare :: bool
  assumes "\<forall>r \<in> set records. valid_master r"
  defines "p \<equiv> measure_all compare records"
  shows "b \<in> set (map se_bucket (symmetry_checks D (observed_buckets p))) \<longleftrightarrow>
    100 \<le> number_of (\<lambda>r. observed_key r = side_key ''MSH2'' b) (rp_results p) \<and>
    100 \<le> number_of (\<lambda>r. observed_key r = side_key ''SSH2'' b) (rp_results p)"
proof -
  let ?m = "observed_buckets p" and ?rs = "\<lambda>k. filter (\<lambda>r. observed_key r = k) (rp_results p)"
  have look: "RBT.lookup ?m k = (if ?rs k = [] then None else Some (stats_of (?rs k)))" for k
    using measure_observed by (simp add: p_def observed_ok_def Let_def)
  have "b \<in> set (map se_bucket (symmetry_checks D ?m)) \<longleftrightarrow>
      (\<exists>x y. RBT.lookup (symmetry_candidates ?m) b = Some (x, y) \<and> symmetry_check D (b, x, y) \<noteq> None)"
    unfolding checked_buckets by (auto simp: RBT.lookup_in_tree image_iff)
  also have "\<dots> \<longleftrightarrow> (\<exists>u v. RBT.lookup (symmetry_candidates ?m) b = Some (Some u, Some v) \<and>
      100 \<le> sample_size u \<and> 100 \<le> sample_size v)"
    unfolding symmetry_check_iff by blast
  finally show ?thesis
    by (auto simp: p_def measured_candidates [OF assms(1)] look [unfolded p_def] Let_def stats_of_def number_of_def)
qed

text \<open>Exact arithmetic on the rationals, printed as fractions.\<close>

definition exact_doubles :: "rat doubles" where
  "exact_doubles = \<lparr>of_count = of_nat, of_delta = (\<lambda>w. of_int (sint w)), literal = (\<lambda>m e. of_nat m / 10 ^ e),
     d_add = (+), d_sub = (-), d_mul = (*), d_div = (/), d_fabs = abs, d_greater = (\<lambda>x y. y < x),
     d_floor = (\<lambda>x. nat \<lfloor>x\<rfloor>), d_ceil = (\<lambda>x. nat \<lceil>x\<rceil>),
     d_show = (\<lambda>x. dec_int (fst (quotient_of x)) @ ''/'' @ dec_int (snd (quotient_of x)))\<rparr>"

text \<open>
  (C37) The summary compares the two CPUs wherever it can. A bucket (region, kind of access, cache class) appears
  among the symmetry checks exactly when the results hold at least a hundred samples of it from each CPU; the
  checks are in the order of the buckets, without repetition. The percentiles they compare depend on the samples as a
  multiset only: no order of the results changes them.
\<close>

theorem symmetry_checks_compare_both_cpus:
  "let p = measure_all compare (filtered_records (build_dataset records st));
       samples = (\<lambda>m b. number_of (\<lambda>r. observed_key r = side_key m b) (rp_results p));
       checks = map se_bucket (symmetry_checks D (observed_buckets p))
   in sorted checks \<and> distinct checks \<and>
      (\<forall>b. b \<in> set checks \<longleftrightarrow> 100 \<le> samples ''MSH2'' b \<and> 100 \<le> samples ''SSH2'' b) \<and>
      (\<forall>xs ys. mset xs = mset ys \<longrightarrow> percentile D xs = percentile D ys)"
proof -
  let ?included = "filtered_records (build_dataset records st)"
  have v: "\<forall>r \<in> set ?included. valid_master r"
    by (simp add: build_dataset_def include_all no_dataset_def Let_def)
  let ?m = "observed_buckets (measure_all compare ?included)"
  have "sorted (map se_bucket (symmetry_checks D ?m))"
    unfolding checked_buckets by (rule sorted_filter) (rule RBT.sorted_entries)
  moreover have "distinct (map se_bucket (symmetry_checks D ?m))"
    unfolding checked_buckets by (rule distinct_map_filter) (rule RBT.distinct_entries)
  moreover have "percentile D xs = percentile D ys" if "mset xs = mset ys" for xs ys using that by (rule percentile_order)
  ultimately show ?thesis unfolding Let_def using checked_iff [OF v] by blast
qed

lemma symmetry_checks_compare_both_cpus_witness:
  "percentile exact_doubles [30, - 10, 20] = percentile exact_doubles [- 10, 20, 30] \<and>
   percentile exact_doubles [- 10, 20, 30] (p50 exact_doubles) = 20"
proof -
  have "mset [30, - 10, 20] = mset [- 10, 20, 30 :: i64]" by simp
  then have "percentile exact_doubles [30, - 10, 20] = percentile exact_doubles [- 10, 20, 30]"
    using symmetry_checks_compare_both_cpus [of False "[]" no_stats exact_doubles] unfolding Let_def by blast
  moreover have "percentile exact_doubles [- 10, 20, 30] (p50 exact_doubles) = 20"
    by (simp add: percentile_def exact_doubles_def Let_def)
  ultimately show ?thesis ..
qed

end
