(* ===== verification/ReplayTool.thy ===== *)
theory ReplayTool
  imports ReplaySummary
begin

text \<open>
  \<open>main\<close> of the replay tool (\<open>src/tools/trace_replay/trace_replay.cpp\<close>): the command line, the input, the loop, the two
  output files and the console report in their order, with the exit codes. The files that can be read, the paths that can
  be written and the floating-point arithmetic are its host.
\<close>

section \<open>The whole tool\<close>

text \<open>
  What a run of the tool leaves behind: its exit code, what it printed, the annotated file and the summary
  file. \<open>writable\<close> says which output paths open.
\<close>

record replay_end =
  exit_code :: int
  console_text :: string
  annotated_file :: "(string \<times> string) option"
  summary_file :: "(string \<times> string) option"

definition ended :: "int \<Rightarrow> string \<Rightarrow> replay_end" where
  "ended code text = \<lparr>exit_code = code, console_text = text, annotated_file = None, summary_file = None\<rparr>"

text \<open>The two output files; the first that does not open ends the run, before anything is printed.\<close>

definition write_outputs ::
    "'d doubles \<Rightarrow> (string \<Rightarrow> bool) \<Rightarrow> options \<Rightarrow> input_stats \<Rightarrow> dataset \<Rightarrow> report \<Rightarrow> replay_end" where
  "write_outputs D writable opts st d p =
    (let annotated = (if summary_only opts then None else annotated_output_path opts)
     in if \<exists>path \<in> set_option annotated. \<not> writable path then ended 1 []
        else let e = (ended 0 [])\<lparr>annotated_file := map_option (\<lambda>path. (path, annotated_output opts (rp_results p))) annotated\<rparr>
        in if \<exists>path \<in> set_option (summary_output_path opts). \<not> writable path then e\<lparr>exit_code := 1\<rparr>
           else e\<lparr>summary_file := map_option (\<lambda>path. (path, summary_text D opts d st p)) (summary_output_path opts),
                  console_text := console_report opts st d p\<rparr>)"

definition trace_replay_main ::
    "'d doubles \<Rightarrow> (string \<Rightarrow> u8 list option) \<Rightarrow> (string \<Rightarrow> bool) \<Rightarrow> string list \<Rightarrow> replay_end" where
  "trace_replay_main D files writable arguments =
    (case parse_options arguments of
       ShowHelp \<Rightarrow> ended 0 help_text
     | Rejected \<Rightarrow> ended 1 help_text
     | Accepted opts \<Rightarrow>
         (case load_input_records files (input_path opts) [] no_stats of
            (ok, records, st) \<Rightarrow>
              if \<not> ok then ended 1 []
              else let d = build_dataset records st; p = measure_all (include_model_comparison opts) (filtered_records d)
                   in if check_report (include_model_comparison opts) p \<noteq> None then ended 1 []
                      else write_outputs D writable opts st d p))"

text \<open>
  (C38) When the tool fails, and what it writes. It exits with 1 exactly when the arguments are rejected, the input cannot
  be loaded or an output that was asked for cannot be opened, and never because of what the records hold; an annotated
  file is written exactly when the input loads and the file is asked for and opens, also when the summary then
  fails. A run that succeeds prints the console report and writes the summary when it is asked for; one that fails
  prints no report.
\<close>

theorem replay_tool_exit_code:
  fixes files :: "string \<Rightarrow> u8 list option" and writable :: "string \<Rightarrow> bool" and D :: "'d doubles"
  assumes "parse_options arguments = Accepted opts"
    and "load_input_records files (input_path opts) [] no_stats = (loads, records, st)"
  defines "e \<equiv> trace_replay_main D files writable arguments"
    and "annotated \<equiv> if summary_only opts then None else annotated_output_path opts"
    and "d \<equiv> build_dataset records st"
    and "p \<equiv> measure_all (include_model_comparison opts) (filtered_records (build_dataset records st))"
  shows "exit_code e \<in> {0, 1} \<and>
    (exit_code e = 0 \<longleftrightarrow> loads \<and> (\<forall>path. annotated = Some path \<or> summary_output_path opts = Some path \<longrightarrow> writable path)) \<and>
    (\<forall>path. (\<exists>text. annotated_file e = Some (path, text)) \<longleftrightarrow> loads \<and> annotated = Some path \<and> writable path) \<and>
    (exit_code e = 0 \<longrightarrow> console_text e = console_report opts st d p \<and>
       summary_file e = map_option (\<lambda>path. (path, summary_text D opts d st p)) (summary_output_path opts)) \<and>
    (exit_code e = 1 \<longrightarrow> console_text e = [] \<and> summary_file e = None)"
proof -
  have "check_report (include_model_comparison opts) p = None"
    using measure_all_tallied unfolding p_def by (simp add: check_report_def tallied_def)
  then have e: "e = (if loads then write_outputs D writable opts st d p else ended 1 [])"
    by (simp add: e_def trace_replay_main_def assms(1,2) p_def d_def Let_def)
  show ?thesis
    by (cases loads; cases annotated; cases "summary_output_path opts")
      (auto simp: e write_outputs_def ended_def Let_def annotated_def)
qed

lemma replay_tool_exit_code_witness:
  "exit_code (trace_replay_main exact_doubles (\<lambda>_. Some two_record_file) (\<lambda>path. path = ''a'')
     [''t.bin'', ''--annotated-output'', ''a'', ''--summary-output'', ''s'']) = 1"
proof -
  let ?opts = "default_options\<lparr>input_path := ''t.bin'', annotated_output_path := Some ''a'', summary_output_path := Some ''s''\<rparr>"
  have o: "parse_options [''t.bin'', ''--annotated-output'', ''a'', ''--summary-output'', ''s''] = Accepted ?opts"
    by (simp add: parse_options_def default_options_def)
  obtain ok records st where "load_input_records (\<lambda>_. Some two_record_file) (input_path ?opts) [] no_stats = (ok, records, st)"
    by (metis prod_cases3)
  from replay_tool_exit_code [OF o this, of exact_doubles "\<lambda>path. path = ''a''"]
  show ?thesis by (auto simp: default_options_def)
qed

end
