(* ===== verification/Spec2Isabelle.thy ===== *)
theory Spec2Isabelle
  imports BusTiming CommandLine PairMemory ReplayTool
begin

text \<open>
  Saturnis is a deterministic emulator scaffold for the two SH-2 CPUs of the Sega Saturn. CPU front
  ends never touch memory or devices themselves: they issue bus operations stamped with their local
  time, and one arbiter commits them one after the other, charges their latency and contention, and
  writes one line of trace per commit. An offline tool replays recorded bus traces.

  \<^bold>\<open>Parts, theories and code\<close>

  \<^item> \<open>Prelude\<close>: machine integers at their width, big-endian byte assembly, generic facts on words
    and lists, and the collection \<open>dispatch\<close> of the opcode families.
  \<^item> \<open>Memory\<close> (\<open>src/src/mem\<close>): \<open>StoreBuffer\<close>, \<open>TinyCache\<close>, \<open>CommittedMemory\<close> and the address
    predicates. Memory is its size and the bytes below it, as a function of the index. The locale \<open>byte_store\<close> states what a big-endian byte
    store promises; it is interpreted on committed memory, on the cache and on the plain registers.
  \<^item> \<open>Devices\<close> (\<open>src/src/dev\<close>): the MMIO register hub with its write log.
  \<^item> \<open>Selection\<close>: the best-so-far loop that both arbiters run over their candidates, and the locale
    \<open>selection\<close> under which its result does not depend on the order of the list.
  \<^item> \<open>Busarb\<close> (\<open>src/include/busarb\<close>, \<open>src/src/busarb\<close>): the stand-alone arbiter library and the Ymir
    timing table. The timing callback is a parameter; the locale \<open>bounded_timing\<close> holds what the
    library needs of it and is interpreted on the table.
  \<^item> \<open>Trace\<close> (\<open>bus_op.hpp\<close>, \<open>trace.hpp\<close>, \<open>trace.cpp\<close>): bus operations, the event log, its lines.
  \<^item> \<open>BusArbiter\<close> (\<open>src/src/bus\<close>): validation, latency and contention, the memory and device access of
    a commit, arbitration between producers, batches, the progress horizon. The arbiter record owns
    the memory, the devices and the trace the C++ class holds references to. The policy object is a
    function; the locale \<open>arbitration_policy\<close> is interpreted on the default policy. \<open>BusTiming\<close> holds the
    table of costs and what a run of waiting commits takes.
  \<^item> \<open>ScriptedCpu\<close>, \<open>ScriptedPair\<close> (\<open>scripted_cpu.cpp\<close>, \<open>emulator.cpp\<close>): the scripted front end with its
    store buffer and cache, the single-threaded loop over two of them, and its scripts.
  \<^item> \<open>MultiThread\<close> (\<open>emulator.cpp\<close>, \<open>run_scripted_pair_multithread\<close>): two producer threads and the
    coordinator, with their mailboxes, done flags and signal hub. A step of a thread ends at its next
    access to a shared object; a schedule is any list of threads. \<open>ThreadSafety\<close> proves invariants of
    its runs over the locale \<open>thread_invariant\<close>, interpreted on where each operation is and on which
    messages were signalled; \<open>ThreadOrder\<close> adds the invariant of the clocks
    and the run that never ends. \<open>ReferenceRun\<close> is a sequential reference for the scripted runs, which
    \<open>ThreadParity\<close> and \<open>PairParity\<close> compare with the threads and with the single-threaded loop. \<open>PairRun\<close>
    takes an iteration of that loop apart into single commits, each answered: its locale \<open>pair_invariant\<close> is
    interpreted on the clocks, on the announced progress, and in \<open>PairMemory\<close> on the memory of two
    scripts that share no cache line.
  \<^item> \<open>Sh2Decode\<close>, \<open>Sh2Core\<close> (\<open>sh2_decode\<close>, \<open>sh2_core\<close>): the decode table; the SH-2 core with every
    instruction in the order of its tests, delay slots, memory transactions of one or more bus
    operations, exceptions and TRAPA, the instruction cache and the run-ahead loop. \<open>Sh2Exec\<close> holds the
    shared facts (what each family leaves alone, the invariant, the counters), \<open>Sh2Arith\<close> arithmetic,
    \<open>Sh2Control\<close> control flow, \<open>Sh2FetchPath\<close> what the fetch and run-ahead paths do to instructions
    that wait for the bus.
  \<^item> \<open>BiosRun\<close> (\<open>run_bios_trace\<close>): two cores, the arbiter and the closing DMA probe.
  \<^item> \<open>CommandLine\<close> (\<open>main.cpp\<close>, \<open>emulator.hpp\<close>, \<open>Emulator::run\<close>, \<open>src/src/platform\<close>): options, exit codes,
    files and the SDL calls. The files and the two SDL results the code tests are its host parameter.
  \<^item> \<open>TraceReplay\<close> (\<open>src/tools/trace_replay\<close>): the JSON scanner, the number parsers, both loaders with
    their diagnostics, the command line, the sorted and filtered dataset, the head of an annotated row.
  \<^item> \<open>ReplayReport\<close>, \<open>ReplayConsole\<close>, \<open>ReplaySummary\<close>, \<open>ReplayTool\<close> (the rest of its \<open>main\<close>): the measuring
    loop against the arbiter library, its counters and checks, the rankings, the annotated output; the console
    report; the summary file; the order of all this and the exit codes. A \<open>std::map\<close> is a red-black tree of
    the library.

  \<^bold>\<open>What is shown\<close>

  Memory, cache, store buffer and registers read back what was written, byte by byte. The arbiters
  serialise the bus, never commit at or beyond the horizon, commit every ready operation, do not
  depend on the order of their input when each producer has one operation, and serve tied CPUs in
  turn; a rejected operation changes nothing but the trace; a read returns the last committed write.
  A busy bus never idles, and what it takes is the sum of the cost table. Two scripted CPUs that share no cache
  line refine a flat memory (\<open>scripts_refine_flat_memory\<close>): in whatever order their operations are committed, a run that
  ends leaves what the scripts leave one after the other. A scripted run that ends has drained both CPUs; one
  in which a CPU finished too early never ends.
  The threaded run never deadlocks and commits in the order of the request times, whatever the schedule; it
  can poll for ever when one CPU has no work (\<open>empty_script_hangs_the_threads\<close>). As long as no two requests
  ask for the same tick, every schedule that joins ends in the state of the reference run, and so does the
  single-threaded loop; with a tie the schedule can show (\<open>threaded_run_depends_on_schedule\<close>).
  The SH-2 core keeps its invariant in every run and retires one step per response; branches execute
  their slot; exception entry and TRAPA are undone by RTE; add and subtract with carry chain to 64
  bits. The BIOS run ends, and so does the command that starts it. The loaders account for every event;
  the annotated output written for a binary trace loads again as the same records, the consistency
  checks of the tool cannot fail, and its console report is a recount of the records. Behaviours that depart from the documentation or from the hardware
  manual are lemmas of their own, and the manifest lists them as findings: the trace of the threaded run
  depends on the schedule, \<open>pick_next\<close> is not transitive, DIV1, SUBC, SHAD and the fetch path lose
  state, the waits of the replay report are elapsed times.

  \<^bold>\<open>Bounds and fuel\<close>

  \<open>run_scripted_pair\<close> takes fuel because the loop of the source need not end: a CPU that has finished
  can block the other one for ever (\<open>finished_cpu_blocks_the_other\<close>). \<open>run_bios\<close> takes fuel, and
  \<open>max_steps\<close> iterations are enough up to \<open>2 ^ 32\<close>, because every iteration retires a step; the clocks
  of an iteration grow by at most \<open>iteration_slack\<close>. Every other loop is a terminating recursion; the
  run-ahead loop of the core has the budget the code passes to it (16). Statements about sums of 64-bit clocks
  assume that the sum stays below \<open>2 ^ 64\<close>. A run of the threads is a finite schedule;
  deadlock freedom is stated for fewer than \<open>2 ^ 64\<close> steps, the width of the epoch of the signal hub.

  \<^bold>\<open>Not modelled\<close>

  What SDL and the file system do is not modelled: their answers are arguments. \<open>assert\<close> is the NDEBUG
  build's no-op. Floating point, which only the summary file of the replay tool uses, is a parameter with no
  assumption (the record \<open>doubles\<close>); what the tool writes to the error stream is left out. Its \<open>main\<close> does not
  compile as it is (it uses members its result struct does not declare); the result record of the model has them.
\<close>

end
